theory Spec2Isabelle
  imports Main "HOL-Library.Word"
begin

unbundle bit_operations_syntax

section \<open>Platform and build constants\<close>

text \<open>
  The model fixes the LP64 platform: \<open>size_t\<close>, \<open>uintptr_t\<close> and every pointer are
  64-bit words, \<open>sizeof(void*) = 8\<close>, \<open>CHAR_BIT = 8\<close>. Arithmetic on \<open>size_t\<close> wraps
  around as in C. Bin indices (\<open>uint_fast8_t\<close>) are natural numbers.
\<close>

type_synonym size_t = "64 word"
type_synonym ptr = "64 word"

abbreviation NULL :: ptr where
  "NULL \<equiv> 0"

definition O1HEAP_ALIGNMENT :: size_t where
  "O1HEAP_ALIGNMENT = 8 * 2"

definition FRAGMENT_SIZE_MIN :: size_t where
  "FRAGMENT_SIZE_MIN = O1HEAP_ALIGNMENT * 2"

definition FRAGMENT_SIZE_MAX :: size_t where
  "FRAGMENT_SIZE_MAX = drop_bit 1 (- 1) + 1"

definition NUM_BINS_MAX :: nat where
  "NUM_BINS_MAX = 8 * 8"

text \<open>
  \<open>sizeof(O1HeapInstance)\<close> on LP64: 64 bin heads, the mask, the arena end and the five
  diagnostics words, 8 bytes each, 568 bytes; padded up to the alignment.
\<close>

definition INSTANCE_SIZE_PADDED :: size_t where
  "INSTANCE_SIZE_PADDED = (568 + O1HEAP_ALIGNMENT - 1) AND NOT (O1HEAP_ALIGNMENT - 1)"

definition o1heapMinArenaSize :: size_t where
  "o1heapMinArenaSize = INSTANCE_SIZE_PADDED + FRAGMENT_SIZE_MIN"

section \<open>Data model\<close>

text \<open>
  \<open>struct Fragment\<close> with its header flattened: \<open>next\<close> and \<open>prev_used\<close> are the
  header, \<open>next_free\<close> and \<open>prev_free\<close> the links of the bin list.
\<close>

record Fragment =
  "next" :: ptr
  prev_used :: size_t
  next_free :: ptr
  prev_free :: ptr

record O1HeapDiagnostics =
  capacity :: size_t
  allocated :: size_t
  peak_allocated :: size_t
  peak_request_size :: size_t
  oom_count :: "64 word"

text \<open>
  The state the functions work on: the fields of \<open>struct O1HeapInstance\<close>, and the arena
  as an explicit store. \<open>frags\<close> maps an address to the \<open>Fragment\<close> structure read there;
  \<open>payload\<close> maps an address to the user byte stored there (written by \<open>memmove\<close> and
  \<open>memcpy\<close> only). The two link words of a fragment lie in its payload area in C and
  are read by the code only while the fragment is free; the model keeps them in \<open>frags\<close>.
\<close>

record heap =
  bins :: "nat \<Rightarrow> ptr"
  nonempty_bin_mask :: size_t
  arena_end :: ptr
  diagnostics :: O1HeapDiagnostics
  frags :: "ptr \<Rightarrow> Fragment"
  payload :: "ptr \<Rightarrow> 8 word"

section \<open>Internal definitions\<close>

text \<open>
  Count leading zeros, as the intrinsic behind \<open>O1HEAP_CLZ\<close> computes it: the scan starts
  at the top bit and stops at the first bit set. The C value is undefined for 0 (the
  library asserts a positive argument); the model returns 64 there.
\<close>

fun clz_scan :: "nat \<Rightarrow> size_t \<Rightarrow> nat" where
  "clz_scan 0 x = 0"
| "clz_scan (Suc n) x = (if bit x n then 0 else Suc (clz_scan n x))"

definition O1HEAP_CLZ :: "size_t \<Rightarrow> nat" where
  "O1HEAP_CLZ x = clz_scan 64 x"

definition larger :: "size_t \<Rightarrow> size_t \<Rightarrow> size_t" where
  "larger a b = (if a > b then a else b)"

definition log2Floor :: "size_t \<Rightarrow> nat" where
  "log2Floor x = (64 - 1) - O1HEAP_CLZ x"

definition pow2 :: "nat \<Rightarrow> size_t" where
  "pow2 p = push_bit p 1"

definition roundUpToPowerOf2 :: "size_t \<Rightarrow> size_t" where
  "roundUpToPowerOf2 x = push_bit (64 - O1HEAP_CLZ (x - 1)) 1"

text \<open>
  The assertions around \<open>roundUpToPowerOf2\<close>, as predicates: the one at its entry
  (line 182), the four that follow the call in \<open>o1heapAllocate\<close> (lines 391 to 394),
  and the two lines that follow the call in \<open>o1heapReallocate\<close> (line 556 and line 557).
\<close>

definition roundUpToPowerOf2_asserts :: "size_t \<Rightarrow> bool" where
  "roundUpToPowerOf2_asserts x = (x \<ge> 2)"

definition o1heapAllocate_asserts :: "size_t \<Rightarrow> bool" where
  "o1heapAllocate_asserts amount =
     (let alloc_size = roundUpToPowerOf2 (amount + O1HEAP_ALIGNMENT)
      in alloc_size \<le> FRAGMENT_SIZE_MAX \<and> alloc_size \<ge> FRAGMENT_SIZE_MIN \<and>
         alloc_size \<ge> amount + O1HEAP_ALIGNMENT \<and> alloc_size AND (alloc_size - 1) = 0)"

definition o1heapReallocate_assert_range :: "size_t \<Rightarrow> bool" where
  "o1heapReallocate_assert_range new_amount =
     (let new_frag_size = roundUpToPowerOf2 (new_amount + O1HEAP_ALIGNMENT)
      in new_frag_size \<le> FRAGMENT_SIZE_MAX \<and> new_frag_size \<ge> FRAGMENT_SIZE_MIN)"

definition o1heapReallocate_assert_capacity :: "heap \<Rightarrow> size_t \<Rightarrow> bool" where
  "o1heapReallocate_assert_capacity handle new_amount =
     (let new_frag_size = roundUpToPowerOf2 (new_amount + O1HEAP_ALIGNMENT)
      in new_frag_size \<le> capacity (diagnostics handle))"

subsection \<open>Fragment header accessors\<close>

definition fragGetNext :: "heap \<Rightarrow> ptr \<Rightarrow> ptr" where
  "fragGetNext h frag = next (frags h frag)"

definition fragGetPrev :: "heap \<Rightarrow> ptr \<Rightarrow> ptr" where
  "fragGetPrev h frag = prev_used (frags h frag) AND NOT 1"

definition fragIsUsed :: "heap \<Rightarrow> ptr \<Rightarrow> bool" where
  "fragIsUsed h frag = (prev_used (frags h frag) AND 1 \<noteq> 0)"

definition fragGetSize :: "heap \<Rightarrow> ptr \<Rightarrow> size_t" where
  "fragGetSize h frag =
     (if next (frags h frag) \<noteq> NULL then next (frags h frag) - frag else arena_end h - frag)"

definition fragSetNext :: "heap \<Rightarrow> ptr \<Rightarrow> ptr \<Rightarrow> heap" where
  "fragSetNext h frag v = h\<lparr>frags := (frags h)(frag := (frags h frag)\<lparr>next := v\<rparr>)\<rparr>"

definition fragSetPrev :: "heap \<Rightarrow> ptr \<Rightarrow> ptr \<Rightarrow> heap" where
  "fragSetPrev h frag v =
     h\<lparr>frags := (frags h)(frag := (frags h frag)\<lparr>prev_used := (prev_used (frags h frag) AND 1) OR v\<rparr>)\<rparr>"

definition fragSetUsed :: "heap \<Rightarrow> ptr \<Rightarrow> bool \<Rightarrow> heap" where
  "fragSetUsed h frag v =
     h\<lparr>frags := (frags h)(frag := (frags h frag)\<lparr>prev_used :=
          (if v then prev_used (frags h frag) OR 1 else prev_used (frags h frag) AND NOT 1)\<rparr>)\<rparr>"

subsection \<open>Fragment management\<close>

definition interlink :: "heap \<Rightarrow> ptr \<Rightarrow> ptr \<Rightarrow> heap" where
  "interlink h left right =
     (let h1 = (if left \<noteq> NULL then fragSetNext h left right else h)
      in if right \<noteq> NULL then fragSetPrev h1 right left else h1)"

definition rebin :: "heap \<Rightarrow> ptr \<Rightarrow> size_t \<Rightarrow> heap" where
  "rebin handle fragment fragment_size =
     (let idx = log2Floor (fragment_size div FRAGMENT_SIZE_MIN);
          h1 = handle\<lparr>frags := (frags handle)(fragment :=
                 (frags handle fragment)\<lparr>next_free := bins handle idx\<rparr>)\<rparr>;
          h2 = h1\<lparr>frags := (frags h1)(fragment := (frags h1 fragment)\<lparr>prev_free := NULL\<rparr>)\<rparr>;
          h3 = (if bins h2 idx \<noteq> NULL
                then h2\<lparr>frags := (frags h2)(bins h2 idx :=
                       (frags h2 (bins h2 idx))\<lparr>prev_free := fragment\<rparr>)\<rparr>
                else h2);
          h4 = h3\<lparr>bins := (bins h3)(idx := fragment)\<rparr>
      in h4\<lparr>nonempty_bin_mask := nonempty_bin_mask h4 OR pow2 idx\<rparr>)"

definition unbin :: "heap \<Rightarrow> ptr \<Rightarrow> size_t \<Rightarrow> heap" where
  "unbin handle fragment fragment_size =
     (let idx = log2Floor (fragment_size div FRAGMENT_SIZE_MIN);
          h1 = (if next_free (frags handle fragment) \<noteq> NULL
                then handle\<lparr>frags := (frags handle)(next_free (frags handle fragment) :=
                       (frags handle (next_free (frags handle fragment)))
                         \<lparr>prev_free := prev_free (frags handle fragment)\<rparr>)\<rparr>
                else handle);
          h2 = (if prev_free (frags h1 fragment) \<noteq> NULL
                then h1\<lparr>frags := (frags h1)(prev_free (frags h1 fragment) :=
                       (frags h1 (prev_free (frags h1 fragment)))
                         \<lparr>next_free := next_free (frags h1 fragment)\<rparr>)\<rparr>
                else h1)
      in if bins h2 idx = fragment
         then (let h3 = h2\<lparr>bins := (bins h2)(idx := next_free (frags h2 fragment))\<rparr>
               in if bins h3 idx = NULL
                  then h3\<lparr>nonempty_bin_mask := nonempty_bin_mask h3 AND NOT (pow2 idx)\<rparr>
                  else h3)
         else h2)"

section \<open>Public API\<close>

text \<open>The loop of \<open>o1heapInit\<close> that aligns the capacity down.\<close>

function align_capacity :: "size_t \<Rightarrow> size_t" where
  "align_capacity c = (if c mod FRAGMENT_SIZE_MIN \<noteq> 0 then align_capacity (c - 1) else c)"
  by pat_completeness auto
termination
proof (relation "measure unat")
  show "wf (measure unat)" by simp
next
  fix c :: size_t
  assume "c mod FRAGMENT_SIZE_MIN \<noteq> 0"
  then have "c \<noteq> 0" by auto
  then have "unat (c - 1) < unat c"
    by (simp add: unat_minus_one unat_gt_0)
  then show "(c - 1, c) \<in> measure unat" by simp
qed

declare align_capacity.simps [simp del]

text \<open>
  \<open>o1heapInit\<close> takes the arena as it is found (\<open>mem\<close>, \<open>dat\<close>), its base address and
  its size. \<open>None\<close> is the NULL handle.
\<close>

definition o1heapInit :: "(ptr \<Rightarrow> Fragment) \<Rightarrow> (ptr \<Rightarrow> 8 word) \<Rightarrow> ptr \<Rightarrow> size_t \<Rightarrow> heap option" where
  "o1heapInit mem dat base sz =
     (if base \<noteq> NULL \<and> base mod O1HEAP_ALIGNMENT = 0 \<and> sz \<ge> o1heapMinArenaSize
      then
        (let cap0 = sz - INSTANCE_SIZE_PADDED;
             cap1 = (if cap0 > FRAGMENT_SIZE_MAX then FRAGMENT_SIZE_MAX else cap0);
             cap = align_capacity cap1;
             arena_start = base + INSTANCE_SIZE_PADDED;
             out = \<lparr>bins = (\<lambda>i. NULL), nonempty_bin_mask = 0, arena_end = arena_start + cap,
                    diagnostics = \<lparr>capacity = cap, allocated = 0, peak_allocated = 0,
                                    peak_request_size = 0, oom_count = 0\<rparr>,
                    frags = mem, payload = dat\<rparr>;
             frag = arena_start;
             h1 = fragSetNext out frag NULL;
             h2 = fragSetPrev h1 frag NULL;
             h3 = fragSetUsed h2 frag False;
             h4 = h3\<lparr>frags := (frags h3)(frag := (frags h3 frag)\<lparr>next_free := NULL\<rparr>)\<rparr>;
             h5 = h4\<lparr>frags := (frags h4)(frag := (frags h4 frag)\<lparr>prev_free := NULL\<rparr>)\<rparr>
         in Some (rebin h5 frag cap))
      else None)"

text \<open>The branch of \<open>o1heapAllocate\<close> taken once a suitable non-empty bin is found.\<close>

definition allocate_from_bin :: "heap \<Rightarrow> size_t \<Rightarrow> size_t \<Rightarrow> heap \<times> ptr" where
  "allocate_from_bin handle alloc_size smallest_bin_mask =
     (let bin_index = log2Floor smallest_bin_mask;
          frag = bins handle bin_index;
          frag_size = fragGetSize handle frag;
          h1 = unbin handle frag frag_size;
          leftover = frag_size - alloc_size;
          h2 = (if leftover \<ge> FRAGMENT_SIZE_MIN
                then (let new_frag = frag + alloc_size;
                          g1 = fragSetUsed h1 new_frag False;
                          g2 = interlink g1 new_frag (fragGetNext g1 frag);
                          g3 = interlink g2 frag new_frag
                      in rebin g3 new_frag leftover)
                else h1);
          h3 = h2\<lparr>diagnostics := (diagnostics h2)\<lparr>allocated :=
                 allocated (diagnostics h2) + alloc_size\<rparr>\<rparr>;
          h4 = h3\<lparr>diagnostics := (diagnostics h3)\<lparr>peak_allocated :=
                 larger (peak_allocated (diagnostics h3)) (allocated (diagnostics h3))\<rparr>\<rparr>;
          h5 = fragSetUsed h4 frag True
      in (h5, frag + O1HEAP_ALIGNMENT))"

definition o1heapAllocate :: "heap \<Rightarrow> size_t \<Rightarrow> heap \<times> ptr" where
  "o1heapAllocate handle amount =
     (let (h1, out) =
        (if amount > 0 \<and> amount \<le> capacity (diagnostics handle) - O1HEAP_ALIGNMENT
         then
           (let alloc_size = roundUpToPowerOf2 (amount + O1HEAP_ALIGNMENT);
                alloc_bins = alloc_size div FRAGMENT_SIZE_MIN;
                optimal_bin_index = log2Floor alloc_bins;
                candidate_bin_mask = NOT (pow2 optimal_bin_index - 1);
                suitable_bins = nonempty_bin_mask handle AND candidate_bin_mask;
                smallest_bin_mask = suitable_bins AND NOT (suitable_bins - 1)
            in if smallest_bin_mask \<noteq> 0
               then allocate_from_bin handle alloc_size smallest_bin_mask
               else (handle, NULL))
         else (handle, NULL));
          h2 = h1\<lparr>diagnostics := (diagnostics h1)\<lparr>peak_request_size :=
                 larger (peak_request_size (diagnostics h1)) amount\<rparr>\<rparr>
      in if out = NULL \<and> amount > 0
         then (h2\<lparr>diagnostics := (diagnostics h2)\<lparr>oom_count := oom_count (diagnostics h2) + 1\<rparr>\<rparr>, out)
         else (h2, out))"

definition o1heapFree :: "heap \<Rightarrow> ptr \<Rightarrow> heap" where
  "o1heapFree handle pointer =
     (if pointer \<noteq> NULL
      then
        (let frag = pointer - O1HEAP_ALIGNMENT;
             frag_size = fragGetSize handle frag;
             h1 = fragSetUsed handle frag False;
             h2 = h1\<lparr>diagnostics := (diagnostics h1)\<lparr>allocated :=
                    allocated (diagnostics h1) - frag_size\<rparr>\<rparr>;
             prv = fragGetPrev h2 frag;
             nxt = fragGetNext h2 frag;
             join_left = (prv \<noteq> NULL \<and> \<not> fragIsUsed h2 prv);
             join_right = (nxt \<noteq> NULL \<and> \<not> fragIsUsed h2 nxt)
         in if join_left \<and> join_right
            then (let prev_size = fragGetSize h2 prv;
                      next_size = fragGetSize h2 nxt;
                      g1 = unbin h2 prv prev_size;
                      g2 = unbin g1 nxt next_size;
                      g3 = interlink g2 prv (fragGetNext g2 nxt)
                  in rebin g3 prv (prev_size + frag_size + next_size))
            else if join_left
            then (let prev_size = fragGetSize h2 prv;
                      g1 = unbin h2 prv prev_size;
                      g2 = interlink g1 prv nxt
                  in rebin g2 prv (prev_size + frag_size))
            else if join_right
            then (let next_size = fragGetSize h2 nxt;
                      g1 = unbin h2 nxt next_size;
                      g2 = interlink g1 frag (fragGetNext g1 nxt)
                  in rebin g2 frag (frag_size + next_size))
            else rebin h2 frag frag_size)
      else handle)"

text \<open>
  \<open>memmove\<close> and \<open>memcpy\<close> on the payload store: the \<open>n\<close> bytes at \<open>src\<close> as they were
  before the call are found at \<open>dst\<close> afterwards.
\<close>

definition memmove :: "heap \<Rightarrow> ptr \<Rightarrow> ptr \<Rightarrow> size_t \<Rightarrow> heap" where
  "memmove h dst src n =
     h\<lparr>payload := (\<lambda>a. if a - dst < n then payload h (src + (a - dst)) else payload h a)\<rparr>"

text \<open>
  The branches of \<open>o1heapReallocate\<close>, named after the comments that head them in the
  source. Each takes the locals computed before the branch.
\<close>

definition realloc_shrink ::
  "heap \<Rightarrow> ptr \<Rightarrow> size_t \<Rightarrow> size_t \<Rightarrow> ptr \<Rightarrow> bool \<Rightarrow> size_t \<Rightarrow> heap" where
  "realloc_shrink handle frag frag_size new_frag_size nxt next_is_free next_size =
     (let leftover = frag_size - new_frag_size
      in if leftover \<ge> FRAGMENT_SIZE_MIN
         then
           (let h1 = handle\<lparr>diagnostics := (diagnostics handle)\<lparr>allocated :=
                       allocated (diagnostics handle) - leftover\<rparr>\<rparr>;
                new_frag = frag + new_frag_size;
                h2 = fragSetUsed h1 new_frag False;
                h3 = interlink h2 frag new_frag
            in if next_is_free
               then (let g1 = unbin h3 nxt next_size;
                         g2 = interlink g1 new_frag (fragGetNext g1 nxt)
                     in rebin g2 new_frag (leftover + next_size))
               else (let g1 = interlink h3 new_frag nxt
                     in rebin g1 new_frag leftover))
         else handle)"

definition realloc_expand_forward ::
  "heap \<Rightarrow> ptr \<Rightarrow> size_t \<Rightarrow> size_t \<Rightarrow> ptr \<Rightarrow> size_t \<Rightarrow> heap" where
  "realloc_expand_forward handle frag frag_size new_frag_size nxt next_size =
     (let h1 = unbin handle nxt next_size;
          leftover = (frag_size + next_size) - new_frag_size;
          h2 = (if leftover \<ge> FRAGMENT_SIZE_MIN
                then (let new_frag = frag + new_frag_size;
                          g1 = fragSetUsed h1 new_frag False;
                          g2 = interlink g1 new_frag (fragGetNext g1 nxt);
                          g3 = interlink g2 frag new_frag;
                          g4 = rebin g3 new_frag leftover
                      in g4\<lparr>diagnostics := (diagnostics g4)\<lparr>allocated :=
                             allocated (diagnostics g4) + (new_frag_size - frag_size)\<rparr>\<rparr>)
                else (let g1 = interlink h1 frag (fragGetNext h1 nxt)
                      in g1\<lparr>diagnostics := (diagnostics g1)\<lparr>allocated :=
                             allocated (diagnostics g1) + next_size\<rparr>\<rparr>))
      in h2\<lparr>diagnostics := (diagnostics h2)\<lparr>peak_allocated :=
             larger (peak_allocated (diagnostics h2)) (allocated (diagnostics h2))\<rparr>\<rparr>)"

definition realloc_expand_backward ::
  "heap \<Rightarrow> ptr \<Rightarrow> ptr \<Rightarrow> size_t \<Rightarrow> size_t \<Rightarrow> size_t \<Rightarrow> ptr \<Rightarrow> size_t \<Rightarrow> ptr \<Rightarrow> bool \<Rightarrow> size_t
     \<Rightarrow> heap \<times> ptr" where
  "realloc_expand_backward handle pointer frag frag_size old_amount new_frag_size
       prv prev_size nxt next_is_free next_size =
     (let h1 = unbin handle prv prev_size;
          h2 = (if next_is_free then unbin h1 nxt next_size else h1);
          out = prv + O1HEAP_ALIGNMENT;
          h3 = memmove h2 out pointer old_amount;
          h4 = fragSetUsed h3 prv True;
          leftover = (prev_size + frag_size + next_size) - new_frag_size;
          h5 = (if leftover \<ge> FRAGMENT_SIZE_MIN
                then (let new_frag = prv + new_frag_size;
                          g1 = fragSetUsed h4 new_frag False;
                          g2 = interlink g1 new_frag (if next_is_free then fragGetNext g1 nxt else nxt);
                          g3 = interlink g2 prv new_frag;
                          g4 = rebin g3 new_frag leftover
                      in g4\<lparr>diagnostics := (diagnostics g4)\<lparr>allocated :=
                             allocated (diagnostics g4) + (new_frag_size - frag_size)\<rparr>\<rparr>)
                else (let g1 = interlink h4 prv (if next_is_free then fragGetNext h4 nxt else nxt)
                      in g1\<lparr>diagnostics := (diagnostics g1)\<lparr>allocated :=
                             allocated (diagnostics g1) + (prev_size + next_size)\<rparr>\<rparr>))
      in (h5\<lparr>diagnostics := (diagnostics h5)\<lparr>peak_allocated :=
              larger (peak_allocated (diagnostics h5)) (allocated (diagnostics h5))\<rparr>\<rparr>, out))"

definition memcpy :: "heap \<Rightarrow> ptr \<Rightarrow> ptr \<Rightarrow> size_t \<Rightarrow> heap" where
  "memcpy h dst src n =
     h\<lparr>payload := (\<lambda>a. if a - dst < n then payload h (src + (a - dst)) else payload h a)\<rparr>"

definition realloc_new_block :: "heap \<Rightarrow> ptr \<Rightarrow> size_t \<Rightarrow> size_t \<Rightarrow> heap \<times> ptr" where
  "realloc_new_block handle pointer old_amount new_amount =
     (let (h1, out) = o1heapAllocate handle new_amount
      in if out \<noteq> NULL
         then (o1heapFree (memcpy h1 out pointer old_amount) pointer, out)
         else (h1, out))"

definition o1heapReallocate :: "heap \<Rightarrow> ptr \<Rightarrow> size_t \<Rightarrow> heap \<times> ptr" where
  "o1heapReallocate handle pointer new_amount =
     (if pointer = NULL then o1heapAllocate handle new_amount
      else if new_amount = 0 then (o1heapFree handle pointer, NULL)
      else
        (let h0 = handle\<lparr>diagnostics := (diagnostics handle)\<lparr>peak_request_size :=
                    larger (peak_request_size (diagnostics handle)) new_amount\<rparr>\<rparr>
         in if new_amount > capacity (diagnostics h0) - O1HEAP_ALIGNMENT
            then (h0\<lparr>diagnostics := (diagnostics h0)\<lparr>oom_count := oom_count (diagnostics h0) + 1\<rparr>\<rparr>,
                  NULL)
            else
              (let frag = pointer - O1HEAP_ALIGNMENT;
                   frag_size = fragGetSize h0 frag;
                   old_amount = frag_size - O1HEAP_ALIGNMENT;
                   new_frag_size = roundUpToPowerOf2 (new_amount + O1HEAP_ALIGNMENT);
                   prv = fragGetPrev h0 frag;
                   nxt = fragGetNext h0 frag;
                   prev_is_free = (prv \<noteq> NULL \<and> \<not> fragIsUsed h0 prv);
                   next_is_free = (nxt \<noteq> NULL \<and> \<not> fragIsUsed h0 nxt);
                   prev_size = (if prev_is_free then fragGetSize h0 prv else 0);
                   next_size = (if next_is_free then fragGetSize h0 nxt else 0)
               in if new_frag_size \<le> frag_size
                  then (realloc_shrink h0 frag frag_size new_frag_size nxt next_is_free next_size,
                        pointer)
                  else if next_is_free \<and> frag_size + next_size \<ge> new_frag_size
                  then (realloc_expand_forward h0 frag frag_size new_frag_size nxt next_size, pointer)
                  else if prev_is_free \<and> prev_size + frag_size + next_size \<ge> new_frag_size
                  then realloc_expand_backward h0 pointer frag frag_size old_amount new_frag_size
                         prv prev_size nxt next_is_free next_size
                  else realloc_new_block h0 pointer old_amount new_amount)))"

definition o1heapGetMaxAllocationSize :: "heap \<Rightarrow> size_t" where
  "o1heapGetMaxAllocationSize handle =
     pow2 (log2Floor (capacity (diagnostics handle))) - O1HEAP_ALIGNMENT"

definition o1heapDoInvariantsHold :: "heap \<Rightarrow> bool" where
  "o1heapDoInvariantsHold handle =
     (let v1 = list_all (\<lambda>i. (nonempty_bin_mask handle AND pow2 i \<noteq> 0) = (bins handle i \<noteq> NULL))
                 [0..<NUM_BINS_MAX];
          diag = diagnostics handle;
          v2 = (v1 \<and> capacity diag \<le> FRAGMENT_SIZE_MAX \<and> capacity diag \<ge> FRAGMENT_SIZE_MIN \<and>
                capacity diag mod FRAGMENT_SIZE_MIN = 0);
          v3 = (v2 \<and> allocated diag \<le> capacity diag \<and> allocated diag mod FRAGMENT_SIZE_MIN = 0 \<and>
                peak_allocated diag \<le> capacity diag \<and> peak_allocated diag \<ge> allocated diag \<and>
                peak_allocated diag mod FRAGMENT_SIZE_MIN = 0);
          v4 = (v3 \<and> (peak_request_size diag < capacity diag \<or> oom_count diag > 0))
      in if peak_request_size diag = 0
         then (v4 \<and> peak_allocated diag = 0 \<and> allocated diag = 0 \<and> oom_count diag = 0)
         else (v4 \<and> (peak_request_size diag + O1HEAP_ALIGNMENT \<le> peak_allocated diag \<or>
                     oom_count diag > 0)))"

definition o1heapGetDiagnostics :: "heap \<Rightarrow> O1HeapDiagnostics" where
  "o1heapGetDiagnostics handle = diagnostics handle"

section \<open>Sequences of public calls\<close>

text \<open>
  A public call, and a run of calls from a heap. Beside the heap a run keeps the list of
  live pointers: those returned by a call and not yet released. The documented
  precondition of \<open>o1heapFree\<close> and \<open>o1heapReallocate\<close> is that the pointer is NULL or
  live; a run that breaks it is \<open>None\<close>.
\<close>

datatype call = Allocate size_t | Free ptr | Reallocate ptr size_t

fun perform :: "heap \<Rightarrow> call \<Rightarrow> heap \<times> ptr" where
  "perform h (Allocate n) = o1heapAllocate h n"
| "perform h (Free p) = (o1heapFree h p, NULL)"
| "perform h (Reallocate p n) = o1heapReallocate h p n"

fun permitted :: "ptr list \<Rightarrow> call \<Rightarrow> bool" where
  "permitted live (Allocate n) = True"
| "permitted live (Free p) = (p = NULL \<or> p \<in> set live)"
| "permitted live (Reallocate p n) = (p = NULL \<or> p \<in> set live)"

fun live_after :: "ptr list \<Rightarrow> call \<Rightarrow> ptr \<Rightarrow> ptr list" where
  "live_after live (Allocate n) out = (if out \<noteq> NULL then out # live else live)"
| "live_after live (Free p) out = removeAll p live"
| "live_after live (Reallocate p n) out =
     (if p = NULL then (if out \<noteq> NULL then out # live else live)
      else if n = 0 then removeAll p live
      else if out \<noteq> NULL then out # removeAll p live
      else live)"

fun run :: "heap \<times> ptr list \<Rightarrow> call list \<Rightarrow> (heap \<times> ptr list) option" where
  "run s [] = Some s"
| "run s (c # cs) =
     (if permitted (snd s) c
      then (let r = perform (fst s) c in run (fst r, live_after (snd s) c (snd r)) cs)
      else None)"

text \<open>
  The arena handed to \<open>o1heapInit\<close> is a memory object: it does not wrap around the
  address space.
\<close>

definition arena_object :: "ptr \<Rightarrow> size_t \<Rightarrow> bool" where
  "arena_object base sz = (unat base + unat sz < 2 ^ 64)"

definition reachable :: "heap \<Rightarrow> bool" where
  "reachable h =
     (\<exists>mem dat base sz h0 cs live.
        arena_object base sz \<and> o1heapInit mem dat base sz = Some h0 \<and>
        run (h0, []) cs = Some (h, live))"

subsection \<open>A concrete arena\<close>

text \<open>
  An arena at address 4096 whose memory is all zero, with room for the instance and 4096
  bytes of capacity, and one with 4128 bytes of capacity.
\<close>

definition blank_mem :: "ptr \<Rightarrow> Fragment" where
  "blank_mem = (\<lambda>a. \<lparr>next = 0, prev_used = 0, next_free = 0, prev_free = 0\<rparr>)"

definition blank_dat :: "ptr \<Rightarrow> 8 word" where
  "blank_dat = (\<lambda>a. 0)"

definition heap4096 :: heap where
  "heap4096 = the (o1heapInit blank_mem blank_dat 4096 (576 + 4096))"

definition heap4128 :: heap where
  "heap4128 = the (o1heapInit blank_mem blank_dat 4096 (576 + 4128))"

definition after :: "heap \<Rightarrow> call list \<Rightarrow> heap" where
  "after h cs = fst (the (run (h, []) cs))"

section \<open>The structure of the heap\<close>

text \<open>
  The definitions below describe a well-formed heap. They are not part of the program:
  they say which layouts of the arena the program maintains. A layout is the list of the
  fragments in address order, each with its size and its used flag; the headers in
  \<open>frags\<close>, the bins and the diagnostics are related to it by \<open>heap_inv\<close>.
\<close>

text \<open>
  A doubly linked segment: following \<open>nx\<close> from \<open>h\<close> visits the nodes of the list in
  order and ends at \<open>z\<close>, and \<open>pv\<close> of each node is the node before it (\<open>p\<close> for the
  first).
\<close>

fun dseg :: "(ptr \<Rightarrow> ptr) \<Rightarrow> (ptr \<Rightarrow> ptr) \<Rightarrow> ptr \<Rightarrow> ptr \<Rightarrow> ptr list \<Rightarrow> ptr \<Rightarrow> bool" where
  "dseg nx pv p h [] z = (h = z)"
| "dseg nx pv p h (a # as) z = (h = a \<and> pv a = p \<and> dseg nx pv a (nx a) as z)"

text \<open>
  The first pointer of a list, or \<open>z\<close> if it is empty; the last one, or \<open>p\<close>.
\<close>

definition hdp :: "ptr list \<Rightarrow> ptr \<Rightarrow> ptr" where
  "hdp ys z = (case ys of [] \<Rightarrow> z | y # _ \<Rightarrow> y)"

definition lastp :: "ptr \<Rightarrow> ptr list \<Rightarrow> ptr" where
  "lastp p xs = (if xs = [] then p else last xs)"

text \<open>
  The header fields as functions of the address, as the accessors \<open>fragGetNext\<close>,
  \<open>fragGetPrev\<close> and \<open>fragIsUsed\<close> read them.
\<close>

definition nextf :: "(ptr \<Rightarrow> Fragment) \<Rightarrow> ptr \<Rightarrow> ptr" where
  "nextf m a = next (m a)"

definition prevf :: "(ptr \<Rightarrow> Fragment) \<Rightarrow> ptr \<Rightarrow> ptr" where
  "prevf m a = prev_used (m a) AND NOT 1"

definition usedf :: "(ptr \<Rightarrow> Fragment) \<Rightarrow> ptr \<Rightarrow> bool" where
  "usedf m a = (prev_used (m a) AND 1 \<noteq> 0)"

definition nfree :: "(ptr \<Rightarrow> Fragment) \<Rightarrow> ptr \<Rightarrow> ptr" where
  "nfree m a = next_free (m a)"

definition pfree :: "(ptr \<Rightarrow> Fragment) \<Rightarrow> ptr \<Rightarrow> ptr" where
  "pfree m a = prev_free (m a)"

text \<open>
  The index of the bin of a free fragment of the given size, as \<open>rebin\<close> and \<open>unbin\<close>
  compute it.
\<close>

definition bin_of :: "nat \<Rightarrow> nat" where
  "bin_of s = log2Floor (of_nat s div FRAGMENT_SIZE_MIN)"

text \<open>
  The bins: bin \<open>i\<close> is a doubly linked list of exactly the free fragments whose size has
  bin index \<open>i\<close>, without repetition, and bit \<open>i\<close> of the mask says whether it is empty.
\<close>

definition bins_ok :: "heap \<Rightarrow> (nat \<Rightarrow> ptr list) \<Rightarrow> (ptr \<times> nat) set \<Rightarrow> bool" where
  "bins_ok h bl FS =
     (\<forall>i<64. dseg (nfree (frags h)) (pfree (frags h)) 0 (bins h i) (bl i) 0 \<and> distinct (bl i) \<and>
        set (bl i) = {a. \<exists>s. (a, s) \<in> FS \<and> bin_of s = i} \<and>
        bit (nonempty_bin_mask h) i = (bl i \<noteq> []))"

type_synonym layout = "(nat \<times> bool) list"

text \<open>
  The fragments of a layout with their start addresses, the sum of their sizes, and their
  addresses as pointers.
\<close>

fun spans :: "nat \<Rightarrow> layout \<Rightarrow> (nat \<times> nat \<times> bool) list" where
  "spans a [] = []"
| "spans a (f # fs) = (a, fst f, snd f) # spans (a + fst f) fs"

definition total :: "layout \<Rightarrow> nat" where
  "total fs = sum_list (map fst fs)"

definition addrs :: "nat \<Rightarrow> layout \<Rightarrow> ptr list" where
  "addrs a fs = map (\<lambda>x. of_nat (fst x)) (spans a fs)"

text \<open>
  Every fragment size is a multiple of \<open>FRAGMENT_SIZE_MIN\<close> and at least that.
\<close>

definition sizes_ok :: "layout \<Rightarrow> bool" where
  "sizes_ok fs = (\<forall>f \<in> set fs. 32 \<le> fst f \<and> 32 dvd fst f)"

text \<open>
  The address-ordered chain: the \<open>next\<close> and \<open>prev\<close> links go through the fragments of
  the layout in order, from the start of the arena to NULL, and the used flags are those of
  the layout.
\<close>

definition chain_v :: "(ptr \<Rightarrow> ptr) \<Rightarrow> (ptr \<Rightarrow> ptr) \<Rightarrow> (ptr \<Rightarrow> bool) \<Rightarrow> nat \<Rightarrow> layout \<Rightarrow> bool" where
  "chain_v nx pv us a0 fs =
     (dseg nx pv 0 (of_nat a0) (addrs a0 fs) 0 \<and>
      (\<forall>x \<in> set (spans a0 fs). us (of_nat (fst x)) = snd (snd x)))"

text \<open>
  No two neighbouring fragments of the layout are both free.
\<close>

fun naf :: "layout \<Rightarrow> bool" where
  "naf (f # g # fs) = ((snd f \<or> snd g) \<and> naf (g # fs))"
| "naf fs = True"

text \<open>
  The total size of the used fragments; the free fragments with their sizes; the pointers
  handed out for the used fragments (the address after the header).
\<close>

definition used_total :: "layout \<Rightarrow> nat" where
  "used_total fs = sum_list (map fst (filter snd fs))"

definition free_set :: "nat \<Rightarrow> layout \<Rightarrow> (ptr \<times> nat) set" where
  "free_set a fs = set (map (\<lambda>x. (of_nat (fst x), fst (snd x))) (filter (\<lambda>x. \<not> snd (snd x)) (spans a fs)))"

definition live_set :: "nat \<Rightarrow> layout \<Rightarrow> ptr set" where
  "live_set a fs = set (map (\<lambda>x. of_nat (fst x) + O1HEAP_ALIGNMENT) (filter (\<lambda>x. snd (snd x)) (spans a fs)))"

text \<open>
  The arena is the last \<open>capacity\<close> bytes before \<open>arena_end\<close>.
\<close>

definition arena_start :: "heap \<Rightarrow> nat" where
  "arena_start h = unat (arena_end h) - unat (capacity (diagnostics h))"

text \<open>
  The well-formed heap with layout \<open>fs\<close> and bin contents \<open>bl\<close>.
\<close>

definition heap_inv :: "heap \<Rightarrow> layout \<Rightarrow> (nat \<Rightarrow> ptr list) \<Rightarrow> bool" where
  "heap_inv h fs bl =
     (32 \<le> unat (capacity (diagnostics h)) \<and> unat (capacity (diagnostics h)) \<le> 2 ^ 63 \<and>
      32 dvd unat (capacity (diagnostics h)) \<and>
      unat (capacity (diagnostics h)) < unat (arena_end h) \<and> 16 dvd arena_start h \<and>
      sizes_ok fs \<and> total fs = unat (capacity (diagnostics h)) \<and>
      chain_v (nextf (frags h)) (prevf (frags h)) (usedf (frags h)) (arena_start h) fs \<and>
      naf fs \<and> bins_ok h bl (free_set (arena_start h) fs) \<and>
      unat (allocated (diagnostics h)) = used_total fs \<and>
      unat (allocated (diagnostics h)) \<le> unat (peak_allocated (diagnostics h)) \<and>
      unat (peak_allocated (diagnostics h)) \<le> unat (capacity (diagnostics h)) \<and>
      32 dvd unat (peak_allocated (diagnostics h)))"

text \<open>
  Two header or payload maps agree outside the address range from \<open>c\<close> to \<open>e\<close>.
\<close>

definition outside :: "nat \<Rightarrow> nat \<Rightarrow> (ptr \<Rightarrow> 'a) \<Rightarrow> (ptr \<Rightarrow> 'a) \<Rightarrow> bool" where
  "outside c e f g = (\<forall>d. (d < c \<or> e \<le> d) \<and> d < 2 ^ 64 \<longrightarrow> f (of_nat d) = g (of_nat d))"

text \<open>
  The fragment size that \<open>o1heapAllocate\<close> and \<open>o1heapReallocate\<close> compute for a request,
  and the condition under which a request can be served: it passes the guard and some free
  fragment lies in a bin at or above the optimal one.
\<close>

definition request_size :: "size_t \<Rightarrow> size_t" where
  "request_size n = roundUpToPowerOf2 (n + O1HEAP_ALIGNMENT)"

definition fits :: "heap \<Rightarrow> layout \<Rightarrow> size_t \<Rightarrow> bool" where
  "fits h fs n = (0 < n \<and> n \<le> capacity (diagnostics h) - O1HEAP_ALIGNMENT \<and>
     (\<exists>f \<in> set fs. \<not> snd f \<and> bin_of (unat (request_size n)) \<le> bin_of (fst f)))"

text \<open>
  A well-formed heap whose used fragments are exactly those of the pointers in \<open>live\<close>.
\<close>

definition run_inv :: "heap \<Rightarrow> ptr list \<Rightarrow> bool" where
  "run_inv h live = (\<exists>fs bl. heap_inv h fs bl \<and> set live = live_set (arena_start h) fs)"

text \<open>
  The walk along the \<open>next\<close> links of the fragment headers, from the first fragment of
  the arena until NULL. A fragment takes at least \<open>FRAGMENT_SIZE_MIN\<close> = 32 bytes, so
  \<open>capacity div 32\<close> steps reach the end of a well-formed chain.
\<close>

fun chain :: "heap \<Rightarrow> nat \<Rightarrow> ptr \<Rightarrow> ptr list" where
  "chain h 0 f = []"
| "chain h (Suc k) f = (if f = NULL then [] else f # chain h k (fragGetNext h f))"

definition fragments :: "heap \<Rightarrow> ptr list" where
  "fragments h =
     chain h (unat (capacity (diagnostics h)) div 32) (arena_end h - capacity (diagnostics h))"

text \<open>
  The fragment \<open>f\<close> is free and so is the fragment that follows it.
\<close>

definition adjacent_free :: "heap \<Rightarrow> ptr \<Rightarrow> bool" where
  "adjacent_free h f =
     (\<not> fragIsUsed h f \<and> fragGetNext h f \<noteq> NULL \<and> \<not> fragIsUsed h (fragGetNext h f))"

text \<open>
  The request counters after at most \<open>m\<close> calls: \<open>oom_count\<close> is the number \<open>k\<close> of
  failed requests, no request was made yet if \<open>peak_request_size\<close> is zero, and the
  largest request was served if none has failed.
\<close>

definition diag_inv :: "nat \<Rightarrow> heap \<Rightarrow> bool" where
  "diag_inv m h =
     (\<exists>k \<le> m. oom_count (diagnostics h) = of_nat k \<and>
        (peak_request_size (diagnostics h) = 0 \<longrightarrow> k = 0 \<and> peak_allocated (diagnostics h) = 0) \<and>
        (k = 0 \<and> peak_request_size (diagnostics h) \<noteq> 0 \<longrightarrow>
           unat (peak_request_size (diagnostics h)) + 16 \<le> unat (peak_allocated (diagnostics h))))"

section \<open>Bits and powers of two\<close>

lemma nbit_half: "unat (x::size_t) < 2 ^ Suc n \<Longrightarrow> \<not> bit x n \<Longrightarrow> unat x < 2 ^ n"
proof -
  assume a: "unat x < 2 ^ Suc n" and b: "\<not> bit x n"
  have "\<not> bit (unat x) n" using b by (simp add: bit_unsigned_iff)
  then have "even (unat x div 2 ^ n)" by (simp add: bit_iff_odd)
  moreover have "unat x div 2 ^ n < 2" using a by (simp add: less_mult_imp_div_less)
  ultimately have "unat x div 2 ^ n = 0" by (auto simp: less_2_cases_iff)
  then show ?thesis by (simp add: div_eq_0_iff)
qed

lemma bit_lower: "bit (x::size_t) n \<Longrightarrow> 2 ^ n \<le> unat x"
proof -
  assume "bit x n"
  then have "bit (unat x) n" by (simp add: bit_unsigned_iff)
  then have "odd (unat x div 2 ^ n)" by (simp add: bit_iff_odd)
  then have "unat x div 2 ^ n \<noteq> 0" by (rule contrapos_nn) simp
  then show ?thesis by (simp add: div_eq_0_iff)
qed

lemma clz_scan_bounds:
  "x \<noteq> 0 \<Longrightarrow> unat x < 2 ^ n \<Longrightarrow>
   clz_scan n x < n \<and> 2 ^ (n - 1 - clz_scan n x) \<le> unat x \<and> unat x < 2 ^ (n - clz_scan n x)"
proof (induction n)
  case 0
  then show ?case by (simp add: unat_eq_zero)
next
  case (Suc n)
  show ?case
  proof (cases "bit x n")
    case True
    then show ?thesis using Suc.prems bit_lower[OF True] by simp
  next
    case False
    have lt: "unat x < 2 ^ n" using nbit_half Suc.prems False by blast
    from Suc.IH[OF Suc.prems(1) lt] False show ?thesis
      by (auto simp: Suc_diff_le)
  qed
qed

lemma log2Floor_bounds:
  assumes "x \<noteq> 0"
  shows "log2Floor x < 64" "2 ^ log2Floor x \<le> unat x" "unat x < 2 ^ Suc (log2Floor x)"
proof -
  have lt: "unat x < 2 ^ 64" using unsigned_less[of x] by simp
  from clz_scan_bounds[OF assms lt]
  have a: "clz_scan 64 x < 64" and b: "2 ^ (64 - 1 - clz_scan 64 x) \<le> unat x"
    and c: "unat x < 2 ^ (64 - clz_scan 64 x)" by auto
  show "log2Floor x < 64" using a by (simp add: log2Floor_def O1HEAP_CLZ_def)
  show "2 ^ log2Floor x \<le> unat x" using b by (simp add: log2Floor_def O1HEAP_CLZ_def)
  have "Suc (63 - clz_scan 64 x) = 64 - clz_scan 64 x" using a by arith
  then show "unat x < 2 ^ Suc (log2Floor x)" using c by (simp add: log2Floor_def O1HEAP_CLZ_def)
qed

lemma pow2_sandwich: "(2::nat) ^ a \<le> n \<Longrightarrow> n < 2 ^ Suc b \<Longrightarrow> a \<le> b"
proof (rule ccontr)
  assume 1: "(2::nat) ^ a \<le> n" and 2: "n < 2 ^ Suc b" and "\<not> a \<le> b"
  then have "Suc b \<le> a" by simp
  then have "(2::nat) ^ Suc b \<le> 2 ^ a" by (rule power_increasing) simp
  with 1 2 show False by simp
qed

lemma log2Floor_unique:
  assumes "2 ^ k \<le> unat x" "unat x < 2 ^ Suc k"
  shows "log2Floor x = k"
proof -
  have nz: "x \<noteq> 0" using assms(1) by (auto simp: unat_eq_zero)
  note b = log2Floor_bounds[OF nz]
  have "k \<le> log2Floor x" using pow2_sandwich[OF assms(1) b(3)] .
  moreover have "log2Floor x \<le> k" using pow2_sandwich[OF b(2) assms(2)] .
  ultimately show ?thesis by simp
qed

lemma unat_2p64: "k < 64 \<Longrightarrow> unat (2 ^ k :: 64 word) = 2 ^ k"
proof -
  assume k: "k < 64"
  have "(2 ^ k :: 64 word) = of_nat (2 ^ k)" by simp
  then have "unat (2^k :: 64 word) = 2^k mod 2^64" by (simp only: unat_of_nat) simp
  moreover have "(2::nat) ^ k < 2 ^ 64" by (rule power_strict_increasing) (use k in simp_all)
  ultimately show ?thesis by simp
qed

lemma unat_pow2: "k < 64 \<Longrightarrow> unat (pow2 k) = 2 ^ k"
  by (simp add: pow2_def unat_2p64)

lemma roundUp_bounds:
  assumes "2 \<le> unat x" "unat x \<le> 2 ^ 63"
  shows "\<exists>k. 0 < k \<and> k < 64 \<and> k = 64 - O1HEAP_CLZ (x - 1) \<and> unat (roundUpToPowerOf2 x) = 2 ^ k \<and> 2 ^ (k - 1) < unat x \<and> unat x \<le> 2 ^ k"
proof -
  have xnz: "x \<noteq> 0" using assms(1) by (auto simp: unat_eq_zero)
  have u: "unat (x - 1) = unat x - 1" using xnz by (simp add: unat_minus_one)
  have ynz: "x - 1 \<noteq> 0" using u assms(1) by (auto simp: unat_eq_zero)
  have lt: "unat (x - 1) < 2 ^ 63" using u assms by simp
  from clz_scan_bounds[OF ynz lt]
  have a: "clz_scan 63 (x - 1) < 63" and b: "2 ^ (63 - 1 - clz_scan 63 (x - 1)) \<le> unat (x - 1)"
    and c: "unat (x - 1) < 2 ^ (63 - clz_scan 63 (x - 1))" by auto
  have nb: "\<not> bit (x - 1) 63"
    using lt bit_lower[of "x - 1" 63] by auto
  have clz: "O1HEAP_CLZ (x - 1) = Suc (clz_scan 63 (x - 1))"
    using nb by (simp add: O1HEAP_CLZ_def eval_nat_numeral(3) numeral_eq_Suc)
  define k where "k = 64 - O1HEAP_CLZ (x - 1)"
  have k: "k = 63 - clz_scan 63 (x - 1)" by (simp add: k_def clz)
  have k0: "0 < k" "k < 64" using a k by auto
  have "unat (roundUpToPowerOf2 x) = 2 ^ k"
    using unat_pow2[OF k0(2)] by (simp add: roundUpToPowerOf2_def k_def pow2_def)
  moreover have "2 ^ (k - 1) < unat x" using b u k assms(1) by (simp add: diff_diff_eq)
  moreover have "unat x \<le> 2 ^ k" using c u k by simp
  ultimately show ?thesis using k0 k_def by blast
qed

section \<open>Frame properties of the helpers\<close>

lemma fragSetNext_fields [simp]:
  "bins (fragSetNext h f v) = bins h"
  "nonempty_bin_mask (fragSetNext h f v) = nonempty_bin_mask h"
  "arena_end (fragSetNext h f v) = arena_end h"
  "diagnostics (fragSetNext h f v) = diagnostics h"
  "payload (fragSetNext h f v) = payload h"
  by (simp_all add: fragSetNext_def)

lemma fragSetPrev_fields [simp]:
  "bins (fragSetPrev h f v) = bins h"
  "nonempty_bin_mask (fragSetPrev h f v) = nonempty_bin_mask h"
  "arena_end (fragSetPrev h f v) = arena_end h"
  "diagnostics (fragSetPrev h f v) = diagnostics h"
  "payload (fragSetPrev h f v) = payload h"
  by (simp_all add: fragSetPrev_def)

lemma fragSetUsed_fields [simp]:
  "bins (fragSetUsed h f v) = bins h"
  "nonempty_bin_mask (fragSetUsed h f v) = nonempty_bin_mask h"
  "arena_end (fragSetUsed h f v) = arena_end h"
  "diagnostics (fragSetUsed h f v) = diagnostics h"
  "payload (fragSetUsed h f v) = payload h"
  by (simp_all add: fragSetUsed_def)

lemma interlink_fields [simp]:
  "bins (interlink h l r) = bins h"
  "nonempty_bin_mask (interlink h l r) = nonempty_bin_mask h"
  "arena_end (interlink h l r) = arena_end h"
  "diagnostics (interlink h l r) = diagnostics h"
  "payload (interlink h l r) = payload h"
  by (simp_all add: interlink_def Let_def)

lemma rebin_fields [simp]:
  "arena_end (rebin h f s) = arena_end h"
  "diagnostics (rebin h f s) = diagnostics h"
  "payload (rebin h f s) = payload h"
  by (simp_all add: rebin_def Let_def)

lemma unbin_fields [simp]:
  "arena_end (unbin h f s) = arena_end h"
  "diagnostics (unbin h f s) = diagnostics h"
  "payload (unbin h f s) = payload h"
  by (simp_all add: unbin_def Let_def)

lemma memmove_fields [simp]:
  "bins (memmove h d s n) = bins h"
  "nonempty_bin_mask (memmove h d s n) = nonempty_bin_mask h"
  "arena_end (memmove h d s n) = arena_end h"
  "diagnostics (memmove h d s n) = diagnostics h"
  "frags (memmove h d s n) = frags h"
  by (simp_all add: memmove_def)

lemma memcpy_fields [simp]:
  "bins (memcpy h d s n) = bins h"
  "nonempty_bin_mask (memcpy h d s n) = nonempty_bin_mask h"
  "arena_end (memcpy h d s n) = arena_end h"
  "diagnostics (memcpy h d s n) = diagnostics h"
  "frags (memcpy h d s n) = frags h"
  by (simp_all add: memcpy_def)

lemma o1heapFree_diag:
  "capacity (diagnostics (o1heapFree h p)) = capacity (diagnostics h)"
  "peak_allocated (diagnostics (o1heapFree h p)) = peak_allocated (diagnostics h)"
  "peak_request_size (diagnostics (o1heapFree h p)) = peak_request_size (diagnostics h)"
  "oom_count (diagnostics (o1heapFree h p)) = oom_count (diagnostics h)"
  by (simp_all add: o1heapFree_def Let_def)

lemma larger_zero [simp]: "larger a 0 = a"
  by (simp add: larger_def word_gt_0)

section \<open>The capacity is constant\<close>

lemmas consts_defs = O1HEAP_ALIGNMENT_def FRAGMENT_SIZE_MIN_def FRAGMENT_SIZE_MAX_def
  INSTANCE_SIZE_PADDED_def o1heapMinArenaSize_def NUM_BINS_MAX_def

lemma FRAGMENT_SIZE_MAX_value: "FRAGMENT_SIZE_MAX = 2 ^ 63"
proof -
  have "FRAGMENT_SIZE_MAX = 9223372036854775808" by code_simp
  then show ?thesis by simp
qed

lemma consts_values:
  "O1HEAP_ALIGNMENT = 16" "FRAGMENT_SIZE_MIN = 32" "FRAGMENT_SIZE_MAX = 2 ^ 63"
  "INSTANCE_SIZE_PADDED = 576" "o1heapMinArenaSize = 608" "NUM_BINS_MAX = 64"
  by (simp_all add: FRAGMENT_SIZE_MAX_value O1HEAP_ALIGNMENT_def FRAGMENT_SIZE_MIN_def
      INSTANCE_SIZE_PADDED_def o1heapMinArenaSize_def NUM_BINS_MAX_def)

lemma allocate_from_bin_capacity:
  "capacity (diagnostics (fst (allocate_from_bin h a m))) = capacity (diagnostics h)"
  by (simp add: allocate_from_bin_def Let_def)

lemma o1heapAllocate_capacity:
  "capacity (diagnostics (fst (o1heapAllocate h n))) = capacity (diagnostics h)"
  by (simp add: o1heapAllocate_def Let_def split_def allocate_from_bin_capacity)

lemma realloc_shrink_capacity:
  "capacity (diagnostics (realloc_shrink h f fs nfs nx nf ns)) = capacity (diagnostics h)"
  by (simp add: realloc_shrink_def Let_def)

lemma realloc_expand_forward_capacity:
  "capacity (diagnostics (realloc_expand_forward h f fs nfs nx ns)) = capacity (diagnostics h)"
  by (simp add: realloc_expand_forward_def Let_def)

lemma realloc_expand_backward_capacity:
  "capacity (diagnostics (fst (realloc_expand_backward h p f fs oa nfs pv ps nx nf ns))) =
   capacity (diagnostics h)"
  by (simp add: realloc_expand_backward_def Let_def)

lemma realloc_new_block_capacity:
  "capacity (diagnostics (fst (realloc_new_block h p oa n))) = capacity (diagnostics h)"
  using o1heapAllocate_capacity[of h n]
  by (simp add: realloc_new_block_def Let_def split_def o1heapFree_diag)

lemma o1heapReallocate_capacity:
  "capacity (diagnostics (fst (o1heapReallocate h p n))) = capacity (diagnostics h)"
  by (simp add: o1heapReallocate_def Let_def o1heapAllocate_capacity o1heapFree_diag
      realloc_shrink_capacity realloc_expand_forward_capacity realloc_expand_backward_capacity
      realloc_new_block_capacity)

lemma perform_capacity:
  "capacity (diagnostics (fst (perform h c))) = capacity (diagnostics h)"
  by (cases c) (simp_all add: o1heapAllocate_capacity o1heapFree_diag o1heapReallocate_capacity)

lemma run_capacity:
  "run s cs = Some t \<Longrightarrow> capacity (diagnostics (fst t)) = capacity (diagnostics (fst s))"
proof (induction cs arbitrary: s)
  case Nil
  then show ?case by simp
next
  case (Cons c cs)
  then show ?case
    by (auto simp: Let_def perform_capacity split: if_splits)
qed

lemma pred_div32: "(n::nat) mod 32 \<noteq> 0 \<Longrightarrow> (n - 1) div 32 = n div 32"
proof -
  assume a: "n mod 32 \<noteq> 0"
  define q where "q = n div 32"
  define r where "r = n mod 32"
  have b: "n = 32 * q + r" by (simp add: q_def r_def)
  have c: "r < 32" "r \<noteq> 0" using a by (simp_all add: r_def)
  have 1: "32 * q \<le> n - 1" using b c by linarith
  have 2: "n - 1 < 32 * Suc q" using b c by simp
  show ?thesis using 1 2 unfolding q_def
    by (rule div_nat_eqI)
qed

lemma mod32_unat: "(c mod FRAGMENT_SIZE_MIN = 0) = (unat (c::size_t) mod 32 = 0)"
proof -
  have "unat (c mod 32) = unat c mod 32" by (simp add: unat_mod)
  moreover have "(c mod 32 = 0) = (unat (c mod 32) = 0)" by (simp only: unat_eq_zero)
  ultimately show ?thesis by (simp add: consts_values)
qed

lemma align_capacity_unat: "unat (align_capacity c) = unat c div 32 * 32"
proof (induction c rule: align_capacity.induct)
  case (1 c)
  show ?case
  proof (cases "c mod FRAGMENT_SIZE_MIN \<noteq> 0")
    case True
    then have m: "unat c mod 32 \<noteq> 0" by (simp add: mod32_unat)
    then have c0: "c \<noteq> 0" by auto
    have u: "unat (c - 1) = unat c - 1" using c0 by (simp add: unat_minus_one)
    have "(unat c - 1) div 32 = unat c div 32" using m by (rule pred_div32)
    with 1[OF True] u True show ?thesis
      by (subst align_capacity.simps) simp
  next
    case False
    then have m: "unat c mod 32 = 0" by (simp add: mod32_unat)
    then have "unat c div 32 * 32 = unat c" by presburger
    with False show ?thesis by (subst align_capacity.simps) simp
  qed
qed

lemma init_capacity:
  assumes "o1heapInit mem dat base sz = Some h"
  shows "32 \<le> unat (capacity (diagnostics h))" "unat (capacity (diagnostics h)) \<le> 2 ^ 63"
    "32 dvd unat (capacity (diagnostics h))"
proof -
  define cap1 where "cap1 = (if sz - 576 > 2 ^ 63 then 2 ^ 63 else sz - 576 :: size_t)"
  have sz: "608 \<le> sz" using assms by (simp add: o1heapInit_def consts_values split: if_splits)
  have cap: "capacity (diagnostics h) = align_capacity cap1"
    using assms by (auto simp add: o1heapInit_def consts_values Let_def cap1_def split: if_splits)
  have s1: "unat (sz - 576) = unat sz - 576" "608 \<le> unat sz" using sz by unat_arith+
  have c1: "32 \<le> unat cap1" "unat cap1 \<le> 2 ^ 63"
    using s1 by (auto simp: cap1_def word_less_nat_alt)
  have u: "unat (capacity (diagnostics h)) = unat cap1 div 32 * 32"
    by (simp add: cap align_capacity_unat)
  show "32 \<le> unat (capacity (diagnostics h))" using c1 u by presburger
  show "unat (capacity (diagnostics h)) \<le> 2 ^ 63" using c1 u by presburger
  show "32 dvd unat (capacity (diagnostics h))" using u by presburger
qed

lemma reachable_capacity:
  assumes "reachable h"
  shows "32 \<le> unat (capacity (diagnostics h))" "unat (capacity (diagnostics h)) \<le> 2 ^ 63"
    "32 dvd unat (capacity (diagnostics h))"
proof -
  from assms obtain mem dat base sz h0 cs live where
    i: "o1heapInit mem dat base sz = Some h0" and r: "run (h0, []) cs = Some (h, live)"
    by (auto simp: reachable_def)
  have "capacity (diagnostics h) = capacity (diagnostics h0)"
    using run_capacity[OF r] by simp
  with init_capacity[OF i]
  show "32 \<le> unat (capacity (diagnostics h))" "unat (capacity (diagnostics h)) \<le> 2 ^ 63"
    "32 dvd unat (capacity (diagnostics h))" by simp_all
qed

section \<open>The concrete arenas are reachable\<close>

lemma heap4096_init: "o1heapInit blank_mem blank_dat 4096 (576 + 4096) = Some heap4096"
proof -
  have "o1heapInit blank_mem blank_dat 4096 (576 + 4096) \<noteq> None"
    by (simp add: o1heapInit_def consts_values Let_def)
  then show ?thesis by (auto simp: heap4096_def)
qed

lemma heap4128_init: "o1heapInit blank_mem blank_dat 4096 (576 + 4128) = Some heap4128"
proof -
  have "o1heapInit blank_mem blank_dat 4096 (576 + 4128) \<noteq> None"
    by (simp add: o1heapInit_def consts_values Let_def)
  then show ?thesis by (auto simp: heap4128_def)
qed

lemma reachable_after4096:
  assumes "run (heap4096, []) cs \<noteq> None"
  shows "reachable (after heap4096 cs)"
proof -
  from assms obtain h live where r: "run (heap4096, []) cs = Some (h, live)" by auto
  have a: "arena_object 4096 (576 + 4096)" by (simp add: arena_object_def)
  have "reachable h" unfolding reachable_def using a heap4096_init r by blast
  then show ?thesis using r by (simp add: after_def)
qed

lemma reachable_after4128:
  assumes "run (heap4128, []) cs \<noteq> None"
  shows "reachable (after heap4128 cs)"
proof -
  from assms obtain h live where r: "run (heap4128, []) cs = Some (h, live)" by auto
  have a: "arena_object 4096 (576 + 4128)" by (simp add: arena_object_def)
  have "reachable h" unfolding reachable_def using a heap4128_init r by blast
  then show ?thesis using r by (simp add: after_def)
qed

section \<open>Doubly linked segments\<close>

lemma hdp_simps [simp]: "hdp [] z = z" "hdp (y # ys) z = y"
  by (simp_all add: hdp_def)

lemma lastp_simps [simp]: "lastp p [] = p" "lastp p (x # xs) = lastp x xs"
  by (simp_all add: lastp_def)

lemma lastp_snoc [simp]: "lastp p (xs @ [x]) = x"
  by (simp add: lastp_def)

lemma dseg_head: "dseg nx pv p h xs z \<Longrightarrow> h = hdp xs z"
  by (cases xs) simp_all

lemma dseg_frame:
  "(\<And>a. a \<in> set xs \<Longrightarrow> nx' a = nx a \<and> pv' a = pv a) \<Longrightarrow>
   dseg nx' pv' p h xs z = dseg nx pv p h xs z"
  by (induction xs arbitrary: p h) simp_all

lemma dseg_append:
  "dseg nx pv p h (xs @ ys) z =
   (dseg nx pv p h xs (hdp ys z) \<and> dseg nx pv (lastp p xs) (hdp ys z) ys z)"
proof (induction xs arbitrary: p h)
  case Nil
  show ?case by (cases ys) auto
next
  case (Cons a xs)
  then show ?case by simp
qed

text \<open>Cutting the elements \<open>mid\<close> that follow \<open>a\<close> out of the list.\<close>

lemma dseg_cut:
  assumes d: "dseg nx pv p h (xs @ a # mid @ ys) z"
    and dist: "distinct (xs @ a # mid @ ys)"
    and nx_a: "nx' a = hdp ys z"
    and nx_o: "\<And>c. c \<noteq> a \<Longrightarrow> c \<notin> set mid \<Longrightarrow> nx' c = nx c"
    and pv_y: "ys \<noteq> [] \<Longrightarrow> pv' (hd ys) = a"
    and pv_o: "\<And>c. c \<notin> set mid \<Longrightarrow> (ys = [] \<or> c \<noteq> hd ys) \<Longrightarrow> pv' c = pv c"
  shows "dseg nx' pv' p h (xs @ a # ys) z"
proof -
  from d have 1: "dseg nx pv p h xs a" and 2: "pv a = lastp p xs"
    and 3: "dseg nx pv (lastp a mid) (hdp ys z) ys z"
    by (simp_all add: dseg_append)
  have f1: "dseg nx' pv' p h xs a = dseg nx pv p h xs a"
  proof (rule dseg_frame)
    fix c assume c: "c \<in> set xs"
    then have "c \<noteq> a" "c \<notin> set mid" "c \<notin> set ys" using dist by auto
    then show "nx' c = nx c \<and> pv' c = pv c" using nx_o pv_o
      by (cases ys) auto
  qed
  have pa: "pv' a = pv a"
  proof -
    have "a \<notin> set mid" "a \<notin> set ys" using dist by auto
    then show ?thesis using pv_o by (cases ys) auto
  qed
  have t: "dseg nx' pv' a (hdp ys z) ys z"
  proof (cases ys)
    case Nil
    then show ?thesis by simp
  next
    case (Cons y ys')
    from 3 Cons have y: "dseg nx pv y (nx y) ys' z" by simp
    have "dseg nx' pv' y (nx y) ys' z = dseg nx pv y (nx y) ys' z"
    proof (rule dseg_frame)
      fix c assume c: "c \<in> set ys'"
      then have "c \<noteq> a" "c \<notin> set mid" "c \<noteq> y" using dist Cons by auto
      then show "nx' c = nx c \<and> pv' c = pv c" using nx_o pv_o Cons by auto
    qed
    moreover have "nx' y = nx y" using nx_o[of y] dist Cons by auto
    moreover have "pv' y = a" using pv_y Cons by simp
    ultimately show ?thesis using y Cons by simp
  qed
  show ?thesis using 1 2 f1 pa t nx_a by (simp add: dseg_append)
qed

text \<open>Removing the first element.\<close>

lemma dseg_behead:
  assumes d: "dseg nx pv p h (a # ys) z"
    and dist: "distinct (a # ys)"
    and nx_o: "\<And>c. c \<in> set ys \<Longrightarrow> nx' c = nx c"
    and pv_y: "ys \<noteq> [] \<Longrightarrow> pv' (hd ys) = p"
    and pv_o: "\<And>c. c \<in> set ys \<Longrightarrow> c \<noteq> hd ys \<Longrightarrow> pv' c = pv c"
  shows "dseg nx' pv' p (nx a) ys z"
proof (cases ys)
  case Nil
  then show ?thesis using d by simp
next
  case (Cons y ys')
  from d Cons have y: "nx a = y" "dseg nx pv y (nx y) ys' z" by simp_all
  have "dseg nx' pv' y (nx y) ys' z = dseg nx pv y (nx y) ys' z"
  proof (rule dseg_frame)
    fix c assume c: "c \<in> set ys'"
    then have "c \<noteq> y" "c \<in> set ys" using dist Cons by auto
    then show "nx' c = nx c \<and> pv' c = pv c" using nx_o pv_o Cons by auto
  qed
  moreover have "nx' y = nx y" using nx_o Cons by simp
  moreover have "pv' y = p" using pv_y Cons by simp
  ultimately show ?thesis using y Cons by simp
qed

text \<open>Inserting \<open>b\<close> after \<open>a\<close>.\<close>

lemma dseg_insert:
  assumes d: "dseg nx pv p h (xs @ a # ys) z"
    and dist: "distinct (xs @ a # ys)" and nb: "b \<notin> set (xs @ a # ys)"
    and nx_a: "nx' a = b" and nx_b: "nx' b = hdp ys z"
    and nx_o: "\<And>c. c \<noteq> a \<Longrightarrow> c \<noteq> b \<Longrightarrow> nx' c = nx c"
    and pv_b: "pv' b = a"
    and pv_y: "ys \<noteq> [] \<Longrightarrow> pv' (hd ys) = b"
    and pv_o: "\<And>c. c \<noteq> b \<Longrightarrow> (ys = [] \<or> c \<noteq> hd ys) \<Longrightarrow> pv' c = pv c"
  shows "dseg nx' pv' p h (xs @ a # b # ys) z"
proof -
  from d have 1: "dseg nx pv p h xs a" and 2: "pv a = lastp p xs"
    and 3: "dseg nx pv a (nx a) ys z"
    by (simp_all add: dseg_append)
  have na: "nx a = hdp ys z" using 3 by (rule dseg_head)
  have f1: "dseg nx' pv' p h xs a = dseg nx pv p h xs a"
  proof (rule dseg_frame)
    fix c assume c: "c \<in> set xs"
    then have "c \<noteq> a" "c \<noteq> b" "c \<notin> set ys" using dist nb by auto
    then show "nx' c = nx c \<and> pv' c = pv c" using nx_o pv_o
      by (cases ys) auto
  qed
  have pa: "pv' a = pv a"
  proof -
    have "a \<noteq> b" "a \<notin> set ys" using dist nb by auto
    then show ?thesis using pv_o by (cases ys) auto
  qed
  have t: "dseg nx' pv' b (hdp ys z) ys z"
  proof (cases ys)
    case Nil
    then show ?thesis by simp
  next
    case (Cons y ys')
    from 3 Cons have y: "dseg nx pv y (nx y) ys' z" by simp
    have "dseg nx' pv' y (nx y) ys' z = dseg nx pv y (nx y) ys' z"
    proof (rule dseg_frame)
      fix c assume c: "c \<in> set ys'"
      then have "c \<noteq> a" "c \<noteq> b" "c \<noteq> y" using dist nb Cons by auto
      then show "nx' c = nx c \<and> pv' c = pv c" using nx_o pv_o Cons by auto
    qed
    moreover have "nx' y = nx y" using nx_o[of y] dist nb Cons by auto
    moreover have "pv' y = b" using pv_y Cons by simp
    ultimately show ?thesis using y Cons by simp
  qed
  show ?thesis using 1 2 f1 pa t nx_a nx_b pv_b by (simp add: dseg_append)
qed

text \<open>Pushing \<open>b\<close> in front.\<close>

lemma dseg_push:
  assumes d: "dseg nx pv p h ys z"
    and nb: "b \<notin> set ys"
    and nx_b: "nx' b = h"
    and nx_o: "\<And>c. c \<noteq> b \<Longrightarrow> nx' c = nx c"
    and pv_b: "pv' b = p"
    and pv_y: "ys \<noteq> [] \<Longrightarrow> pv' (hd ys) = b"
    and pv_o: "\<And>c. c \<noteq> b \<Longrightarrow> (ys = [] \<or> c \<noteq> hd ys) \<Longrightarrow> pv' c = pv c"
    and dist: "distinct ys"
  shows "dseg nx' pv' p b (b # ys) z"
proof (cases ys)
  case Nil
  then show ?thesis using d nx_b pv_b by simp
next
  case (Cons y ys')
  from d Cons have y: "h = y" "dseg nx pv y (nx y) ys' z" by simp_all
  have "dseg nx' pv' y (nx y) ys' z = dseg nx pv y (nx y) ys' z"
  proof (rule dseg_frame)
    fix c assume c: "c \<in> set ys'"
    then have "c \<noteq> b" "c \<noteq> y" using dist nb Cons by auto
    then show "nx' c = nx c \<and> pv' c = pv c" using nx_o pv_o Cons by auto
  qed
  moreover have "nx' y = nx y" using nx_o[of y] nb Cons by auto
  moreover have "pv' y = b" using pv_y Cons by simp
  ultimately show ?thesis using y Cons nx_b pv_b by simp
qed

section \<open>Header words\<close>

lemma minus2_not1: "(- 2 :: size_t) = NOT 1"
  by simp

lemma w1: "(x AND - 2) AND - 2 = (x AND - 2 :: size_t)"
  by (simp add: ac_simps)
lemma w2: "(x AND - 2) AND 1 = (0 :: size_t)"
  unfolding minus2_not1 by (auto simp add: bit_eq_iff bit_simps simp del: not_one_eq)
lemma w3: "(x OR 1) AND - 2 = (x AND - 2 :: size_t)"
  unfolding minus2_not1 by (auto simp add: bit_eq_iff bit_simps simp del: not_one_eq)
lemma w4: "(x OR 1) AND 1 = (1 :: size_t)"
  by (auto simp add: bit_eq_iff bit_simps)
lemma w5: "v AND 1 = 0 \<Longrightarrow> ((x AND 1) OR v) AND - 2 = (v :: size_t)"
  unfolding minus2_not1 by (auto simp add: bit_eq_iff bit_simps simp del: not_one_eq)
lemma w6: "v AND 1 = 0 \<Longrightarrow> ((x AND 1) OR v) AND 1 = (x AND 1 :: size_t)"
  by (auto simp add: bit_eq_iff bit_simps)
lemma w7: "even n \<Longrightarrow> (of_nat n :: size_t) AND 1 = 0"
  by (simp add: and_one_eq even_iff_mod_2_eq_zero[symmetric])

lemma view_fold [simp]:
  "next (m (a::ptr)) = nextf m a"
  "prev_used (m a) AND - 2 = prevf m a"
  "(prev_used (m a) AND 1 \<noteq> 0) = usedf m a"
  "(prev_used (m a) AND 1 = 0) = (\<not> usedf m a)"
  "next_free (m a) = nfree m a"
  "prev_free (m a) = pfree m a"
  by (simp_all add: nextf_def prevf_def usedf_def nfree_def pfree_def)

lemma view_store:
  "nextf (m(a := fr)) = (nextf m)(a := next fr)"
  "prevf (m(a := fr)) = (prevf m)(a := prev_used fr AND - 2)"
  "usedf (m(a := fr)) = (usedf m)(a := (prev_used fr AND 1 \<noteq> 0))"
  "nfree (m(a := fr)) = (nfree m)(a := next_free fr)"
  "pfree (m(a := fr)) = (pfree m)(a := prev_free fr)"
  by (auto simp add: nextf_def prevf_def usedf_def nfree_def pfree_def fun_eq_iff
      simp del: view_fold)

lemma accessors_view:
  "fragGetNext h f = nextf (frags h) f"
  "fragGetPrev h f = prevf (frags h) f"
  "fragIsUsed h f = usedf (frags h) f"
  "fragGetSize h f = (if nextf (frags h) f \<noteq> 0 then nextf (frags h) f - f else arena_end h - f)"
  by (simp_all add: fragGetNext_def fragGetPrev_def fragIsUsed_def fragGetSize_def)

lemma fragSetNext_view [simp]:
  "nextf (frags (fragSetNext h f v)) = (nextf (frags h))(f := v)"
  "prevf (frags (fragSetNext h f v)) = prevf (frags h)"
  "usedf (frags (fragSetNext h f v)) = usedf (frags h)"
  "nfree (frags (fragSetNext h f v)) = nfree (frags h)"
  "pfree (frags (fragSetNext h f v)) = pfree (frags h)"
  by (simp_all add: fragSetNext_def view_store)

lemma fragSetUsed_view [simp]:
  "nextf (frags (fragSetUsed h f b)) = nextf (frags h)"
  "prevf (frags (fragSetUsed h f b)) = prevf (frags h)"
  "usedf (frags (fragSetUsed h f b)) = (usedf (frags h))(f := b)"
  "nfree (frags (fragSetUsed h f b)) = nfree (frags h)"
  "pfree (frags (fragSetUsed h f b)) = pfree (frags h)"
  by (auto simp add: fragSetUsed_def nextf_def prevf_def usedf_def nfree_def pfree_def fun_eq_iff
      w1 w2 w3 w4 simp del: view_fold)

lemma fragSetPrev_view:
  "nextf (frags (fragSetPrev h f v)) = nextf (frags h)"
  "v AND 1 = 0 \<Longrightarrow> prevf (frags (fragSetPrev h f v)) = (prevf (frags h))(f := v)"
  "v AND 1 = 0 \<Longrightarrow> usedf (frags (fragSetPrev h f v)) = usedf (frags h)"
  "nfree (frags (fragSetPrev h f v)) = nfree (frags h)"
  "pfree (frags (fragSetPrev h f v)) = pfree (frags h)"
  by (auto simp add: fragSetPrev_def nextf_def prevf_def usedf_def nfree_def pfree_def fun_eq_iff
      w5 w6 simp del: view_fold)

lemma interlink_view:
  assumes "l AND 1 = 0"
  shows "nextf (frags (interlink h l r)) = (if l \<noteq> 0 then (nextf (frags h))(l := r) else nextf (frags h))"
    and "prevf (frags (interlink h l r)) = (if r \<noteq> 0 then (prevf (frags h))(r := l) else prevf (frags h))"
    and "usedf (frags (interlink h l r)) = usedf (frags h)"
    and "nfree (frags (interlink h l r)) = nfree (frags h)"
    and "pfree (frags (interlink h l r)) = pfree (frags h)"
  using assms by (simp_all add: interlink_def Let_def fragSetPrev_view)

lemma rebin_view:
  "nextf (frags (rebin h f s)) = nextf (frags h)"
  "prevf (frags (rebin h f s)) = prevf (frags h)"
  "usedf (frags (rebin h f s)) = usedf (frags h)"
  "nfree (frags (rebin h f s)) = (nfree (frags h))(f := bins h (log2Floor (s div FRAGMENT_SIZE_MIN)))"
  "pfree (frags (rebin h f s)) =
     (if bins h (log2Floor (s div FRAGMENT_SIZE_MIN)) \<noteq> 0
      then ((pfree (frags h))(f := 0))(bins h (log2Floor (s div FRAGMENT_SIZE_MIN)) := f)
      else (pfree (frags h))(f := 0))"
  "bins (rebin h f s) = (bins h)(log2Floor (s div FRAGMENT_SIZE_MIN) := f)"
  "nonempty_bin_mask (rebin h f s) = nonempty_bin_mask h OR pow2 (log2Floor (s div FRAGMENT_SIZE_MIN))"
  by (auto simp add: rebin_def Let_def nextf_def prevf_def usedf_def nfree_def pfree_def fun_eq_iff
      simp del: view_fold)

lemma unbin_view:
  "nextf (frags (unbin h f s)) = nextf (frags h)"
  "prevf (frags (unbin h f s)) = prevf (frags h)"
  "usedf (frags (unbin h f s)) = usedf (frags h)"
  "pfree (frags (unbin h f s)) =
     (if nfree (frags h) f \<noteq> 0
      then (pfree (frags h))(nfree (frags h) f := pfree (frags h) f)
      else pfree (frags h))"
  by (auto simp add: unbin_def Let_def nextf_def prevf_def usedf_def nfree_def pfree_def fun_eq_iff
      simp del: view_fold)

section \<open>Removing a fragment from its bin\<close>

lemma log2Floor_lt: "log2Floor x < 64"
  by (simp add: log2Floor_def)

lemma bin_of_lt: "bin_of s < 64"
  by (simp add: bin_of_def log2Floor_lt)

lemma bit_pow2: "i < 64 \<Longrightarrow> bit (pow2 i) j = (j = i)"
  by (auto simp add: pow2_def bit_simps)

lemma bit_mask_set: "i < 64 \<Longrightarrow> bit (m OR pow2 i) j = (bit m j \<or> j = i)"
  by (simp add: bit_simps bit_pow2)

lemma bit_mask_clear: "i < 64 \<Longrightarrow> bit (m AND NOT (pow2 i)) j = (bit m j \<and> j \<noteq> i)"
  by (auto simp add: bit_simps bit_pow2 dest: bit_imp_le_length)

lemma unbin_view2:
  "nfree (frags (unbin h f s)) =
     (if pfree (frags (unbin h f s)) f \<noteq> 0
      then (nfree (frags h))(pfree (frags (unbin h f s)) f := nfree (frags h) f)
      else nfree (frags h))"
  "bins (unbin h f s) =
     (if bins h (log2Floor (s div FRAGMENT_SIZE_MIN)) = f
      then (bins h)(log2Floor (s div FRAGMENT_SIZE_MIN) := nfree (frags (unbin h f s)) f)
      else bins h)"
  "nonempty_bin_mask (unbin h f s) =
     (if bins h (log2Floor (s div FRAGMENT_SIZE_MIN)) = f \<and> nfree (frags (unbin h f s)) f = 0
      then nonempty_bin_mask h AND NOT (pow2 (log2Floor (s div FRAGMENT_SIZE_MIN)))
      else nonempty_bin_mask h)"
  by (auto simp add: unbin_def Let_def nextf_def prevf_def usedf_def nfree_def pfree_def fun_eq_iff
      simp del: view_fold)

lemma dseg_nonnull_hd: "dseg nx pv p h xs 0 \<Longrightarrow> 0 \<notin> set xs \<Longrightarrow> (h = 0) = (xs = [])"
  by (cases xs) auto

lemma unbin_ok:
  assumes ok: "bins_ok h bl FS" and mem: "(a, s) \<in> FS"
    and nz: "\<And>b t. (b, t) \<in> FS \<Longrightarrow> b \<noteq> 0"
    and sv: "\<And>b t t'. (b, t) \<in> FS \<Longrightarrow> (b, t') \<in> FS \<Longrightarrow> t = t'"
  shows "bins_ok (unbin h a (of_nat s)) (bl(bin_of s := remove1 a (bl (bin_of s)))) (FS - {(a, s)})"
proof -
  define i where "i = bin_of s"
  define nf where "nf = nfree (frags h)"
  define pf where "pf = pfree (frags h)"
  define h' where "h' = unbin h a (of_nat s)"
  have i64: "i < 64" by (simp add: i_def bin_of_lt)
  have idx: "log2Floor (of_nat s div FRAGMENT_SIZE_MIN) = i" by (simp add: i_def bin_of_def)
  from ok i64 have di: "dseg nf pf 0 (bins h i) (bl i) 0" and dist: "distinct (bl i)"
    and seti: "set (bl i) = {b. \<exists>t. (b, t) \<in> FS \<and> bin_of t = i}"
    and biti: "bit (nonempty_bin_mask h) i = (bl i \<noteq> [])"
    by (simp_all add: bins_ok_def nf_def pf_def)
  have ai: "a \<in> set (bl i)" using seti mem i_def by auto
  then obtain xs ys where spl: "bl i = xs @ a # ys" by (auto dest: split_list)
  have nzi: "0 \<notin> set (bl i)" using seti nz by auto
  have a0: "a \<noteq> 0" using nz mem by auto
  from di spl have dx: "dseg nf pf 0 (bins h i) xs a" and pa: "pf a = lastp 0 xs"
    and dy: "dseg nf pf a (nf a) ys 0"
    by (simp_all add: dseg_append)
  have na: "nf a = hdp ys 0" using dy by (rule dseg_head)
  have na0: "(nf a = 0) = (ys = [])" using dy nzi spl by (intro dseg_nonnull_hd) auto
  have pa0: "(pf a = 0) = (xs = [])"
  proof (cases xs rule: rev_cases)
    case Nil then show ?thesis using pa by simp
  next
    case (snoc xs' x)
    then have "x \<in> set (bl i)" using spl by simp
    then have "x \<noteq> 0" using nzi by auto
    then show ?thesis using pa snoc by simp
  qed
  have hd_a: "(bins h i = a) = (xs = [])"
  proof (cases xs)
    case Nil then show ?thesis using dx by simp
  next
    case (Cons x xs')
    then have "bins h i = x" using dx by simp
    moreover have "x \<noteq> a" using dist spl Cons by auto
    ultimately show ?thesis using Cons by simp
  qed
  define pf1 where "pf1 = (if ys = [] then pf else pf(hd ys := pf a))"
  define nf1 where "nf1 = (if xs = [] then nf else nf(last xs := nf a))"
  have hdy: "ys \<noteq> [] \<Longrightarrow> nf a = hd ys" using na by (cases ys) simp_all
  have P: "pfree (frags h') = pf1"
    using na0 hdy by (auto simp add: h'_def unbin_view pf1_def nf_def[symmetric] pf_def[symmetric])
  have a_hdy: "ys \<noteq> [] \<Longrightarrow> hd ys \<noteq> a" using dist spl by (cases ys) auto
  have pf1a: "pf1 a = pf a" using a_hdy by (simp add: pf1_def)
  have lastx: "xs \<noteq> [] \<Longrightarrow> pf a = last xs" using pa by (simp add: lastp_def)
  have N: "nfree (frags h') = nf1"
    using pa0 lastx pf1a
    by (auto simp add: h'_def unbin_view2(1) nf1_def nf_def[symmetric] pf_def[symmetric]
        P[unfolded h'_def])
  have a_lastx: "xs \<noteq> [] \<Longrightarrow> last xs \<noteq> a" using dist spl by (cases xs rule: rev_cases) auto
  have nf1a: "nf1 a = nf a" using a_lastx by (simp add: nf1_def)
  have B: "bins h' = (if xs = [] then (bins h)(i := nf a) else bins h)"
    using hd_a nf1a by (simp add: h'_def unbin_view2(2) idx N[unfolded h'_def])
  have M: "nonempty_bin_mask h' =
      (if xs = [] \<and> ys = [] then nonempty_bin_mask h AND NOT (pow2 i) else nonempty_bin_mask h)"
    using hd_a nf1a na0 by (simp add: h'_def unbin_view2(3) idx N[unfolded h'_def])
  have new_i: "dseg nf1 pf1 0 (bins h' i) (xs @ ys) 0"
  proof (cases xs rule: rev_cases)
    case Nil
    have "dseg nf1 pf1 0 (nf a) ys 0"
    proof (rule dseg_behead[where nx = nf and pv = pf and a = a])
      show "dseg nf pf 0 (bins h i) (a # ys) 0" using di spl Nil by simp
      show "distinct (a # ys)" using dist spl Nil by simp
      show "\<And>c. c \<in> set ys \<Longrightarrow> nf1 c = nf c" using Nil by (simp add: nf1_def)
      show "ys \<noteq> [] \<Longrightarrow> pf1 (hd ys) = 0" using pa Nil by (simp add: pf1_def)
      show "\<And>c. c \<in> set ys \<Longrightarrow> c \<noteq> hd ys \<Longrightarrow> pf1 c = pf c" by (simp add: pf1_def)
    qed
    then show ?thesis using Nil B by simp
  next
    case (snoc xs' x)
    have "dseg nf1 pf1 0 (bins h i) (xs' @ x # ys) 0"
    proof (rule dseg_cut[where nx = nf and pv = pf and mid = "[a]"])
      show "dseg nf pf 0 (bins h i) (xs' @ x # [a] @ ys) 0" using di spl snoc by simp
      show "distinct (xs' @ x # [a] @ ys)" using dist spl snoc by simp
      show "nf1 x = hdp ys 0" using snoc na by (simp add: nf1_def)
      show "\<And>c. c \<noteq> x \<Longrightarrow> c \<notin> set [a] \<Longrightarrow> nf1 c = nf c" using snoc by (simp add: nf1_def)
      show "ys \<noteq> [] \<Longrightarrow> pf1 (hd ys) = x" using pa snoc by (simp add: pf1_def)
      show "\<And>c. c \<notin> set [a] \<Longrightarrow> ys = [] \<or> c \<noteq> hd ys \<Longrightarrow> pf1 c = pf c"
        by (auto simp add: pf1_def)
    qed
    then show ?thesis using snoc B by simp
  qed
  have other: "dseg nf1 pf1 0 (bins h' j) (bl j) 0" if j: "j < 64" "j \<noteq> i" for j
  proof -
    from ok j have dj: "dseg nf pf 0 (bins h j) (bl j) 0"
      and setj: "set (bl j) = {b. \<exists>t. (b, t) \<in> FS \<and> bin_of t = j}"
      by (simp_all add: bins_ok_def nf_def pf_def)
    have disj: "c \<notin> set (bl i)" if "c \<in> set (bl j)" for c
    proof
      assume "c \<in> set (bl i)"
      then obtain t where t: "(c, t) \<in> FS" "bin_of t = i" using seti by auto
      from that obtain t' where t': "(c, t') \<in> FS" "bin_of t' = j" using setj by auto
      from sv[OF t(1) t'(1)] t t' j show False by simp
    qed
    have "dseg nf1 pf1 0 (bins h j) (bl j) 0 = dseg nf pf 0 (bins h j) (bl j) 0"
    proof (rule dseg_frame)
      fix c assume c: "c \<in> set (bl j)"
      then have ci: "c \<notin> set (bl i)" by (rule disj)
      have "ys \<noteq> [] \<Longrightarrow> c \<noteq> hd ys" using ci spl by (cases ys) auto
      moreover have "xs \<noteq> [] \<Longrightarrow> c \<noteq> last xs" using ci spl by (cases xs rule: rev_cases) auto
      ultimately show "nf1 c = nf c \<and> pf1 c = pf c" by (simp add: nf1_def pf1_def)
    qed
    moreover have "bins h' j = bins h j" using B j by simp
    ultimately show ?thesis using dj by simp
  qed
  have rm: "remove1 a (bl i) = xs @ ys" using spl dist by (simp add: remove1_append)
  show ?thesis
    unfolding bins_ok_def h'_def[symmetric] i_def[symmetric] N P
  proof (intro allI impI conjI)
    fix j :: nat assume j: "j < 64"
    show "dseg nf1 pf1 0 (bins h' j) ((bl(i := remove1 a (bl i))) j) 0"
      using other[OF j] new_i rm by (cases "j = i") simp_all
    show "distinct ((bl(i := remove1 a (bl i))) j)"
      using ok j dist by (cases "j = i") (simp_all add: bins_ok_def)
    show "set ((bl(i := remove1 a (bl i))) j) = {b. \<exists>t. (b, t) \<in> FS - {(a, s)} \<and> bin_of t = j}"
    proof (cases "j = i")
      case True
      have "set (remove1 a (bl i)) = set (bl i) - {a}" using dist by simp
      also have "\<dots> = {b. \<exists>t. (b, t) \<in> FS - {(a, s)} \<and> bin_of t = i}"
        using seti sv mem by auto
      finally show ?thesis using True by simp
    next
      case False
      from ok j have "set (bl j) = {b. \<exists>t. (b, t) \<in> FS \<and> bin_of t = j}"
        by (simp add: bins_ok_def)
      also have "\<dots> = {b. \<exists>t. (b, t) \<in> FS - {(a, s)} \<and> bin_of t = j}"
        using False i_def by auto
      finally show ?thesis using False by simp
    qed
    show "bit (nonempty_bin_mask h') j = ((bl(i := remove1 a (bl i))) j \<noteq> [])"
    proof (cases "j = i")
      case True
      then show ?thesis using M biti spl rm i64 by (auto simp add: bit_mask_clear)
    next
      case False
      from ok j have "bit (nonempty_bin_mask h) j = (bl j \<noteq> [])" by (simp add: bins_ok_def)
      then show ?thesis using M False i64 by (auto simp add: bit_mask_clear)
    qed
  qed
qed

section \<open>Adding a fragment to its bin\<close>

lemma rebin_ok:
  assumes ok: "bins_ok h bl FS" and fresh: "\<And>t. (a, t) \<notin> FS" and a0: "a \<noteq> 0"
    and nz: "\<And>b t. (b, t) \<in> FS \<Longrightarrow> b \<noteq> 0"
    and sv: "\<And>b t t'. (b, t) \<in> FS \<Longrightarrow> (b, t') \<in> FS \<Longrightarrow> t = t'"
  shows "bins_ok (rebin h a (of_nat s)) (bl(bin_of s := a # bl (bin_of s))) (insert (a, s) FS)"
proof -
  define i where "i = bin_of s"
  define nf where "nf = nfree (frags h)"
  define pf where "pf = pfree (frags h)"
  define h' where "h' = rebin h a (of_nat s)"
  have i64: "i < 64" by (simp add: i_def bin_of_lt)
  have idx: "log2Floor (of_nat s div FRAGMENT_SIZE_MIN) = i" by (simp add: i_def bin_of_def)
  from ok i64 have di: "dseg nf pf 0 (bins h i) (bl i) 0" and dist: "distinct (bl i)"
    and seti: "set (bl i) = {b. \<exists>t. (b, t) \<in> FS \<and> bin_of t = i}"
    and biti: "bit (nonempty_bin_mask h) i = (bl i \<noteq> [])"
    by (simp_all add: bins_ok_def nf_def pf_def)
  have nzi: "0 \<notin> set (bl i)" using seti nz by auto
  have hd0: "(bins h i = 0) = (bl i = [])" using di nzi by (rule dseg_nonnull_hd)
  have hdi: "bl i \<noteq> [] \<Longrightarrow> bins h i = hd (bl i)" using di by (cases "bl i") simp_all
  have anot: "a \<notin> set (bl j)" if "j < 64" for j
    using ok that fresh by (auto simp add: bins_ok_def)
  define nf1 where "nf1 = nf(a := bins h i)"
  define pf1 where "pf1 = (if bl i = [] then pf(a := 0) else (pf(a := 0))(hd (bl i) := a))"
  have N: "nfree (frags h') = nf1"
    by (simp add: h'_def rebin_view idx nf1_def nf_def)
  have P: "pfree (frags h') = pf1"
    using hd0 hdi by (auto simp add: h'_def rebin_view idx pf1_def pf_def)
  have B: "bins h' = (bins h)(i := a)" by (simp add: h'_def rebin_view idx)
  have M: "nonempty_bin_mask h' = nonempty_bin_mask h OR pow2 i"
    by (simp add: h'_def rebin_view idx)
  have hd_a: "bl i \<noteq> [] \<Longrightarrow> hd (bl i) \<noteq> a" using anot[OF i64] by (cases "bl i") auto
  have new_i: "dseg nf1 pf1 0 a (a # bl i) 0"
  proof (rule dseg_push[where nx = nf and pv = pf and h = "bins h i"])
    show "dseg nf pf 0 (bins h i) (bl i) 0" by (rule di)
    show "a \<notin> set (bl i)" by (rule anot[OF i64])
    show "nf1 a = bins h i" by (simp add: nf1_def)
    show "\<And>c. c \<noteq> a \<Longrightarrow> nf1 c = nf c" by (simp add: nf1_def)
    show "pf1 a = 0" using hd_a by (cases "bl i = []") (auto simp add: pf1_def)
    show "bl i \<noteq> [] \<Longrightarrow> pf1 (hd (bl i)) = a" by (simp add: pf1_def)
    show "\<And>c. c \<noteq> a \<Longrightarrow> bl i = [] \<or> c \<noteq> hd (bl i) \<Longrightarrow> pf1 c = pf c"
      by (auto simp add: pf1_def)
    show "distinct (bl i)" by (rule dist)
  qed
  have other: "dseg nf1 pf1 0 (bins h' j) (bl j) 0" if j: "j < 64" "j \<noteq> i" for j
  proof -
    from ok j have dj: "dseg nf pf 0 (bins h j) (bl j) 0"
      and setj: "set (bl j) = {b. \<exists>t. (b, t) \<in> FS \<and> bin_of t = j}"
      by (simp_all add: bins_ok_def nf_def pf_def)
    have "dseg nf1 pf1 0 (bins h j) (bl j) 0 = dseg nf pf 0 (bins h j) (bl j) 0"
    proof (rule dseg_frame)
      fix c assume c: "c \<in> set (bl j)"
      then have ca: "c \<noteq> a" using anot[OF j(1)] by auto
      have "bl i \<noteq> [] \<Longrightarrow> c \<noteq> hd (bl i)"
      proof
        assume ne: "bl i \<noteq> []" and "c = hd (bl i)"
        then have "c \<in> set (bl i)" by simp
        then obtain t where t: "(c, t) \<in> FS" "bin_of t = i" using seti by auto
        from c obtain t' where t': "(c, t') \<in> FS" "bin_of t' = j" using setj by auto
        from sv[OF t(1) t'(1)] t t' j show False by simp
      qed
      then show "nf1 c = nf c \<and> pf1 c = pf c" using ca by (simp add: nf1_def pf1_def)
    qed
    moreover have "bins h' j = bins h j" using B j by simp
    ultimately show ?thesis using dj by simp
  qed
  show ?thesis
    unfolding bins_ok_def h'_def[symmetric] i_def[symmetric] N P
  proof (intro allI impI conjI)
    fix j :: nat assume j: "j < 64"
    show "dseg nf1 pf1 0 (bins h' j) ((bl(i := a # bl i)) j) 0"
      using other[OF j] new_i B by (cases "j = i") simp_all
    show "distinct ((bl(i := a # bl i)) j)"
      using ok j dist anot[OF i64] by (cases "j = i") (simp_all add: bins_ok_def)
    show "set ((bl(i := a # bl i)) j) = {b. \<exists>t. (b, t) \<in> insert (a, s) FS \<and> bin_of t = j}"
    proof (cases "j = i")
      case True
      then show ?thesis using seti i_def by auto
    next
      case False
      from ok j have "set (bl j) = {b. \<exists>t. (b, t) \<in> FS \<and> bin_of t = j}"
        by (simp add: bins_ok_def)
      then show ?thesis using False i_def by auto
    qed
    show "bit (nonempty_bin_mask h') j = ((bl(i := a # bl i)) j \<noteq> [])"
    proof (cases "j = i")
      case True
      then show ?thesis using M i64 by (simp add: bit_mask_set)
    next
      case False
      from ok j have "bit (nonempty_bin_mask h) j = (bl j \<noteq> [])" by (simp add: bins_ok_def)
      then show ?thesis using M False i64 by (simp add: bit_mask_set)
    qed
  qed
qed

text \<open>The bins depend on the store through the link fields only.\<close>

lemma bins_ok_cong:
  assumes "nfree (frags h') = nfree (frags h)" "pfree (frags h') = pfree (frags h)"
    "bins h' = bins h" "nonempty_bin_mask h' = nonempty_bin_mask h"
  shows "bins_ok h' bl FS = bins_ok h bl FS"
  using assms by (simp add: bins_ok_def)

section \<open>Layouts and addresses\<close>

lemma total_simps [simp]:
  "total [] = 0" "total (f # fs) = fst f + total fs" "total (xs @ ys) = total xs + total ys"
  by (simp_all add: total_def)

lemma spans_append [simp]: "spans a (xs @ ys) = spans a xs @ spans (a + total xs) ys"
  by (induction xs arbitrary: a) (simp_all add: add.assoc)

lemma addrs_simps [simp]:
  "addrs a [] = []" "addrs a (f # fs) = of_nat a # addrs (a + fst f) fs"
  "addrs a (xs @ ys) = addrs a xs @ addrs (a + total xs) ys"
  by (simp_all add: addrs_def)

lemma sizes_ok_simps [simp]:
  "sizes_ok []" "sizes_ok (f # fs) = (32 \<le> fst f \<and> 32 dvd fst f \<and> sizes_ok fs)"
  "sizes_ok (xs @ ys) = (sizes_ok xs \<and> sizes_ok ys)"
  by (auto simp add: sizes_ok_def)

lemma spans_bounds:
  "x \<in> set (spans a fs) \<Longrightarrow> a \<le> fst x \<and> fst x + fst (snd x) \<le> a + total fs"
proof (induction fs arbitrary: a)
  case Nil
  then show ?case by simp
next
  case (Cons f fs)
  then show ?case by fastforce
qed

lemma spans_lower:
  "sizes_ok fs \<Longrightarrow> x \<in> set (spans a fs) \<Longrightarrow> fst x < a + total fs"
proof (induction fs arbitrary: a)
  case Nil
  then show ?case by simp
next
  case (Cons f fs)
  then show ?case by fastforce
qed

lemma ptr_eq_iff: "a < 2 ^ 64 \<Longrightarrow> b < 2 ^ 64 \<Longrightarrow> ((of_nat a :: ptr) = of_nat b) = (a = b)"
  by (simp add: word_of_nat_eq_iff take_bit_nat_eq_self)

lemma ptr_zero_iff: "a < 2 ^ 64 \<Longrightarrow> ((of_nat a :: ptr) = 0) = (a = 0)"
  using ptr_eq_iff[of a 0] by simp

lemma addrs_set:
  "p \<in> set (addrs a fs) \<Longrightarrow> \<exists>x \<in> set (spans a fs). p = of_nat (fst x)"
  by (auto simp add: addrs_def)

lemma addrs_notin:
  assumes "sizes_ok fs" "a + total fs \<le> e" "e < 2 ^ 64" "c < a \<or> a + total fs \<le> c" "c < 2 ^ 64"
  shows "of_nat c \<notin> set (addrs a fs)"
proof
  assume "of_nat c \<in> set (addrs a fs)"
  then obtain x where x: "x \<in> set (spans a fs)" "(of_nat c :: ptr) = of_nat (fst x)"
    by (auto dest: addrs_set)
  from spans_bounds[OF x(1)] spans_lower[OF assms(1) x(1)] assms
  have "fst x < 2 ^ 64" "fst x \<noteq> c" by auto
  then show False using x(2) assms(5) by (simp add: ptr_eq_iff)
qed

lemma addrs_distinct:
  "sizes_ok fs \<Longrightarrow> a + total fs < 2 ^ 64 \<Longrightarrow> distinct (addrs a fs)"
proof (induction fs arbitrary: a)
  case Nil
  then show ?case by simp
next
  case (Cons f fs)
  have "of_nat a \<notin> set (addrs (a + fst f) fs)"
    by (rule addrs_notin[where e = "a + fst f + total fs"]) (use Cons.prems in auto)
  moreover have "distinct (addrs (a + fst f) fs)"
    using Cons by (simp add: add.assoc)
  ultimately show ?case by simp
qed

lemma addrs_nonnull:
  assumes "0 < a" "a + total fs < 2 ^ 64"
  shows "0 \<notin> set (addrs a fs)"
proof
  assume "0 \<in> set (addrs a fs)"
  then obtain x where x: "x \<in> set (spans a fs)" "(0 :: ptr) = of_nat (fst x)"
    by (auto dest: addrs_set)
  from spans_bounds[OF x(1)] assms have "fst x < 2 ^ 64" "fst x \<noteq> 0" by auto
  then show False using x(2) by (simp add: ptr_zero_iff)
qed

lemma hdp_addrs: "hdp (addrs a fs) z = (if fs = [] then z else of_nat a)"
  by (cases fs) simp_all

lemma dseg_rehead:
  assumes "dseg nx pv p h ys z" "distinct ys"
    and "\<And>c. c \<in> set ys \<Longrightarrow> nx' c = nx c"
    and "ys \<noteq> [] \<Longrightarrow> pv' (hd ys) = p'"
    and "\<And>c. c \<in> set ys \<Longrightarrow> c \<noteq> hd ys \<Longrightarrow> pv' c = pv c"
  shows "dseg nx' pv' p' h ys z"
proof (cases ys)
  case Nil
  then show ?thesis using assms(1) by simp
next
  case (Cons y ys')
  from assms(1) Cons have y: "h = y" "dseg nx pv y (nx y) ys' z" by simp_all
  have "dseg nx' pv' y (nx y) ys' z = dseg nx pv y (nx y) ys' z"
  proof (rule dseg_frame)
    fix c assume c: "c \<in> set ys'"
    then have "c \<noteq> y" "c \<in> set ys" using assms(2) Cons by auto
    then show "nx' c = nx c \<and> pv' c = pv c" using assms(3,5) Cons by auto
  qed
  moreover have "nx' y = nx y" using assms(3) Cons by simp
  moreover have "pv' y = p'" using assms(4) Cons by simp
  ultimately show ?thesis using y Cons by simp
qed

section \<open>Replacing a part of the chain\<close>

lemma lastp_addrs_nonempty: "fs \<noteq> [] \<Longrightarrow> lastp p (addrs a fs) = last (addrs a fs)"
  by (cases fs) (simp_all add: lastp_def)

lemma chain_replace:
  assumes ch: "chain_v nx pv us a0 (xs @ mid @ ys)"
    and sz: "sizes_ok (xs @ mid @ ys)" "sizes_ok new"
    and tot: "total new = total mid" and ne: "mid \<noteq> []" "new \<noteq> []"
    and bound: "a0 + total (xs @ mid @ ys) < 2 ^ 64"
    and inner: "dseg nx' pv' (lastp 0 (addrs a0 xs)) (of_nat (a0 + total xs))
                  (addrs (a0 + total xs) new) (hdp (addrs (a0 + total xs + total mid) ys) 0)"
    and us_new: "\<And>x. x \<in> set (spans (a0 + total xs) new) \<Longrightarrow> us' (of_nat (fst x)) = snd (snd x)"
    and fr_x: "\<And>c. c \<in> set (addrs a0 xs) \<Longrightarrow> nx' c = nx c \<and> pv' c = pv c \<and> us' c = us c"
    and fr_y: "\<And>c. c \<in> set (addrs (a0 + total xs + total mid) ys) \<Longrightarrow> nx' c = nx c \<and> us' c = us c"
    and fr_y2: "\<And>c. c \<in> set (addrs (a0 + total xs + total mid) ys) \<Longrightarrow>
                 c \<noteq> of_nat (a0 + total xs + total mid) \<Longrightarrow> pv' c = pv c"
    and pv_y: "ys \<noteq> [] \<Longrightarrow> pv' (of_nat (a0 + total xs + total mid)) = last (addrs (a0 + total xs) new)"
  shows "chain_v nx' pv' us' a0 (xs @ new @ ys)"
proof -
  define a where "a = a0 + total xs"
  define b where "b = a + total mid"
  from ch have d: "dseg nx pv 0 (of_nat a0) (addrs a0 xs @ addrs a mid @ addrs b ys) 0"
    and u: "\<And>x. x \<in> set (spans a0 xs) \<or> x \<in> set (spans a mid) \<or> x \<in> set (spans b ys) \<Longrightarrow>
              us (of_nat (fst x)) = snd (snd x)"
    by (auto simp add: chain_v_def a_def[symmetric] b_def[symmetric] simp del: of_nat_add)
  have hm: "hdp (addrs a mid @ addrs b ys) 0 = of_nat a" using ne(1) by (cases mid) simp_all
  have hn: "hdp (addrs a new @ addrs b ys) 0 = of_nat a" using ne(2) by (cases new) simp_all
  from d have dx: "dseg nx pv 0 (of_nat a0) (addrs a0 xs) (of_nat a)"
    and dy: "dseg nx pv (lastp (lastp 0 (addrs a0 xs)) (addrs a mid)) (hdp (addrs b ys) 0) (addrs b ys) 0"
    by (simp_all add: dseg_append hm del: of_nat_add)
  have dx': "dseg nx' pv' 0 (of_nat a0) (addrs a0 xs) (of_nat a)"
    using dx fr_x dseg_frame[of "addrs a0 xs" nx' nx pv' pv 0 "of_nat a0" "of_nat a"]
    by (simp del: of_nat_add)
  have disty: "distinct (addrs b ys)"
    using sz(1) bound by (intro addrs_distinct) (auto simp add: a_def b_def simp del: of_nat_add)
  have hdy: "ys \<noteq> [] \<Longrightarrow> hd (addrs b ys) = of_nat b" by (cases ys) simp_all
  have dy': "dseg nx' pv' (lastp (lastp 0 (addrs a0 xs)) (addrs a new)) (hdp (addrs b ys) 0) (addrs b ys) 0"
  proof (rule dseg_rehead[OF dy disty])
    show "\<And>c. c \<in> set (addrs b ys) \<Longrightarrow> nx' c = nx c"
      using fr_y[folded a_def, folded b_def] by simp
    show "addrs b ys \<noteq> [] \<Longrightarrow> pv' (hd (addrs b ys)) = lastp (lastp 0 (addrs a0 xs)) (addrs a new)"
      using pv_y[folded a_def, folded b_def] hdy ne(2)
      by (cases ys) (simp_all add: lastp_addrs_nonempty del: of_nat_add)
    show "\<And>c. c \<in> set (addrs b ys) \<Longrightarrow> c \<noteq> hd (addrs b ys) \<Longrightarrow> pv' c = pv c"
      using fr_y2[folded a_def, folded b_def] hdy by (cases ys) (simp_all del: of_nat_add)
  qed
  note inner' = inner[folded a_def, folded b_def]
  have "dseg nx' pv' 0 (of_nat a0) (addrs a0 xs @ addrs a new @ addrs b ys) 0"
    using dx' dy' inner' by (simp add: dseg_append hn del: of_nat_add)
  moreover have "us' (of_nat (fst x)) = snd (snd x)"
    if prem: "x \<in> set (spans a0 xs) \<or> x \<in> set (spans a new) \<or> x \<in> set (spans b ys)" for x
  proof -
    consider "x \<in> set (spans a0 xs)" | "x \<in> set (spans a new)" | "x \<in> set (spans b ys)"
      using prem by blast
    then show ?thesis
    proof cases
      case 1
      then have "of_nat (fst x) \<in> set (addrs a0 xs)" by (auto simp add: addrs_def)
      then show ?thesis using fr_x u 1 by simp
    next
      case 2
      then show ?thesis using us_new[folded a_def] by simp
    next
      case 3
      then have "of_nat (fst x) \<in> set (addrs b ys)" by (auto simp add: addrs_def)
      then have "us' (of_nat (fst x)) = us (of_nat (fst x))"
        using fr_y[folded a_def, folded b_def] by simp
      then show ?thesis using u 3 by simp
    qed
  qed
  ultimately show ?thesis
    using tot by (auto simp add: chain_v_def a_def[symmetric] b_def[symmetric] simp del: of_nat_add)
qed

section \<open>Used and free fragments of a layout\<close>

lemma naf_append:
  "naf (xs @ ys) = (naf xs \<and> naf ys \<and> (xs = [] \<or> ys = [] \<or> snd (last xs) \<or> snd (hd ys)))"
proof (induction xs)
  case Nil
  then show ?case by simp
next
  case (Cons f xs)
  then show ?case by (cases xs; cases ys) auto
qed

lemma used_total_simps [simp]:
  "used_total [] = 0" "used_total (f # fs) = (if snd f then fst f else 0) + used_total fs"
  "used_total (xs @ ys) = used_total xs + used_total ys"
  by (simp_all add: used_total_def)

lemma used_total_le: "used_total fs \<le> total fs"
  by (induction fs) auto

lemma free_set_simps [simp]:
  "free_set a [] = {}"
  "free_set a (f # fs) = (if snd f then {} else {(of_nat a, fst f)}) \<union> free_set (a + fst f) fs"
  "free_set a (xs @ ys) = free_set a xs \<union> free_set (a + total xs) ys"
  by (auto simp add: free_set_def)

lemma live_set_simps [simp]:
  "live_set a [] = {}"
  "live_set a (f # fs) = (if snd f then {of_nat a + O1HEAP_ALIGNMENT} else {}) \<union> live_set (a + fst f) fs"
  "live_set a (xs @ ys) = live_set a xs \<union> live_set (a + total xs) ys"
  by (auto simp add: live_set_def)

lemma free_set_addr:
  assumes "(p, s) \<in> free_set a fs"
  shows "\<exists>c. p = of_nat c \<and> a \<le> c \<and> c + s \<le> a + total fs \<and> (c, s, False) \<in> set (spans a fs)"
proof -
  from assms obtain x where x: "x \<in> set (spans a fs)" "\<not> snd (snd x)" "p = of_nat (fst x)"
    "s = fst (snd x)" by (auto simp add: free_set_def)
  have "(fst x, s, False) = x" using x(2,4) by (simp add: prod_eq_iff)
  then have "(fst x, s, False) \<in> set (spans a fs)" using x(1) by simp
  then show ?thesis using spans_bounds[OF x(1)] x by auto
qed

lemma free_set_addr_lt:
  assumes "sizes_ok fs" "(p, s) \<in> free_set a fs"
  shows "\<exists>c. p = of_nat c \<and> a \<le> c \<and> c < a + total fs"
proof -
  from assms(2) obtain x where x: "x \<in> set (spans a fs)" "p = of_nat (fst x)"
    by (auto simp add: free_set_def)
  then show ?thesis using spans_bounds[OF x(1)] spans_lower[OF assms(1) x(1)] by auto
qed

lemma free_set_notin:
  assumes "sizes_ok fs" "a + total fs < 2 ^ 64" "c < a \<or> a + total fs \<le> c" "c < 2 ^ 64"
  shows "(of_nat c, s) \<notin> free_set a fs"
proof
  assume "(of_nat c, s) \<in> free_set a fs"
  from free_set_addr_lt[OF assms(1) this] obtain d where
    d: "(of_nat c :: ptr) = of_nat d" "a \<le> d" "d < a + total fs" by auto
  then have "c = d" using assms(2,4) by (simp add: ptr_eq_iff)
  then show False using d assms(3) by simp
qed

lemma free_set_nonnull:
  assumes "sizes_ok fs" "0 < a" "a + total fs < 2 ^ 64" "(p, s) \<in> free_set a fs"
  shows "p \<noteq> 0"
proof -
  from free_set_addr_lt[OF assms(1,4)] obtain d where
    d: "p = of_nat d" "a \<le> d" "d < a + total fs" by auto
  then show ?thesis using assms(2,3) by (simp add: ptr_zero_iff)
qed

lemma spans_size_unique:
  "sizes_ok fs \<Longrightarrow> (c, s, u) \<in> set (spans a fs) \<Longrightarrow> (c, s', u') \<in> set (spans a fs) \<Longrightarrow>
   s = s' \<and> u = u'"
proof (induction fs arbitrary: a)
  case Nil
  then show ?case by simp
next
  case (Cons f fs)
  have pos: "0 < fst f" using Cons.prems(1) by simp
  show ?case
  proof (cases "c = a")
    case True
    have "(c, s, u) \<notin> set (spans (a + fst f) fs)" "(c, s', u') \<notin> set (spans (a + fst f) fs)"
      using True pos by (auto dest: spans_bounds)
    then show ?thesis using Cons.prems by auto
  next
    case False
    then show ?thesis using Cons by auto
  qed
qed

lemma free_set_single_valued:
  assumes "sizes_ok fs" "a + total fs < 2 ^ 64" "(p, s) \<in> free_set a fs" "(p, s') \<in> free_set a fs"
  shows "s = s'"
proof -
  from free_set_addr[OF assms(3)] obtain c where
    c: "p = of_nat c" "c + s \<le> a + total fs" "(c, s, False) \<in> set (spans a fs)" by auto
  from free_set_addr[OF assms(4)] obtain d where
    d: "p = of_nat d" "d + s' \<le> a + total fs" "(d, s', False) \<in> set (spans a fs)" by auto
  have "c = d" using c d assms(2) by (simp add: ptr_eq_iff)
  then show ?thesis using spans_size_unique[OF assms(1) c(3)] d(3) by auto
qed

lemma lastp_addrs_snoc: "lastp p (addrs a (xs @ [g])) = of_nat (a + total xs)"
  by (simp add: lastp_def)

lemma frag_info:
  assumes "chain_v nx pv us a0 (xs @ f # ys)"
  shows "nx (of_nat (a0 + total xs)) = (if ys = [] then 0 else of_nat (a0 + total xs + fst f))"
    and "pv (of_nat (a0 + total xs)) = lastp 0 (addrs a0 xs)"
    and "us (of_nat (a0 + total xs)) = snd f"
proof -
  from assms have d: "dseg nx pv 0 (of_nat a0) (addrs a0 xs @ of_nat (a0 + total xs) # addrs (a0 + total xs + fst f) ys) 0"
    and u: "us (of_nat (a0 + total xs)) = snd f"
    by (auto simp add: chain_v_def simp del: of_nat_add)
  from d have "dseg nx pv (of_nat (a0 + total xs)) (nx (of_nat (a0 + total xs))) (addrs (a0 + total xs + fst f) ys) 0"
    and p: "pv (of_nat (a0 + total xs)) = lastp 0 (addrs a0 xs)"
    by (simp_all add: dseg_append del: of_nat_add)
  then have "nx (of_nat (a0 + total xs)) = hdp (addrs (a0 + total xs + fst f) ys) 0"
    by (auto dest: dseg_head)
  then show "nx (of_nat (a0 + total xs)) = (if ys = [] then 0 else of_nat (a0 + total xs + fst f))"
    by (simp add: hdp_addrs del: of_nat_add)
  show "pv (of_nat (a0 + total xs)) = lastp 0 (addrs a0 xs)" by (rule p)
  show "us (of_nat (a0 + total xs)) = snd f" by (rule u)
qed

lemma spans_split:
  "x \<in> set (spans a fs) \<Longrightarrow> \<exists>xs ys. fs = xs @ (fst (snd x), snd (snd x)) # ys \<and> fst x = a + total xs"
proof (induction fs arbitrary: a)
  case Nil
  then show ?case by simp
next
  case (Cons f fs)
  show ?case
  proof (cases "x = (a, fst f, snd f)")
    case True
    then have "f # fs = [] @ (fst (snd x), snd (snd x)) # fs \<and> fst x = a + total []" by simp
    then show ?thesis by blast
  next
    case False
    then have "x \<in> set (spans (a + fst f) fs)" using Cons.prems by simp
    from Cons.IH[OF this] obtain xs ys where
      "fs = xs @ (fst (snd x), snd (snd x)) # ys" "fst x = a + fst f + total xs" by auto
    then have "f # fs = (f # xs) @ (fst (snd x), snd (snd x)) # ys \<and> fst x = a + total (f # xs)"
      by simp
    then show ?thesis by blast
  qed
qed

section \<open>Bin indices\<close>

lemma unat_of_nat64: "x < 2 ^ 64 \<Longrightarrow> unat (of_nat x :: size_t) = x"
  by (simp add: unat_of_nat)

lemma of_nat_le64:
  "x < 2 ^ 64 \<Longrightarrow> y < 2 ^ 64 \<Longrightarrow> ((of_nat x :: size_t) \<le> of_nat y) = (x \<le> y)"
  by (simp add: word_le_nat_alt unat_of_nat64)

lemma of_nat_less64:
  "x < 2 ^ 64 \<Longrightarrow> y < 2 ^ 64 \<Longrightarrow> ((of_nat x :: size_t) < of_nat y) = (x < y)"
  by (simp add: word_less_nat_alt unat_of_nat64)

lemma of_nat_sub64: "y \<le> x \<Longrightarrow> (of_nat x :: size_t) - of_nat y = of_nat (x - y)"
  by simp

lemma of_nat_unat64: "(of_nat (unat (w :: size_t)) :: size_t) = w"
  by simp

lemma clz_scan_bit:
  "x \<noteq> 0 \<Longrightarrow> unat x < 2 ^ n \<Longrightarrow> bit x (n - 1 - clz_scan n x)"
proof (induction n)
  case 0
  then show ?case by (simp add: unat_eq_zero)
next
  case (Suc n)
  show ?case
  proof (cases "bit x n")
    case True
    then show ?thesis by simp
  next
    case False
    have lt: "unat x < 2 ^ n" using nbit_half Suc.prems False by blast
    from Suc.IH[OF Suc.prems(1) lt] False show ?thesis by simp
  qed
qed

lemma log2Floor_bit: "x \<noteq> 0 \<Longrightarrow> bit x (log2Floor x)"
proof -
  assume x: "x \<noteq> 0"
  have lt: "unat x < 2 ^ 64" using unsigned_less[of x] by simp
  from clz_scan_bit[OF x lt] show ?thesis by (simp add: log2Floor_def O1HEAP_CLZ_def)
qed

lemma bin_of_bounds:
  assumes "32 \<le> s" "s < 2 ^ 64"
  shows "32 * 2 ^ bin_of s \<le> s" "s < 32 * 2 ^ Suc (bin_of s)"
proof -
  have u: "unat (of_nat s div FRAGMENT_SIZE_MIN :: size_t) = s div 32"
    using assms(2) by (simp add: consts_values unat_div unat_of_nat64)
  have nz: "(of_nat s div FRAGMENT_SIZE_MIN :: size_t) \<noteq> 0"
  proof
    assume "(of_nat s div FRAGMENT_SIZE_MIN :: size_t) = 0"
    then have "unat (of_nat s div FRAGMENT_SIZE_MIN :: size_t) = 0" by simp
    then show False using u assms(1) by (simp add: div_eq_0_iff)
  qed
  from log2Floor_bounds[OF nz] have b: "2 ^ bin_of s \<le> s div 32" "s div 32 < 2 ^ Suc (bin_of s)"
    by (simp_all add: bin_of_def u)
  have "32 * (s div 32) \<le> s" by simp
  with b(1) show "32 * 2 ^ bin_of s \<le> s"
    by (meson le_trans mult_le_mono2)
  have "s < 32 * (s div 32) + 32" using mod_less_divisor[of 32 s] mult_div_mod_eq[of 32 s]
    by linarith
  moreover have "32 * (s div 32) + 32 \<le> 32 * 2 ^ Suc (bin_of s)" using b(2) by simp
  ultimately show "s < 32 * 2 ^ Suc (bin_of s)" by linarith
qed

lemma bin_of_pow2: "5 \<le> k \<Longrightarrow> k < 64 \<Longrightarrow> bin_of (2 ^ k) = k - 5"
proof -
  assume k: "5 \<le> k" "k < 64"
  have lt: "(2::nat) ^ k < 2 ^ 64" by (rule power_strict_increasing) (use k in simp_all)
  have u: "unat (of_nat (2 ^ k) div FRAGMENT_SIZE_MIN :: size_t) = 2 ^ k div 32"
    using lt by (simp only: consts_values unat_div unat_of_nat64) simp
  have "(2::nat) ^ k = 2 ^ (k - 5 + 5)" using k by simp
  then have "(2::nat) ^ k = 2 ^ (k - 5) * 2 ^ 5" by (simp only: power_add)
  then have d: "(2::nat) ^ k div 32 = 2 ^ (k - 5)" by simp
  show ?thesis
    unfolding bin_of_def
    by (rule log2Floor_unique) (simp_all only: u d, simp_all)
qed

lemma heap_inv_bounds:
  assumes "heap_inv h fs bl"
  shows "0 < arena_start h" "arena_start h + total fs < 2 ^ 64" "16 dvd arena_start h"
    "arena_end h = of_nat (arena_start h + total fs)" "sizes_ok fs"
    "total fs = unat (capacity (diagnostics h))"
proof -
  from assms have c: "unat (capacity (diagnostics h)) < unat (arena_end h)"
    and t: "total fs = unat (capacity (diagnostics h))" and a: "16 dvd arena_start h"
    and s: "sizes_ok fs"
    by (simp_all add: heap_inv_def)
  have e: "unat (arena_end h) < 2 ^ 64" using unsigned_less[of "arena_end h"] by simp
  show "0 < arena_start h" using c by (simp add: arena_start_def)
  have eq: "arena_start h + total fs = unat (arena_end h)" using c t by (simp add: arena_start_def)
  show "arena_start h + total fs < 2 ^ 64" using eq e by simp
  show "arena_end h = of_nat (arena_start h + total fs)" by (simp only: eq of_nat_unat64)
  show "16 dvd arena_start h" by (rule a)
  show "sizes_ok fs" by (rule s)
  show "total fs = unat (capacity (diagnostics h))" by (rule t)
qed

lemma sizes_ok_total_dvd: "sizes_ok fs \<Longrightarrow> 32 dvd total fs"
  by (induction fs) auto

lemma heap_inv_frag:
  assumes inv: "heap_inv h fs bl" and fs: "fs = xs @ f # ys"
  defines "a \<equiv> arena_start h + total xs"
  shows "fragGetNext h (of_nat a) = (if ys = [] then 0 else of_nat (a + fst f))"
    and "fragGetPrev h (of_nat a) = lastp 0 (addrs (arena_start h) xs)"
    and "fragIsUsed h (of_nat a) = snd f"
    and "fragGetSize h (of_nat a) = of_nat (fst f)"
    and "0 < a" and "a + fst f + total ys = arena_start h + total fs" and "16 dvd a"
    and "(of_nat a :: ptr) \<noteq> 0" and "(of_nat a :: ptr) AND 1 = 0"
proof -
  note b = heap_inv_bounds[OF inv]
  from inv have ch: "chain_v (nextf (frags h)) (prevf (frags h)) (usedf (frags h)) (arena_start h) (xs @ f # ys)"
    by (simp add: heap_inv_def fs)
  note fi = frag_info[OF ch, folded a_def]
  show n: "fragGetNext h (of_nat a) = (if ys = [] then 0 else of_nat (a + fst f))"
    using fi(1) by (simp add: accessors_view del: of_nat_add)
  show "fragGetPrev h (of_nat a) = lastp 0 (addrs (arena_start h) xs)"
    using fi(2) by (simp add: accessors_view)
  show "fragIsUsed h (of_nat a) = snd f" using fi(3) by (simp add: accessors_view)
  show a0: "0 < a" using b(1) by (simp add: a_def)
  show tot: "a + fst f + total ys = arena_start h + total fs" by (simp add: a_def fs)
  have "32 dvd total xs" using b(5) by (simp add: fs sizes_ok_total_dvd)
  then have "16 dvd total xs" by (rule dvd_trans[rotated]) simp
  then show a16: "16 dvd a" using b(3) by (simp add: a_def)
  have alt: "a < 2 ^ 64" "a + fst f < 2 ^ 64" using tot b(2) by simp_all
  show "(of_nat a :: ptr) \<noteq> 0" using a0 alt by (simp add: ptr_zero_iff)
  have "even a" using a16 by (rule dvd_trans[rotated]) simp
  then show "(of_nat a :: ptr) AND 1 = 0" by (rule w7)
  have pos: "0 < fst f" using b(5) by (simp add: fs)
  show "fragGetSize h (of_nat a) = of_nat (fst f)"
  proof (cases "ys = []")
    case True
    then have "arena_end h = of_nat (a + fst f)" using b(4) tot by simp
    then show ?thesis using fi(1) True by (simp add: accessors_view)
  next
    case False
    have "(of_nat (a + fst f) :: ptr) \<noteq> 0" using a0 alt by (simp only: ptr_zero_iff)
    then show ?thesis using fi(1) False by (simp add: accessors_view)
  qed
qed

section \<open>Replacing a part of the heap\<close>

lemma heap_replace:
  fixes h h' :: heap
  defines "a0 \<equiv> arena_start h"
  assumes inv: "heap_inv h fs bl" and fs: "fs = xs @ mid @ ys" and ne: "mid \<noteq> []" "new \<noteq> []"
    and szn: "sizes_ok new" and tot: "total new = total mid"
    and cap: "capacity (diagnostics h') = capacity (diagnostics h)" and ae: "arena_end h' = arena_end h"
    and inner: "dseg (nextf (frags h')) (prevf (frags h')) (lastp 0 (addrs a0 xs))
                  (of_nat (a0 + total xs)) (addrs (a0 + total xs) new)
                  (hdp (addrs (a0 + total xs + total mid) ys) 0)"
    and us_new: "\<And>x. x \<in> set (spans (a0 + total xs) new) \<Longrightarrow>
                   usedf (frags h') (of_nat (fst x)) = snd (snd x)"
    and frame: "\<And>c. c < a0 + total xs \<or> a0 + total xs + total mid \<le> c \<Longrightarrow> c < 2 ^ 64 \<Longrightarrow>
                   nextf (frags h') (of_nat c) = nextf (frags h) (of_nat c) \<and>
                   usedf (frags h') (of_nat c) = usedf (frags h) (of_nat c)"
    and frame_pv: "\<And>c. c < a0 + total xs \<or> a0 + total xs + total mid < c \<Longrightarrow> c < 2 ^ 64 \<Longrightarrow>
                   prevf (frags h') (of_nat c) = prevf (frags h) (of_nat c)"
    and pv_y: "ys \<noteq> [] \<Longrightarrow> prevf (frags h') (of_nat (a0 + total xs + total mid)) =
                   last (addrs (a0 + total xs) new)"
    and bins: "bins_ok h' bl' (free_set a0 (xs @ new @ ys))"
    and nf: "naf (xs @ new @ ys)"
    and al: "unat (allocated (diagnostics h')) = used_total (xs @ new @ ys)"
    and pk: "unat (allocated (diagnostics h')) \<le> unat (peak_allocated (diagnostics h'))"
      "unat (peak_allocated (diagnostics h')) \<le> unat (capacity (diagnostics h))"
      "32 dvd unat (peak_allocated (diagnostics h'))"
  shows "heap_inv h' (xs @ new @ ys) bl'"
proof -
  note b = heap_inv_bounds[OF inv, folded a0_def]
  have as: "arena_start h' = a0" by (simp add: arena_start_def a0_def cap ae)
  from inv have ch: "chain_v (nextf (frags h)) (prevf (frags h)) (usedf (frags h)) a0 (xs @ mid @ ys)"
    by (simp add: heap_inv_def fs a0_def)
  have szf: "sizes_ok (xs @ mid @ ys)" using b(5) fs by simp
  have bnd: "a0 + total (xs @ mid @ ys) < 2 ^ 64" using b(2) fs by simp
  have in_x: "\<exists>d. c = of_nat d \<and> d < a0 + total xs" if "c \<in> set (addrs a0 xs)" for c
  proof -
    from addrs_set[OF that] obtain x where x: "x \<in> set (spans a0 xs)" "c = of_nat (fst x)" by auto
    have "sizes_ok xs" using szf by simp
    from spans_lower[OF this x(1)] x(2) show ?thesis by auto
  qed
  have in_y: "\<exists>d. c = of_nat d \<and> a0 + total xs + total mid \<le> d \<and> d < 2 ^ 64
                \<and> (c \<noteq> of_nat (a0 + total xs + total mid) \<longrightarrow> a0 + total xs + total mid < d)"
    if "c \<in> set (addrs (a0 + total xs + total mid) ys)" for c
  proof -
    from addrs_set[OF that] obtain x where x: "x \<in> set (spans (a0 + total xs + total mid) ys)"
      "c = of_nat (fst x)" by auto
    have "sizes_ok ys" using szf by simp
    from spans_lower[OF this x(1)] spans_bounds[OF x(1)] bnd
    have "a0 + total xs + total mid \<le> fst x" "fst x < 2 ^ 64" by simp_all
    moreover have "a0 + total xs + total mid < fst x" if "c \<noteq> of_nat (a0 + total xs + total mid)"
      using that x(2) \<open>a0 + total xs + total mid \<le> fst x\<close> by (cases "fst x = a0 + total xs + total mid") auto
    ultimately show ?thesis using x(2) by blast
  qed
  have ch': "chain_v (nextf (frags h')) (prevf (frags h')) (usedf (frags h')) a0 (xs @ new @ ys)"
  proof (rule chain_replace[OF ch szf szn tot ne bnd inner])
    show "\<And>x. x \<in> set (spans (a0 + total xs) new) \<Longrightarrow> usedf (frags h') (of_nat (fst x)) = snd (snd x)"
      by (rule us_new)
    show "nextf (frags h') c = nextf (frags h) c \<and> prevf (frags h') c = prevf (frags h) c \<and>
          usedf (frags h') c = usedf (frags h) c" if "c \<in> set (addrs a0 xs)" for c
    proof -
      from in_x[OF that] obtain d where d: "c = of_nat d" "d < a0 + total xs" by auto
      have "d < 2 ^ 64" using d(2) bnd by simp
      then show ?thesis using frame[of d] frame_pv[of d] d by simp
    qed
    show "nextf (frags h') c = nextf (frags h) c \<and> usedf (frags h') c = usedf (frags h) c"
      if "c \<in> set (addrs (a0 + total xs + total mid) ys)" for c
      using in_y[OF that] frame by auto
    show "prevf (frags h') c = prevf (frags h) c"
      if "c \<in> set (addrs (a0 + total xs + total mid) ys)" "c \<noteq> of_nat (a0 + total xs + total mid)" for c
      using in_y[OF that(1)] that(2) frame_pv by auto
    show "ys \<noteq> [] \<Longrightarrow> prevf (frags h') (of_nat (a0 + total xs + total mid)) = last (addrs (a0 + total xs) new)"
      by (rule pv_y)
  qed
  have t: "total (xs @ new @ ys) = unat (capacity (diagnostics h))"
    using b(6) fs tot by simp
  from inv have c: "32 \<le> unat (capacity (diagnostics h))" "unat (capacity (diagnostics h)) \<le> 2 ^ 63"
    "32 dvd unat (capacity (diagnostics h))" "unat (capacity (diagnostics h)) < unat (arena_end h)"
    by (simp_all add: heap_inv_def)
  show ?thesis
    unfolding heap_inv_def as cap ae
    using c b(3) szf szn t ch' nf bins al pk by simp
qed

section \<open>Bins under header updates\<close>

declare of_nat_add [simp del]

lemma diag_upd_views [simp]:
  "frags (h\<lparr>diagnostics := d\<rparr>) = frags h"
  "bins (h\<lparr>diagnostics := d\<rparr>) = bins h"
  "nonempty_bin_mask (h\<lparr>diagnostics := d\<rparr>) = nonempty_bin_mask h"
  "arena_end (h\<lparr>diagnostics := d\<rparr>) = arena_end h"
  by simp_all

lemma bins_ok_diag [simp]: "bins_ok (h\<lparr>diagnostics := d\<rparr>) bl FS = bins_ok h bl FS"
  by (simp add: bins_ok_def)

lemma bins_ok_fragSetUsed [simp]: "bins_ok (fragSetUsed h f v) bl FS = bins_ok h bl FS"
  by (simp add: bins_ok_def)

lemma bins_ok_interlink: "l AND 1 = 0 \<Longrightarrow> bins_ok (interlink h l r) bl FS = bins_ok h bl FS"
  by (simp add: bins_ok_def interlink_view)

lemma bins_ok_memmove [simp]: "bins_ok (memmove h d s n) bl FS = bins_ok h bl FS"
  by (simp add: bins_ok_def)

lemma free_set_props:
  assumes "heap_inv h fs bl"
  shows "\<And>b t. (b, t) \<in> free_set (arena_start h) fs \<Longrightarrow> b \<noteq> 0"
    and "\<And>b t t'. (b, t) \<in> free_set (arena_start h) fs \<Longrightarrow> (b, t') \<in> free_set (arena_start h) fs \<Longrightarrow> t = t'"
proof -
  note b = heap_inv_bounds[OF assms]
  show "\<And>b t. (b, t) \<in> free_set (arena_start h) fs \<Longrightarrow> b \<noteq> 0"
    using free_set_nonnull[OF b(5) b(1) b(2)] by blast
  show "\<And>b t t'. (b, t) \<in> free_set (arena_start h) fs \<Longrightarrow> (b, t') \<in> free_set (arena_start h) fs \<Longrightarrow> t = t'"
    using free_set_single_valued[OF b(5) b(2)] by blast
qed

lemma bin_head:
  assumes inv: "heap_inv h fs bl" and i: "i < 64" and bt: "bit (nonempty_bin_mask h) i"
  shows "\<exists>xs s ys. fs = xs @ (s, False) # ys \<and> bins h i = of_nat (arena_start h + total xs) \<and>
           bin_of s = i"
proof -
  from inv have ok: "bins_ok h bl (free_set (arena_start h) fs)" by (simp add: heap_inv_def)
  from ok i bt have ne: "bl i \<noteq> []" and d: "dseg (nfree (frags h)) (pfree (frags h)) 0 (bins h i) (bl i) 0"
    and st: "set (bl i) = {a. \<exists>s. (a, s) \<in> free_set (arena_start h) fs \<and> bin_of s = i}"
    by (simp_all add: bins_ok_def)
  from d ne have "bins h i = hd (bl i)" by (cases "bl i") simp_all
  then have "bins h i \<in> set (bl i)" using ne by simp
  then obtain s where s: "(bins h i, s) \<in> free_set (arena_start h) fs" "bin_of s = i"
    using st by auto
  from free_set_addr[OF s(1)] obtain c where
    c: "bins h i = of_nat c" "(c, s, False) \<in> set (spans (arena_start h) fs)" by auto
  from spans_split[OF c(2)] obtain xs ys where "fs = xs @ (s, False) # ys" "c = arena_start h + total xs"
    by auto
  then show ?thesis using c(1) s(2) by blast
qed

section \<open>Allocation from a bin\<close>

lemma live_set_addr:
  assumes "p \<in> live_set a fs"
  shows "\<exists>c s. p = of_nat c + O1HEAP_ALIGNMENT \<and> a \<le> c \<and> c + s \<le> a + total fs \<and>
           (c, s, True) \<in> set (spans a fs)"
proof -
  from assms obtain x where x: "x \<in> set (spans a fs)" "snd (snd x)" "p = of_nat (fst x) + O1HEAP_ALIGNMENT"
    by (auto simp add: live_set_def)
  have "(fst x, fst (snd x), True) = x" using x(2) by (simp add: prod_eq_iff)
  then have "(fst x, fst (snd x), True) \<in> set (spans a fs)" using x(1) by simp
  then show ?thesis using spans_bounds[OF x(1)] x by blast
qed

lemma ptr_plus_inj:
  "a < 2 ^ 64 \<Longrightarrow> b < 2 ^ 64 \<Longrightarrow> ((of_nat a :: ptr) + k = of_nat b + k) = (a = b)"
  by (simp add: ptr_eq_iff)

lemma live_set_notin:
  assumes "sizes_ok fs" "a + total fs < 2 ^ 64" "c < a \<or> a + total fs \<le> c" "c < 2 ^ 64"
  shows "of_nat c + O1HEAP_ALIGNMENT \<notin> live_set a fs"
proof
  assume "of_nat c + O1HEAP_ALIGNMENT \<in> live_set a fs"
  from live_set_addr[OF this] obtain d s where
    d: "(of_nat c :: ptr) + O1HEAP_ALIGNMENT = of_nat d + O1HEAP_ALIGNMENT" "a \<le> d"
      "(d, s, True) \<in> set (spans a fs)" by auto
  from spans_lower[OF assms(1) d(3)] have lt: "d < a + total fs" by simp
  then have d64: "d < 2 ^ 64" using assms(2) by simp
  have "c = d" using d(1) ptr_plus_inj[OF assms(4) d64] by simp
  then show False using d(2) lt assms(3) by simp
qed

lemma naf_cons: "naf (f # ys) = (naf ys \<and> (ys = [] \<or> snd f \<or> snd (hd ys)))"
  by (cases ys) auto

lemma naf_single [simp]: "naf [f]"
  by simp

lemma sizes_ok_used_dvd: "sizes_ok fs \<Longrightarrow> 32 dvd used_total fs"
  by (induction fs) auto

lemma allocate_from_bin_snd:
  "snd (allocate_from_bin h asz sm) = bins h (log2Floor sm) + O1HEAP_ALIGNMENT"
  by (simp add: allocate_from_bin_def Let_def)

lemma allocate_from_bin_split:
  assumes "FRAGMENT_SIZE_MIN \<le> fragGetSize h (bins h (log2Floor sm)) - asz"
  shows "fst (allocate_from_bin h asz sm) =
    (let frag = bins h (log2Floor sm); fsz = fragGetSize h frag; h1 = unbin h frag fsz;
         nfp = frag + asz; g1 = fragSetUsed h1 nfp False;
         g2 = interlink g1 nfp (fragGetNext g1 frag); g3 = interlink g2 frag nfp;
         g4 = rebin g3 nfp (fsz - asz);
         al = allocated (diagnostics h) + asz
     in fragSetUsed (g4\<lparr>diagnostics := (diagnostics h)\<lparr>allocated := al,
          peak_allocated := larger (peak_allocated (diagnostics h)) al\<rparr>\<rparr>) frag True)"
  using assms by (simp add: allocate_from_bin_def Let_def)

lemma allocate_from_bin_whole:
  assumes "\<not> FRAGMENT_SIZE_MIN \<le> fragGetSize h (bins h (log2Floor sm)) - asz"
  shows "fst (allocate_from_bin h asz sm) =
    (let frag = bins h (log2Floor sm); fsz = fragGetSize h frag; h1 = unbin h frag fsz;
         al = allocated (diagnostics h) + asz
     in fragSetUsed (h1\<lparr>diagnostics := (diagnostics h)\<lparr>allocated := al,
          peak_allocated := larger (peak_allocated (diagnostics h)) al\<rparr>\<rparr>) frag True)"
  using assms by (simp add: allocate_from_bin_def Let_def)

lemma allocate_from_bin_inv:
  assumes inv: "heap_inv h fs bl"
    and k: "5 \<le> k" "k < 64"
    and i: "k - 5 \<le> log2Floor sm" and bt: "bit (nonempty_bin_mask h) (log2Floor sm)"
    and r: "allocate_from_bin h (of_nat (2 ^ k)) sm = (h', out)"
  shows "\<exists>fs' bl'. heap_inv h' fs' bl' \<and> out \<noteq> 0 \<and> out \<notin> live_set (arena_start h) fs \<and>
           live_set (arena_start h) fs' = insert out (live_set (arena_start h) fs) \<and>
           peak_request_size (diagnostics h') = peak_request_size (diagnostics h) \<and>
           oom_count (diagnostics h') = oom_count (diagnostics h) \<and>
           capacity (diagnostics h') = capacity (diagnostics h) \<and>
           arena_end h' = arena_end h \<and> payload h' = payload h \<and>
           unat (peak_allocated (diagnostics h)) \<le> unat (peak_allocated (diagnostics h')) \<and>
           2 ^ k \<le> unat (peak_allocated (diagnostics h'))"
proof -
  define a0 where "a0 = arena_start h"
  define bi where "bi = log2Floor sm"
  define need :: nat where "need = 2 ^ k"
  note b = heap_inv_bounds[OF inv, folded a0_def]
  have bi64: "bi < 64" by (simp add: bi_def log2Floor_lt)
  from bin_head[OF inv bi64 bt[folded bi_def]] obtain xs s ys where
    fs: "fs = xs @ (s, False) # ys" and hd: "bins h bi = of_nat (a0 + total xs)" and bs: "bin_of s = bi"
    by (auto simp add: a0_def)
  define c where "c = a0 + total xs"
  note fi = heap_inv_frag[OF inv fs, folded a0_def, folded c_def, simplified]
  have s32: "32 \<le> s" "32 dvd s" using b(5) fs by simp_all
  have cs: "c + s \<le> a0 + total fs" using fi(6) by simp
  have s64: "s < 2 ^ 64" "c < 2 ^ 64" "c + s < 2 ^ 64" using cs b(2) by simp_all
  have need_pow: "need = 32 * 2 ^ (k - 5)"
  proof -
    have "(2::nat) ^ k = 2 ^ (5 + (k - 5))" using k by simp
    then show ?thesis by (simp only: need_def power_add) simp
  qed
  have "(2::nat) ^ (k - 5) \<le> 2 ^ bi" using i by (intro power_increasing) (simp_all add: bi_def)
  then have "need \<le> 32 * 2 ^ bi" by (simp add: need_pow)
  also have "\<dots> \<le> s" using bin_of_bounds(1)[OF s32(1) s64(1)] bs by simp
  finally have ns: "need \<le> s" .
  have n32: "32 \<le> need" "32 dvd need" by (simp_all add: need_pow)
  have dv: "32 dvd (s - need)" using s32(2) n32(2) by (rule dvd_diff_nat)
  define frag :: ptr where "frag = of_nat c"
  define Z :: ptr where "Z = (if ys = [] then 0 else of_nat (c + s))"
  define h1 where "h1 = unbin h frag (of_nat s)"
  define FS where "FS = free_set a0 fs"
  from inv have ok: "bins_ok h bl FS" by (simp add: heap_inv_def FS_def a0_def)
  note fp = free_set_props[OF inv, folded a0_def, folded FS_def]
  have memFS: "(frag, s) \<in> FS" by (simp add: FS_def fs frag_def c_def)
  have ok1: "bins_ok h1 (bl(bin_of s := remove1 frag (bl (bin_of s)))) (FS - {(frag, s)})"
    unfolding h1_def by (rule unbin_ok[OF ok memFS fp])
  have szx: "sizes_ok xs" "sizes_ok ys" using b(5) fs by simp_all
  have FSrest: "FS - {(frag, s)} = free_set a0 xs \<union> free_set (c + s) ys"
  proof -
    have 1: "(frag, s) \<notin> free_set a0 xs"
      unfolding frag_def by (rule free_set_notin[OF szx(1)]) (use s64 in \<open>simp_all add: c_def\<close>)
    have 2: "(frag, s) \<notin> free_set (c + s) ys"
      unfolding frag_def by (rule free_set_notin[OF szx(2)]) (use s64 s32 fi(6) b(2) in simp_all)
    show ?thesis using 1 2 by (auto simp add: FS_def fs c_def frag_def add.assoc)
  qed
  have views1: "nextf (frags h1) = nextf (frags h)" "prevf (frags h1) = prevf (frags h)"
    "usedf (frags h1) = usedf (frags h)"
    by (simp_all add: h1_def unbin_view)
  have d1: "diagnostics h1 = diagnostics h" "arena_end h1 = arena_end h" "payload h1 = payload h"
    by (simp_all add: h1_def)
  have fragsz: "fragGetSize h (bins h bi) = of_nat s" using fi(4) hd by (simp add: c_def)
  have hdf: "bins h bi = frag" by (simp add: hd frag_def c_def)
  have fsz: "fragGetSize h frag = of_nat s" using fragsz hdf by simp
  have lo: "(of_nat s :: size_t) - of_nat need = of_nat (s - need)" using ns by simp
  have lo_cmp: "(FRAGMENT_SIZE_MIN \<le> (of_nat (s - need) :: size_t)) = (32 \<le> s - need)"
  proof -
    have "s - need < 2 ^ 64" using s64 by simp
    then have "((of_nat 32 :: size_t) \<le> of_nat (s - need)) = (32 \<le> s - need)"
      by (intro of_nat_le64) simp_all
    then show ?thesis by (simp add: consts_values)
  qed
  have used_le: "used_total fs + s \<le> total fs" by (simp add: fs) (use used_total_le in \<open>meson add_mono\<close>)
  have al: "unat (allocated (diagnostics h)) = used_total fs"
    and pk: "unat (allocated (diagnostics h)) \<le> unat (peak_allocated (diagnostics h))"
      "unat (peak_allocated (diagnostics h)) \<le> unat (capacity (diagnostics h))"
      "32 dvd unat (peak_allocated (diagnostics h))"
    using inv by (simp_all add: heap_inv_def)
  define al' where "al' = allocated (diagnostics h) + of_nat need"
  have al'u: "unat al' = used_total fs + need"
  proof -
    have "used_total fs + need < 2 ^ 64" using used_le ns b(2) by simp
    then have "unat (of_nat (used_total fs + need) :: size_t) = used_total fs + need"
      by (rule unat_of_nat64)
    moreover have "al' = of_nat (used_total fs + need)"
      by (simp add: al'_def al[symmetric] of_nat_add)
    ultimately show ?thesis by simp
  qed
  define pk' where "pk' = larger (peak_allocated (diagnostics h)) al'"
  have pk'u: "unat pk' = max (unat (peak_allocated (diagnostics h))) (unat al')"
    by (auto simp add: pk'_def larger_def word_less_nat_alt max_def)
  have dvd_used: "32 dvd used_total fs" using b(5) by (rule sizes_ok_used_dvd)
  have cap_eq: "total fs = unat (capacity (diagnostics h))" by (rule b(6))
  have pkfacts: "unat al' \<le> unat pk'" "unat pk' \<le> unat (capacity (diagnostics h))"
    "unat (peak_allocated (diagnostics h)) \<le> unat pk'" "need \<le> unat pk'"
    using pk'u al'u pk used_le ns cap_eq by auto
  have frag0: "frag \<noteq> 0" "frag AND 1 = 0" using fi(8,9) by (simp_all add: frag_def)
  have out_eq: "out = frag + O1HEAP_ALIGNMENT"
    using allocate_from_bin_snd[of h "of_nat (2 ^ k)" sm] r
    by (simp add: bi_def[symmetric] hd c_def[symmetric] frag_def)
  have out0: "out \<noteq> 0"
  proof -
    have "c + 16 < 2 ^ 64" using s64 s32 by simp
    then have "(of_nat (c + 16) :: ptr) \<noteq> 0" by (simp only: ptr_zero_iff)
    then show ?thesis by (simp add: out_eq frag_def consts_values of_nat_add)
  qed
  have out_fresh: "out \<notin> live_set a0 fs"
  proof -
    have 1: "of_nat c + O1HEAP_ALIGNMENT \<notin> live_set a0 xs"
      by (rule live_set_notin[OF szx(1)]) (use s64 in \<open>simp_all add: c_def\<close>)
    have 2: "of_nat c + O1HEAP_ALIGNMENT \<notin> live_set (c + s) ys"
      by (rule live_set_notin[OF szx(2)]) (use s64 s32 fi(6) b(2) in simp_all)
    show ?thesis using 1 2 by (simp add: out_eq frag_def fs c_def add.assoc)
  qed
  show ?thesis
  proof (cases "32 \<le> s - need")
    case True
    define nb where "nb = c + need"
    define nfp :: ptr where "nfp = of_nat nb"
    have nb: "c < nb" "nb < c + s" "nb < 2 ^ 64" "nb + (s - need) = c + s"
      using True ns n32 s64 by (simp_all add: nb_def)
    have nfp_eq: "frag + of_nat need = nfp" by (simp add: frag_def nfp_def nb_def of_nat_add)
    have "16 dvd need" using n32(2) by (rule dvd_trans[rotated]) simp
    then have "16 dvd nb" using fi(7) by (simp add: nb_def)
    then have "even nb" by (rule dvd_trans[rotated]) simp
    then have nfp1: "nfp AND 1 = 0" unfolding nfp_def by (rule w7)
    have nfp0: "nfp \<noteq> 0" using nb fi(5) by (simp add: nfp_def ptr_zero_iff)
    have neq: "nfp \<noteq> frag" "frag \<noteq> nfp" using nb s64 by (simp_all add: nfp_def frag_def ptr_eq_iff)
    have zne: "(of_nat (c + s) :: ptr) \<noteq> frag" "(of_nat (c + s) :: ptr) \<noteq> nfp"
      "(of_nat (c + s) :: ptr) \<noteq> 0" "frag \<noteq> of_nat (c + s)" "nfp \<noteq> of_nat (c + s)"
      using nb s64 s32 fi(5) by (simp_all add: nfp_def frag_def ptr_eq_iff ptr_zero_iff)
    define g1 where "g1 = fragSetUsed h1 nfp False"
    define g2 where "g2 = interlink g1 nfp Z"
    define g3 where "g3 = interlink g2 frag nfp"
    define g4 where "g4 = rebin g3 nfp (of_nat (s - need))"
    have nxt1: "fragGetNext g1 frag = Z"
      using fi(1) by (simp add: g1_def accessors_view views1 Z_def frag_def)
    have h'_eq: "h' = fragSetUsed (g4\<lparr>diagnostics := (diagnostics h)\<lparr>allocated := al', peak_allocated := pk'\<rparr>\<rparr>) frag True"
    proof -
      have c1: "FRAGMENT_SIZE_MIN \<le> fragGetSize h (bins h (log2Floor sm)) - of_nat (2 ^ k)"
        using True by (simp only: bi_def[symmetric] hdf fsz need_def[symmetric] lo lo_cmp)
      have "h' = fst (allocate_from_bin h (of_nat (2 ^ k)) sm)" using r by simp
      also have "\<dots> = fragSetUsed (g4\<lparr>diagnostics := (diagnostics h)\<lparr>allocated := al', peak_allocated := pk'\<rparr>\<rparr>) frag True"
        unfolding allocate_from_bin_split[OF c1] Let_def
        unfolding g4_def g3_def g2_def al'_def pk'_def
          bi_def[symmetric] hdf fsz need_def[symmetric] lo nfp_eq h1_def[symmetric]
          g1_def[symmetric] nxt1
        by (rule refl)
      finally show ?thesis .
    qed
    have d4: "arena_end g4 = arena_end h" "payload g4 = payload h"
      by (simp_all add: g4_def g3_def g2_def g1_def d1)
    have nx: "nextf (frags h') = ((nextf (frags h))(nfp := Z))(frag := nfp)"
      using nfp0 frag0
      by (simp add: h'_eq g4_def rebin_view g3_def g2_def g1_def interlink_view nfp1 frag0 views1)
    have pv: "prevf (frags h') = ((if Z \<noteq> 0 then (prevf (frags h))(Z := nfp) else prevf (frags h)))(nfp := frag)"
      using nfp0 frag0
      by (simp add: h'_eq g4_def rebin_view g3_def g2_def g1_def interlink_view nfp1 frag0 views1)
    have us: "usedf (frags h') = ((usedf (frags h))(nfp := False))(frag := True)"
      by (simp add: h'_eq g4_def rebin_view g3_def g2_def g1_def interlink_view nfp1 frag0 views1)
    have ok3: "bins_ok g3 (bl(bin_of s := remove1 frag (bl (bin_of s)))) (free_set a0 xs \<union> free_set (c + s) ys)"
      using ok1 by (simp add: g3_def g2_def g1_def bins_ok_interlink nfp1 frag0 FSrest)
    define bl1 where "bl1 = bl(bin_of s := remove1 frag (bl (bin_of s)))"
    have ok4: "bins_ok g4 (bl1(bin_of (s - need) := nfp # bl1 (bin_of (s - need))))
                 (insert (nfp, s - need) (free_set a0 xs \<union> free_set (c + s) ys))"
      unfolding g4_def
    proof (rule rebin_ok[OF ok3[folded bl1_def]])
      show "(nfp, t) \<notin> free_set a0 xs \<union> free_set (c + s) ys" for t
      proof -
        have 1: "(nfp, t) \<notin> free_set a0 xs"
          unfolding nfp_def by (rule free_set_notin[OF szx(1)]) (use nb s64 in \<open>simp_all add: c_def\<close>)
        have 2: "(nfp, t) \<notin> free_set (c + s) ys"
          unfolding nfp_def by (rule free_set_notin[OF szx(2)]) (use nb s64 s32 fi(6) b(2) in simp_all)
        show ?thesis using 1 2 by simp
      qed
      show "nfp \<noteq> 0" by (rule nfp0)
      show "\<And>b t. (b, t) \<in> free_set a0 xs \<union> free_set (c + s) ys \<Longrightarrow> b \<noteq> 0"
        using fp(1) FSrest by blast
      show "\<And>b t t'. (b, t) \<in> free_set a0 xs \<union> free_set (c + s) ys \<Longrightarrow>
              (b, t') \<in> free_set a0 xs \<union> free_set (c + s) ys \<Longrightarrow> t = t'"
        using fp(2) FSrest by blast
    qed
    define bl' where "bl' = bl1(bin_of (s - need) := nfp # bl1 (bin_of (s - need)))"
    define new where "new = [(need, True), (s - need, False)]"
    have inv': "heap_inv h' (xs @ new @ ys) bl'"
    proof (rule heap_replace[OF inv, where mid = "[(s, False)]"])
      show "fs = xs @ [(s, False)] @ ys" by (simp add: fs)
      show "[(s, False)] \<noteq> []" "new \<noteq> []" by (simp_all add: new_def)
      show "sizes_ok new" using n32 True dv by (simp add: new_def)
      show "total new = total [(s, False)]" using ns by (simp add: new_def)
      show "capacity (diagnostics h') = capacity (diagnostics h)" by (simp add: h'_eq d4)
      show "arena_end h' = arena_end h" by (simp add: h'_eq d4)
      show "dseg (nextf (frags h')) (prevf (frags h')) (lastp 0 (addrs (arena_start h) xs))
             (of_nat (arena_start h + total xs)) (addrs (arena_start h + total xs) new)
             (hdp (addrs (arena_start h + total xs + total [(s, False)]) ys) 0)"
        using fi(2) neq nfp0 frag0 fi(1) zne
        by (auto simp add: a0_def[symmetric] c_def[symmetric] new_def nx pv hdp_addrs frag_def[symmetric]
            nb_def[symmetric] nfp_def[symmetric] Z_def accessors_view)
      show "usedf (frags h') (of_nat (fst x)) = snd (snd x)"
        if "x \<in> set (spans (arena_start h + total xs) new)" for x
      proof -
        from that have "x = (c, need, True) \<or> x = (nb, s - need, False)"
          by (simp add: new_def a0_def c_def nb_def)
        then show ?thesis using neq[unfolded nfp_def frag_def] by (auto simp add: us frag_def nfp_def)
      qed
      show "nextf (frags h') (of_nat d) = nextf (frags h) (of_nat d) \<and>
            usedf (frags h') (of_nat d) = usedf (frags h) (of_nat d)"
        if "d < arena_start h + total xs \<or> arena_start h + total xs + total [(s, False)] \<le> d" "d < 2 ^ 64" for d
      proof -
        have "d \<noteq> c" "d \<noteq> nb" using that nb s32 by (auto simp add: a0_def[symmetric] c_def[symmetric])
        then have "of_nat d \<noteq> frag" "of_nat d \<noteq> nfp"
          using that(2) nb s64 by (simp_all add: frag_def nfp_def ptr_eq_iff)
        then show ?thesis by (simp add: nx us)
      qed
      show "prevf (frags h') (of_nat d) = prevf (frags h) (of_nat d)"
        if "d < arena_start h + total xs \<or> arena_start h + total xs + total [(s, False)] < d" "d < 2 ^ 64" for d
      proof -
        have "d \<noteq> c + s" "d \<noteq> nb" using that nb s32 by (auto simp add: a0_def[symmetric] c_def[symmetric])
        then have "of_nat d \<noteq> (of_nat (c + s) :: ptr)" "of_nat d \<noteq> nfp"
          using that(2) nb s64 by (simp_all add: nfp_def ptr_eq_iff)
        then show ?thesis by (simp add: pv Z_def)
      qed
      show "prevf (frags h') (of_nat (arena_start h + total xs + total [(s, False)])) =
            last (addrs (arena_start h + total xs) new)" if "ys \<noteq> []"
      proof -
        have "(of_nat (c + s) :: ptr) \<noteq> nfp" "(of_nat (c + s) :: ptr) \<noteq> 0"
          using nb s64 fi(5) by (simp_all add: nfp_def ptr_eq_iff ptr_zero_iff)
        then show ?thesis using that
          by (simp add: a0_def[symmetric] c_def[symmetric] new_def pv Z_def nb_def[symmetric]
              nfp_def[symmetric])
      qed
      show "bins_ok h' bl' (free_set (arena_start h) (xs @ new @ ys))"
      proof -
        have "free_set a0 (xs @ new @ ys) = insert (nfp, s - need) (free_set a0 xs \<union> free_set (c + s) ys)"
          using ns by (simp add: new_def c_def[symmetric] nb_def[symmetric] nfp_def[symmetric] nb(4) add.assoc
             )
        then show ?thesis using ok4 by (simp add: h'_eq bl'_def a0_def)
      qed
      show "naf (xs @ new @ ys)"
      proof -
        from inv have "naf (xs @ (s, False) # ys)" by (simp add: heap_inv_def fs)
        then show ?thesis by (auto simp add: new_def naf_append naf_cons)
      qed
      show "unat (allocated (diagnostics h')) = used_total (xs @ new @ ys)"
        using al'u by (simp add: h'_eq new_def fs)
      show "unat (allocated (diagnostics h')) \<le> unat (peak_allocated (diagnostics h'))"
        "unat (peak_allocated (diagnostics h')) \<le> unat (capacity (diagnostics h))"
        using pkfacts by (simp_all add: h'_eq)
      show "32 dvd unat (peak_allocated (diagnostics h'))"
        using pk'u al'u pk(3) dvd_used n32(2) by (simp add: h'_eq max_def)
    qed
    have live': "live_set a0 (xs @ new @ ys) = insert out (live_set a0 fs)"
      using ns by (auto simp add: new_def fs out_eq frag_def c_def add.assoc)
    show ?thesis
      using inv' out0 out_fresh live' pkfacts
      by (intro exI[of _ "xs @ new @ ys"] exI[of _ bl'])
        (simp add: a0_def[symmetric] h'_eq d4 need_def)
  next
    case False
    have sn: "s = need"
    proof (rule ccontr)
      assume "s \<noteq> need"
      then have "0 < s - need" using ns by simp
      then have "32 \<le> s - need" using dv by (auto elim!: dvdE)
      then show False using False by simp
    qed
    have h'_eq: "h' = fragSetUsed (h1\<lparr>diagnostics := (diagnostics h)\<lparr>allocated := al', peak_allocated := pk'\<rparr>\<rparr>) frag True"
    proof -
      have c1: "\<not> FRAGMENT_SIZE_MIN \<le> fragGetSize h (bins h (log2Floor sm)) - of_nat (2 ^ k)"
        using False unfolding bi_def[symmetric] hdf fsz need_def[symmetric] lo lo_cmp by simp
      have "h' = fst (allocate_from_bin h (of_nat (2 ^ k)) sm)" using r by simp
      also have "\<dots> = fragSetUsed (h1\<lparr>diagnostics := (diagnostics h)\<lparr>allocated := al', peak_allocated := pk'\<rparr>\<rparr>) frag True"
        unfolding allocate_from_bin_whole[OF c1] Let_def
        unfolding al'_def pk'_def
          bi_def[symmetric] hdf fsz need_def[symmetric] h1_def[symmetric]
        by (rule refl)
      finally show ?thesis .
    qed
    define new where "new = [(s, True)]"
    define bl' where "bl' = bl(bin_of s := remove1 frag (bl (bin_of s)))"
    have inv': "heap_inv h' (xs @ new @ ys) bl'"
    proof (rule heap_replace[OF inv, where mid = "[(s, False)]"])
      show "fs = xs @ [(s, False)] @ ys" by (simp add: fs)
      show "[(s, False)] \<noteq> []" "new \<noteq> []" by (simp_all add: new_def)
      show "sizes_ok new" using s32 by (simp add: new_def)
      show "total new = total [(s, False)]" by (simp add: new_def)
      show "capacity (diagnostics h') = capacity (diagnostics h)" by (simp add: h'_eq d1)
      show "arena_end h' = arena_end h" by (simp add: h'_eq d1)
      show "dseg (nextf (frags h')) (prevf (frags h')) (lastp 0 (addrs (arena_start h) xs))
             (of_nat (arena_start h + total xs)) (addrs (arena_start h + total xs) new)
             (hdp (addrs (arena_start h + total xs + total [(s, False)]) ys) 0)"
        using fi(1,2)
        by (auto simp add: a0_def[symmetric] c_def[symmetric] new_def h'_eq views1 hdp_addrs
            accessors_view )
      show "usedf (frags h') (of_nat (fst x)) = snd (snd x)"
        if "x \<in> set (spans (arena_start h + total xs) new)" for x
      proof -
        from that have "x = (c, s, True)"
          by (simp add: new_def a0_def c_def)
        then show ?thesis by (simp add: h'_eq frag_def)
      qed
      show "nextf (frags h') (of_nat d) = nextf (frags h) (of_nat d) \<and>
            usedf (frags h') (of_nat d) = usedf (frags h) (of_nat d)"
        if "d < arena_start h + total xs \<or> arena_start h + total xs + total [(s, False)] \<le> d" "d < 2 ^ 64" for d
      proof -
        have "d \<noteq> c" using that s32 by (auto simp add: a0_def[symmetric] c_def[symmetric])
        then have "of_nat d \<noteq> frag"
          using that(2) s64 by (simp_all add: frag_def ptr_eq_iff)
        then show ?thesis by (simp add: h'_eq views1)
      qed
      show "prevf (frags h') (of_nat d) = prevf (frags h) (of_nat d)"
        if "d < arena_start h + total xs \<or> arena_start h + total xs + total [(s, False)] < d" "d < 2 ^ 64" for d
        by (simp add: h'_eq views1)
      show "prevf (frags h') (of_nat (arena_start h + total xs + total [(s, False)])) =
            last (addrs (arena_start h + total xs) new)" if "ys \<noteq> []"
      proof -
        from inv have ch: "chain_v (nextf (frags h)) (prevf (frags h)) (usedf (frags h)) a0 ((xs @ [(s, False)]) @ hd ys # tl ys)"
          using that by (simp add: heap_inv_def fs a0_def)
        from frag_info(2)[OF ch] show ?thesis
          by (simp add: h'_eq views1 new_def a0_def[symmetric] lastp_def add.assoc)
      qed
      show "bins_ok h' bl' (free_set (arena_start h) (xs @ new @ ys))"
        using ok1 FSrest by (simp add: h'_eq bl'_def a0_def[symmetric] new_def c_def add.assoc)
      show "naf (xs @ new @ ys)"
      proof -
        from inv have "naf (xs @ (s, False) # ys)" by (simp add: heap_inv_def fs)
        then show ?thesis by (auto simp add: new_def naf_append naf_cons)
      qed
      show "unat (allocated (diagnostics h')) = used_total (xs @ new @ ys)"
        using al'u sn by (simp add: h'_eq new_def fs)
      show "unat (allocated (diagnostics h')) \<le> unat (peak_allocated (diagnostics h'))"
        "unat (peak_allocated (diagnostics h')) \<le> unat (capacity (diagnostics h))"
        using pkfacts by (simp_all add: h'_eq)
      show "32 dvd unat (peak_allocated (diagnostics h'))"
        using pk'u al'u pk(3) dvd_used n32(2) by (simp add: h'_eq max_def)
    qed
    have live': "live_set a0 (xs @ new @ ys) = insert out (live_set a0 fs)"
      using ns by (auto simp add: new_def fs out_eq frag_def c_def add.assoc)
    show ?thesis
      using inv' out0 out_fresh live' pkfacts
      by (intro exI[of _ "xs @ new @ ys"] exI[of _ bl'])
        (simp add: a0_def[symmetric] h'_eq d1 need_def)
  qed
qed

section \<open>Header accessors under updates\<close>

lemma outside_refl: "outside c e f f"
  by (simp add: outside_def)

lemma outside_upd:
  "outside c e f g \<Longrightarrow> c \<le> p \<Longrightarrow> p < e \<Longrightarrow> p < 2 ^ 64 \<Longrightarrow> outside c e (f(of_nat p := v)) g"
  by (auto simp add: outside_def ptr_eq_iff)

lemma outside_if:
  "(b \<Longrightarrow> outside c e f g) \<Longrightarrow> (\<not> b \<Longrightarrow> outside c e f' g) \<Longrightarrow>
   outside c e (if b then f else f') g"
  by simp

lemma outsideD:
  "outside c e f g \<Longrightarrow> d < c \<or> e \<le> d \<Longrightarrow> d < 2 ^ 64 \<Longrightarrow> f (of_nat d) = g (of_nat d)"
  by (simp add: outside_def)

lemma acc_diag [simp]:
  "fragGetNext (h\<lparr>diagnostics := d\<rparr>) g = fragGetNext h g"
  "fragGetPrev (h\<lparr>diagnostics := d\<rparr>) g = fragGetPrev h g"
  "fragIsUsed (h\<lparr>diagnostics := d\<rparr>) g = fragIsUsed h g"
  "fragGetSize (h\<lparr>diagnostics := d\<rparr>) g = fragGetSize h g"
  by (simp_all add: fragGetNext_def fragGetPrev_def fragIsUsed_def fragGetSize_def)

lemma acc_fragSetUsed [simp]:
  "fragGetNext (fragSetUsed h f b) g = fragGetNext h g"
  "fragGetPrev (fragSetUsed h f b) g = fragGetPrev h g"
  "fragIsUsed (fragSetUsed h f b) g = (if g = f then b else fragIsUsed h g)"
  "fragGetSize (fragSetUsed h f b) g = fragGetSize h g"
  by (simp_all add: accessors_view)

lemma acc_unbin [simp]:
  "fragGetNext (unbin h f s) g = fragGetNext h g"
  "fragGetPrev (unbin h f s) g = fragGetPrev h g"
  "fragIsUsed (unbin h f s) g = fragIsUsed h g"
  "fragGetSize (unbin h f s) g = fragGetSize h g"
  by (simp_all add: accessors_view unbin_view)

lemma acc_rebin [simp]:
  "fragGetNext (rebin h f s) g = fragGetNext h g"
  "fragGetPrev (rebin h f s) g = fragGetPrev h g"
  "fragIsUsed (rebin h f s) g = fragIsUsed h g"
  "fragGetSize (rebin h f s) g = fragGetSize h g"
  by (simp_all add: accessors_view rebin_view)

lemma acc_memmove [simp]:
  "fragGetNext (memmove h d s n) g = fragGetNext h g"
  "fragGetPrev (memmove h d s n) g = fragGetPrev h g"
  "fragIsUsed (memmove h d s n) g = fragIsUsed h g"
  "fragGetSize (memmove h d s n) g = fragGetSize h g"
  by (simp_all add: accessors_view)

lemma acc_interlink:
  "l AND 1 = 0 \<Longrightarrow> fragGetNext (interlink h l r) g = (if g = l \<and> l \<noteq> 0 then r else fragGetNext h g)"
  "l AND 1 = 0 \<Longrightarrow> fragGetPrev (interlink h l r) g = (if g = r \<and> r \<noteq> 0 then l else fragGetPrev h g)"
  "l AND 1 = 0 \<Longrightarrow> fragIsUsed (interlink h l r) g = fragIsUsed h g"
  by (simp_all add: accessors_view interlink_view)

lemma free_set_minus_block:
  assumes "sizes_ok (xs @ mid @ ys)" "a + total (xs @ mid @ ys) < 2 ^ 64"
  shows "free_set a (xs @ mid @ ys) - free_set (a + total xs) mid =
         free_set a xs \<union> free_set (a + total xs + total mid) ys"
proof -
  have sz: "sizes_ok xs" "sizes_ok mid" "sizes_ok ys" using assms(1) by simp_all
  have 1: "x \<notin> free_set (a + total xs) mid" if "x \<in> free_set a xs" for x
  proof
    assume m: "x \<in> free_set (a + total xs) mid"
    obtain p s where x: "x = (p, s)" by (cases x)
    from free_set_addr_lt[OF sz(1) that[unfolded x]] obtain c where
      c: "p = of_nat c" "c < a + total xs" by auto
    from free_set_addr_lt[OF sz(2) m[unfolded x]] obtain d where
      d: "p = of_nat d" "a + total xs \<le> d" "d < a + total xs + total mid" by auto
    have "c < 2 ^ 64" "d < 2 ^ 64" using c d assms(2) by simp_all
    then have "c = d" using c(1) d(1) by (simp add: ptr_eq_iff)
    then show False using c d by simp
  qed
  have 2: "x \<notin> free_set (a + total xs) mid" if "x \<in> free_set (a + total xs + total mid) ys" for x
  proof
    assume m: "x \<in> free_set (a + total xs) mid"
    obtain p s where x: "x = (p, s)" by (cases x)
    from free_set_addr_lt[OF sz(3) that[unfolded x]] obtain c where
      c: "p = of_nat c" "a + total xs + total mid \<le> c" "c < a + total xs + total mid + total ys" by auto
    from free_set_addr_lt[OF sz(2) m[unfolded x]] obtain d where
      d: "p = of_nat d" "a + total xs \<le> d" "d < a + total xs + total mid" by auto
    have "c < 2 ^ 64" "d < 2 ^ 64" using c d assms(2) by simp_all
    then have "c = d" using c(1) d(1) by (simp add: ptr_eq_iff)
    then show False using c d by simp
  qed
  show ?thesis using 1 2 by (auto simp add: add.assoc)
qed

lemma free_set_fresh:
  assumes "sizes_ok xs" "sizes_ok ys" "e + total ys < 2 ^ 64" "a + total xs \<le> p" "p < e"
  shows "(of_nat p, t) \<notin> free_set a xs \<union> free_set e ys"
proof -
  have 1: "(of_nat p, t) \<notin> free_set a xs"
    by (rule free_set_notin[OF assms(1)]) (use assms in simp_all)
  have 2: "(of_nat p, t) \<notin> free_set e ys"
    by (rule free_set_notin[OF assms(2)]) (use assms in simp_all)
  show ?thesis using 1 2 by simp
qed

lemma live_set_fresh:
  assumes "sizes_ok xs" "sizes_ok ys" "e + total ys < 2 ^ 64" "a + total xs \<le> p" "p < e"
  shows "of_nat p + O1HEAP_ALIGNMENT \<notin> live_set a xs \<union> live_set e ys"
proof -
  have 1: "of_nat p + O1HEAP_ALIGNMENT \<notin> live_set a xs"
    by (rule live_set_notin[OF assms(1)]) (use assms in simp_all)
  have 2: "of_nat p + O1HEAP_ALIGNMENT \<notin> live_set e ys"
    by (rule live_set_notin[OF assms(2)]) (use assms in simp_all)
  show ?thesis using 1 2 by simp
qed

lemma heap_replace2:
  fixes h h' :: heap
  defines "a0 \<equiv> arena_start h"
  assumes inv: "heap_inv h fs bl" and fs: "fs = xs @ mid @ ys" and ne: "mid \<noteq> []" "new \<noteq> []"
    and szn: "sizes_ok new" and tot: "total new = total mid"
    and cap: "capacity (diagnostics h') = capacity (diagnostics h)" and ae: "arena_end h' = arena_end h"
    and inner: "dseg (nextf (frags h')) (prevf (frags h')) (lastp 0 (addrs a0 xs))
                  (of_nat (a0 + total xs)) (addrs (a0 + total xs) new)
                  (hdp (addrs (a0 + total xs + total mid) ys) 0)"
    and us_new: "\<And>x. x \<in> set (spans (a0 + total xs) new) \<Longrightarrow>
                   usedf (frags h') (of_nat (fst x)) = snd (snd x)"
    and fr_n: "outside (a0 + total xs) (a0 + total xs + total mid) (nextf (frags h')) (nextf (frags h))"
    and fr_u: "outside (a0 + total xs) (a0 + total xs + total mid) (usedf (frags h')) (usedf (frags h))"
    and fr_p: "outside (a0 + total xs) (Suc (a0 + total xs + total mid)) (prevf (frags h')) (prevf (frags h))"
    and pv_y: "ys \<noteq> [] \<Longrightarrow> prevf (frags h') (of_nat (a0 + total xs + total mid)) =
                   last (addrs (a0 + total xs) new)"
    and bins: "bins_ok h' bl' (free_set a0 xs \<union> free_set (a0 + total xs) new \<union>
                 free_set (a0 + total xs + total mid) ys)"
    and nf: "naf (xs @ new @ ys)"
    and al: "unat (allocated (diagnostics h')) = used_total (xs @ new @ ys)"
    and pk: "unat (allocated (diagnostics h')) \<le> unat (peak_allocated (diagnostics h'))"
      "unat (peak_allocated (diagnostics h')) \<le> unat (capacity (diagnostics h))"
      "32 dvd unat (peak_allocated (diagnostics h'))"
  shows "heap_inv h' (xs @ new @ ys) bl'"
proof (rule heap_replace[OF inv fs ne szn tot cap ae inner[unfolded a0_def]])
  show "\<And>x. x \<in> set (spans (arena_start h + total xs) new) \<Longrightarrow>
          usedf (frags h') (of_nat (fst x)) = snd (snd x)"
    using us_new by (simp add: a0_def)
  show "nextf (frags h') (of_nat c) = nextf (frags h) (of_nat c) \<and>
        usedf (frags h') (of_nat c) = usedf (frags h) (of_nat c)"
    if "c < arena_start h + total xs \<or> arena_start h + total xs + total mid \<le> c" "c < 2 ^ 64" for c
    using outsideD[OF fr_n, of c] outsideD[OF fr_u, of c] that by (simp add: a0_def)
  show "prevf (frags h') (of_nat c) = prevf (frags h) (of_nat c)"
    if "c < arena_start h + total xs \<or> arena_start h + total xs + total mid < c" "c < 2 ^ 64" for c
    using outsideD[OF fr_p, of c] that by (auto simp add: a0_def)
  show "ys \<noteq> [] \<Longrightarrow> prevf (frags h') (of_nat (arena_start h + total xs + total mid)) =
          last (addrs (arena_start h + total xs) new)"
    using pv_y by (simp add: a0_def)
  show "bins_ok h' bl' (free_set (arena_start h) (xs @ new @ ys))"
    using bins tot by (simp add: a0_def Un_assoc)
  show "naf (xs @ new @ ys)" by (rule nf)
  show "unat (allocated (diagnostics h')) = used_total (xs @ new @ ys)" by (rule al)
  show "unat (allocated (diagnostics h')) \<le> unat (peak_allocated (diagnostics h'))"
    "unat (peak_allocated (diagnostics h')) \<le> unat (capacity (diagnostics h))"
    "32 dvd unat (peak_allocated (diagnostics h'))" by (rule pk)+
qed

section \<open>Establishing the invariant after a local change\<close>

lemma accessors_fun:
  "fragGetNext h = nextf (frags h)" "fragGetPrev h = prevf (frags h)" "fragIsUsed h = usedf (frags h)"
  by (simp_all add: fun_eq_iff accessors_view)

lemma heap_commit:
  fixes h h' :: heap
  assumes inv: "heap_inv h fs bl" and fs: "fs = xs @ mid @ ys" and ne: "mid \<noteq> []" "new \<noteq> []"
    and c: "c = arena_start h + total xs" and e: "e = c + total mid"
    and szn: "sizes_ok new" and tot: "total new = total mid"
    and cap: "capacity (diagnostics h') = capacity (diagnostics h)" and ae: "arena_end h' = arena_end h"
    and inner: "dseg (fragGetNext h') (fragGetPrev h') (lastp 0 (addrs (arena_start h) xs))
                  (of_nat c) (addrs c new) (hdp (addrs e ys) 0)"
    and us_new: "list_all (\<lambda>x. fragIsUsed h' (of_nat (fst x)) = snd (snd x)) (spans c new)"
    and W: "W \<subseteq> {c..<e}"
    and frn: "\<And>q. q \<notin> of_nat ` W \<Longrightarrow> fragGetNext h' q = fragGetNext h q"
    and fru: "\<And>q. q \<notin> of_nat ` W \<Longrightarrow> fragIsUsed h' q = fragIsUsed h q"
    and frp: "\<And>q. q \<notin> of_nat ` W \<Longrightarrow> q \<noteq> of_nat e \<Longrightarrow> fragGetPrev h' q = fragGetPrev h q"
    and pv_y: "ys \<noteq> [] \<Longrightarrow> fragGetPrev h' (of_nat e) = last (addrs c new)"
    and bins: "bins_ok h' bl' (free_set (arena_start h) xs \<union> free_set c new \<union> free_set e ys)"
    and nf: "naf (xs @ new @ ys)"
    and al: "unat (allocated (diagnostics h')) = used_total (xs @ new @ ys)"
    and pk: "unat (allocated (diagnostics h')) \<le> unat (peak_allocated (diagnostics h'))"
      "unat (peak_allocated (diagnostics h')) \<le> unat (capacity (diagnostics h))"
      "32 dvd unat (peak_allocated (diagnostics h'))"
  shows "heap_inv h' (xs @ new @ ys) bl'"
proof -
  note b = heap_inv_bounds[OF inv]
  have e64: "e \<le> arena_start h + total fs" by (simp add: e c fs)
  have out: "of_nat d \<notin> (of_nat ` W :: ptr set)" if "d < c \<or> e \<le> d" "d < 2 ^ 64" for d
  proof
    assume "of_nat d \<in> (of_nat ` W :: ptr set)"
    then obtain w where w: "w \<in> W" "(of_nat d :: ptr) = of_nat w" by auto
    from w(1) W have wb: "c \<le> w" "w < e" by auto
    then have "w < 2 ^ 64" using e64 b(2) by simp
    then have "d = w" using w(2) that(2) by (simp add: ptr_eq_iff)
    then show False using wb that(1) by simp
  qed
  show ?thesis
  proof (rule heap_replace2[OF inv fs ne szn tot cap ae])
    show "dseg (nextf (frags h')) (prevf (frags h')) (lastp 0 (addrs (arena_start h) xs))
           (of_nat (arena_start h + total xs)) (addrs (arena_start h + total xs) new)
           (hdp (addrs (arena_start h + total xs + total mid) ys) 0)"
      using inner by (simp add: accessors_fun c e)
    show "usedf (frags h') (of_nat (fst x)) = snd (snd x)"
      if "x \<in> set (spans (arena_start h + total xs) new)" for x
      using us_new that by (simp add: list_all_iff accessors_view c)
    show "outside (arena_start h + total xs) (arena_start h + total xs + total mid)
           (nextf (frags h')) (nextf (frags h))"
      unfolding outside_def using frn out by (simp add: accessors_view c e)
    show "outside (arena_start h + total xs) (arena_start h + total xs + total mid)
           (usedf (frags h')) (usedf (frags h))"
      unfolding outside_def using fru out by (simp add: accessors_view c e)
    show "outside (arena_start h + total xs) (Suc (arena_start h + total xs + total mid))
           (prevf (frags h')) (prevf (frags h))"
      unfolding outside_def
    proof (intro allI impI)
      fix d assume d: "(d < arena_start h + total xs \<or> Suc (arena_start h + total xs + total mid) \<le> d) \<and> d < 2 ^ 64"
      then have 1: "of_nat d \<notin> (of_nat ` W :: ptr set)" by (intro out) (auto simp add: c e)
      have "e < 2 ^ 64" using e64 b(2) by simp
      moreover have "d \<noteq> e" using d by (auto simp add: c e)
      ultimately have 2: "(of_nat d :: ptr) \<noteq> of_nat e" using d by (simp add: ptr_eq_iff)
      from frp[OF 1 2] show "prevf (frags h') (of_nat d) = prevf (frags h) (of_nat d)"
        by (simp add: accessors_view)
    qed
    show "ys \<noteq> [] \<Longrightarrow> prevf (frags h') (of_nat (arena_start h + total xs + total mid)) =
            last (addrs (arena_start h + total xs) new)"
      using pv_y by (simp add: accessors_view c e)
    show "bins_ok h' bl' (free_set (arena_start h) xs \<union> free_set (arena_start h + total xs) new \<union>
            free_set (arena_start h + total xs + total mid) ys)"
      using bins by (simp add: c e)
  qed (rule nf al pk)+
qed

lemma heap_inv_prev:
  assumes inv: "heap_inv h fs bl" and fs: "fs = xs @ f # ys" and c: "c = arena_start h + total xs"
  shows "fragGetPrev h (of_nat c) \<noteq> of_nat c"
    and "(fragGetPrev h (of_nat c) \<noteq> 0 \<and> \<not> fragIsUsed h (fragGetPrev h (of_nat c))) =
         (xs \<noteq> [] \<and> \<not> snd (last xs))"
    and "xs = [] \<Longrightarrow> fragGetPrev h (of_nat c) = 0"
    and "xs = xs' @ [g] \<Longrightarrow> fragGetPrev h (of_nat c) = of_nat (arena_start h + total xs')"
proof -
  note b = heap_inv_bounds[OF inv]
  note fi = heap_inv_frag[OF inv fs, folded c]
  have c64: "c < 2 ^ 64" using fi(6) b(2) by simp
  have sn: "fragGetPrev h (of_nat c) = of_nat (arena_start h + total xs')" if "xs = xs' @ [g]" for xs' g
    using fi(2) that by (simp add: lastp_addrs_snoc)
  show "xs = xs' @ [g] \<Longrightarrow> fragGetPrev h (of_nat c) = of_nat (arena_start h + total xs')"
    by (rule sn)
  show "xs = [] \<Longrightarrow> fragGetPrev h (of_nat c) = 0" using fi(2) by simp
  show "fragGetPrev h (of_nat c) \<noteq> of_nat c"
  proof (cases xs rule: rev_cases)
    case Nil
    then show ?thesis using fi(2,8) by simp
  next
    case (snoc xs' g)
    have "0 < fst g" using b(5) by (simp add: fs snoc)
    then have "arena_start h + total xs' < c" by (simp add: c snoc)
    then show ?thesis using sn[OF snoc] c64 by (simp add: ptr_eq_iff)
  qed
  show "(fragGetPrev h (of_nat c) \<noteq> 0 \<and> \<not> fragIsUsed h (fragGetPrev h (of_nat c))) =
         (xs \<noteq> [] \<and> \<not> snd (last xs))"
  proof (cases xs rule: rev_cases)
    case Nil
    then show ?thesis using fi(2) by simp
  next
    case (snoc xs' g)
    have fs2: "fs = xs' @ g # (f # ys)" by (simp add: fs snoc)
    note fj = heap_inv_frag[OF inv fs2]
    show ?thesis using sn[OF snoc] fj(3,8) by (simp add: snoc)
  qed
qed

lemma heap_inv_next:
  assumes inv: "heap_inv h fs bl" and fs: "fs = xs @ f # ys" and c: "c = arena_start h + total xs"
  shows "fragGetNext h (of_nat c) \<noteq> of_nat c"
    and "(fragGetNext h (of_nat c) \<noteq> 0 \<and> \<not> fragIsUsed h (fragGetNext h (of_nat c))) =
         (ys \<noteq> [] \<and> \<not> snd (hd ys))"
    and "ys = [] \<Longrightarrow> fragGetNext h (of_nat c) = 0"
    and "ys \<noteq> [] \<Longrightarrow> fragGetNext h (of_nat c) = of_nat (c + fst f)"
proof -
  note b = heap_inv_bounds[OF inv]
  note fi = heap_inv_frag[OF inv fs, folded c]
  have c64: "c + fst f < 2 ^ 64" using fi(6) b(2) by simp
  have pos: "0 < fst f" using b(5) by (simp add: fs)
  show "ys = [] \<Longrightarrow> fragGetNext h (of_nat c) = 0" using fi(1) by simp
  show n: "ys \<noteq> [] \<Longrightarrow> fragGetNext h (of_nat c) = of_nat (c + fst f)" using fi(1) by simp
  show "fragGetNext h (of_nat c) \<noteq> of_nat c"
    using fi(1,8) c64 pos by (simp add: ptr_eq_iff)
  show "(fragGetNext h (of_nat c) \<noteq> 0 \<and> \<not> fragIsUsed h (fragGetNext h (of_nat c))) =
         (ys \<noteq> [] \<and> \<not> snd (hd ys))"
  proof (cases ys)
    case Nil
    then show ?thesis using fi(1) by simp
  next
    case (Cons g ys')
    have fs2: "fs = (xs @ [f]) @ g # ys'" by (simp add: fs Cons)
    note fj = heap_inv_frag[OF inv fs2]
    show ?thesis using n fj(3,8) by (simp add: Cons c add.assoc)
  qed
qed

section \<open>o1heapFree preserves the invariant\<close>

lemma naf_all_free: "naf fs \<Longrightarrow> \<forall>f \<in> set fs. \<not> snd f \<Longrightarrow> length fs \<le> 1"
  by (induction fs rule: naf.induct) auto

lemma o1heapFree_inv:
  assumes inv: "heap_inv h fs bl" and live: "p \<in> live_set (arena_start h) fs"
  shows "\<exists>fs' bl'. heap_inv (o1heapFree h p) fs' bl' \<and>
           live_set (arena_start h) fs' = live_set (arena_start h) fs - {p} \<and>
           p \<noteq> 0 \<and>
           peak_request_size (diagnostics (o1heapFree h p)) = peak_request_size (diagnostics h) \<and>
           oom_count (diagnostics (o1heapFree h p)) = oom_count (diagnostics h) \<and>
           peak_allocated (diagnostics (o1heapFree h p)) = peak_allocated (diagnostics h) \<and>
           capacity (diagnostics (o1heapFree h p)) = capacity (diagnostics h) \<and>
           arena_end (o1heapFree h p) = arena_end h \<and> payload (o1heapFree h p) = payload h \<and>
           fragIsUsed h (p - O1HEAP_ALIGNMENT) \<and>
           \<not> fragIsUsed (o1heapFree h p) (p - O1HEAP_ALIGNMENT) \<and>
           32 \<le> unat (fragGetSize h (p - O1HEAP_ALIGNMENT)) \<and>
           unat (allocated (diagnostics (o1heapFree h p))) + unat (fragGetSize h (p - O1HEAP_ALIGNMENT)) =
             unat (allocated (diagnostics h))"
proof -
  define a0 where "a0 = arena_start h"
  note b = heap_inv_bounds[OF inv, folded a0_def]
  from live_set_addr[OF live] obtain c s where
    p: "p = of_nat c + O1HEAP_ALIGNMENT" and sp: "(c, s, True) \<in> set (spans a0 fs)"
    by (auto simp add: a0_def)
  from spans_split[OF sp] obtain xs ys where fs: "fs = xs @ (s, True) # ys" and c: "c = a0 + total xs"
    by auto
  note fi = heap_inv_frag[OF inv fs, folded a0_def, folded c, simplified]
  note pr = heap_inv_prev[OF inv fs c[unfolded a0_def]]
  note nx = heap_inv_next[OF inv fs c[unfolded a0_def], simplified]
  have s32: "32 \<le> s" "32 dvd s" using b(5) fs by simp_all
  have cs: "c + s \<le> a0 + total fs" using fi(6) by simp
  have s64: "s < 2 ^ 64" "c < 2 ^ 64" "c + s < 2 ^ 64" using cs b(2) by simp_all
  define frag :: ptr where "frag = of_nat c"
  have pf: "p - O1HEAP_ALIGNMENT = frag" by (simp add: p frag_def)
  have p0: "p \<noteq> 0"
  proof -
    have "c + 16 < 2 ^ 64" using s64 s32 by simp
    then have "(of_nat (c + 16) :: ptr) \<noteq> 0" by (simp only: ptr_zero_iff)
    then show ?thesis by (simp add: p consts_values of_nat_add)
  qed
  have frag0: "frag \<noteq> 0" "frag AND 1 = 0" using fi(8,9) by (simp_all add: frag_def)
  define FS where "FS = free_set a0 fs"
  from inv have ok: "bins_ok h bl FS" by (simp add: heap_inv_def FS_def a0_def)
  note fp = free_set_props[OF inv, folded a0_def, folded FS_def]
  have al: "unat (allocated (diagnostics h)) = used_total fs"
    and pk: "unat (allocated (diagnostics h)) \<le> unat (peak_allocated (diagnostics h))"
      "unat (peak_allocated (diagnostics h)) \<le> unat (capacity (diagnostics h))"
      "32 dvd unat (peak_allocated (diagnostics h))"
    and nf: "naf fs"
    using inv by (simp_all add: heap_inv_def)
  define al' where "al' = allocated (diagnostics h) - of_nat s"
  have us: "s \<le> used_total fs" by (simp add: fs)
  have al'u: "unat al' = used_total fs - s"
  proof -
    have "used_total fs \<le> total fs" by (rule used_total_le)
    then have "used_total fs < 2 ^ 64" using b(2) by simp
    then have "unat (of_nat (used_total fs - s) :: size_t) = used_total fs - s"
      by (intro unat_of_nat64) simp
    moreover have "al' = of_nat (used_total fs - s)"
      using us by (simp add: al'_def al[symmetric] of_nat_diff)
    ultimately show ?thesis by simp
  qed
  define h2 where "h2 = (fragSetUsed h frag False)\<lparr>diagnostics := (diagnostics h)\<lparr>allocated := al'\<rparr>\<rparr>"
  have ok2: "bins_ok h2 bl FS" using ok by (simp add: h2_def)
  have szx: "sizes_ok xs" "sizes_ok ys" using b(5) fs by simp_all
  have fsz: "fragGetSize h frag = of_nat s" using fi(4) by (simp add: frag_def)
  have fu0: "fragIsUsed h frag" using fi(3) by (simp add: frag_def)
  have szu: "unat (fragGetSize h frag) = s" unfolding fsz using s64(1) by (rule unat_of_nat64)
  have alu: "unat al' + s = unat (allocated (diagnostics h))" using al'u us al by simp
  note ne = TrueI
  have live': "live_set a0 (xs @ new @ ys) = live_set a0 fs - {p}" if "live_set (a0 + total xs) new = {}" 
    "total new = s" for new
  proof -
    have 1: "p \<notin> live_set a0 xs" unfolding p
      by (rule live_set_notin[OF szx(1)]) (use s64 in \<open>simp_all add: c\<close>)
    have 2: "p \<notin> live_set (c + s) ys" unfolding p
      by (rule live_set_notin[OF szx(2)]) (use s64 s32 fi(6) b(2) in simp_all)
    show ?thesis using 1 2 that by (auto simp add: fs p c add.assoc)
  qed
  consider (LR) "xs \<noteq> [] \<and> \<not> snd (last xs)" "ys \<noteq> [] \<and> \<not> snd (hd ys)"
    | (L) "xs \<noteq> [] \<and> \<not> snd (last xs)" "\<not> (ys \<noteq> [] \<and> \<not> snd (hd ys))"
    | (R) "\<not> (xs \<noteq> [] \<and> \<not> snd (last xs))" "ys \<noteq> [] \<and> \<not> snd (hd ys)"
    | (N) "\<not> (xs \<noteq> [] \<and> \<not> snd (last xs))" "\<not> (ys \<noteq> [] \<and> \<not> snd (hd ys))"
    by blast
  then show ?thesis
  proof cases
    case LR
    from LR(1) obtain xs' sp where xs: "xs = xs' @ [(sp, False)]"
      by (cases xs rule: rev_cases) (auto simp add: prod_eq_iff)
    from LR(2) obtain sn ys' where ys: "ys = (sn, False) # ys'"
      by (cases ys) (auto simp add: prod_eq_iff)
    define cp where "cp = a0 + total xs'"
    define prv :: ptr where "prv = of_nat cp"
    define nxt :: ptr where "nxt = of_nat (c + s)"
    define e where "e = c + s + sn"
    define Z :: ptr where "Z = hdp (addrs e ys') 0"
    have fs1: "fs = xs' @ (sp, False) # ((s, True) # ys)" by (simp add: fs xs)
    have fs2: "fs = (xs @ [(s, True)]) @ (sn, False) # ys'" by (simp add: fs ys)
    note fip = heap_inv_frag[OF inv fs1, folded a0_def, folded cp_def, simplified]
    have cn: "c + s = arena_start h + total (xs @ [(s, True)])" by (simp add: c a0_def)
    note fin = heap_inv_frag[OF inv fs2, folded cn, simplified]
    have cpc: "cp + sp = c" by (simp add: cp_def c xs)
    have sz: "32 \<le> sp" "32 \<le> sn" "32 dvd sp" "32 dvd sn" using b(5) by (simp_all add: fs xs ys)
    have e64: "e < 2 ^ 64" "e \<le> a0 + total fs" using b(2) by (simp_all add: e_def c fs ys)
    have prvf: "fragGetPrev h frag = prv" using pr(4)[OF xs] by (simp add: frag_def prv_def cp_def a0_def)
    have nxtf: "fragGetNext h frag = nxt" using nx(4) by (simp add: frag_def nxt_def ys)
    have nz: "fragGetNext h nxt = Z" using fin(1) by (simp add: nxt_def Z_def hdp_addrs e_def)
    have pz: "fragGetSize h prv = of_nat sp" "fragGetSize h nxt = of_nat sn"
      using fip(4) fin(4) by (simp_all add: prv_def nxt_def)
    have pu: "\<not> fragIsUsed h prv" "\<not> fragIsUsed h nxt" using fip(3) fin(3) by (simp_all add: prv_def nxt_def)
    have ne: "prv \<noteq> 0" "nxt \<noteq> 0" "prv \<noteq> frag" "nxt \<noteq> frag" "prv \<noteq> nxt" "prv AND 1 = 0"
      "Z \<noteq> prv" "Z \<noteq> frag" "Z \<noteq> nxt" "nxt \<noteq> prv" "frag \<noteq> prv" "frag \<noteq> nxt"
      "(of_nat e :: ptr) \<noteq> 0"
      using fip(8,9) fin(8) cpc s64 sz s32 e64
      by (auto simp add: prv_def nxt_def frag_def Z_def hdp_addrs ptr_eq_iff ptr_zero_iff e_def)
    define h' where "h' = rebin (interlink (unbin (unbin h2 prv (of_nat sp)) nxt (of_nat sn)) prv Z) prv
                        (of_nat (sp + s + sn))"
    have h'_eq: "o1heapFree h p = h'"
      using p0 ne pu
      by (simp add: o1heapFree_def Let_def pf fsz prvf nxtf nz pz h'_def h2_def al'_def of_nat_add)
    define mid where "mid = [(sp, False), (s, True), (sn, False)]"
    define new where "new = [(sp + s + sn, False)]"
    have fsm: "fs = xs' @ mid @ ys'" by (simp add: fs xs ys mid_def)
    have szm: "sizes_ok xs'" "sizes_ok ys'" using b(5) by (simp_all add: fsm)
    have FSm: "FS - {(prv, sp)} - {(nxt, sn)} = free_set a0 xs' \<union> free_set e ys'"
    proof -
      have "free_set (a0 + total xs') mid = {(prv, sp), (nxt, sn)}"
        by (simp add: mid_def prv_def nxt_def cp_def[symmetric] cpc) blast
      moreover have "free_set a0 (xs' @ mid @ ys') - free_set (a0 + total xs') mid =
         free_set a0 xs' \<union> free_set (a0 + total xs' + total mid) ys'"
        by (rule free_set_minus_block) (use b in \<open>simp_all add: fsm\<close>)
      moreover have "a0 + total xs' + total mid = e" using cpc by (simp add: mid_def e_def cp_def)
      ultimately show ?thesis by (auto simp add: FS_def fsm)
    qed
    have memp: "(prv, sp) \<in> FS" by (simp add: FS_def fs1 prv_def cp_def)
    have memn: "(nxt, sn) \<in> FS - {(prv, sp)}" using ne by (simp add: FS_def fs2 nxt_def c add.assoc)
    define bl1 where "bl1 = bl(bin_of sp := remove1 prv (bl (bin_of sp)))"
    define bl2 where "bl2 = bl1(bin_of sn := remove1 nxt (bl1 (bin_of sn)))"
    define bl' where "bl' = bl2(bin_of (sp + s + sn) := prv # bl2 (bin_of (sp + s + sn)))"
    have ok3: "bins_ok (unbin h2 prv (of_nat sp)) bl1 (FS - {(prv, sp)})"
      unfolding bl1_def by (rule unbin_ok[OF ok2 memp fp])
    have ok4: "bins_ok (unbin (unbin h2 prv (of_nat sp)) nxt (of_nat sn)) bl2 (FS - {(prv, sp)} - {(nxt, sn)})"
      unfolding bl2_def by (rule unbin_ok[OF ok3 memn]) (use fp in blast)+
    have ok5: "bins_ok (interlink (unbin (unbin h2 prv (of_nat sp)) nxt (of_nat sn)) prv Z) bl2
                (free_set a0 xs' \<union> free_set e ys')"
      using ok4 ne by (simp add: bins_ok_interlink FSm)
    have ok': "bins_ok h' bl' (insert (prv, sp + s + sn) (free_set a0 xs' \<union> free_set e ys'))"
      unfolding h'_def bl'_def
    proof (rule rebin_ok[OF ok5])
      show "(prv, t) \<notin> free_set a0 xs' \<union> free_set e ys'" for t
        unfolding prv_def by (rule free_set_fresh[OF szm]) (use e64 fin(6) cpc sz b(2) in \<open>simp_all add: e_def cp_def a0_def\<close>)
      show "prv \<noteq> 0" using ne by simp
      show "\<And>b t. (b, t) \<in> free_set a0 xs' \<union> free_set e ys' \<Longrightarrow> b \<noteq> 0"
        using fp(1) FSm by blast
      show "\<And>b t t'. (b, t) \<in> free_set a0 xs' \<union> free_set e ys' \<Longrightarrow>
              (b, t') \<in> free_set a0 xs' \<union> free_set e ys' \<Longrightarrow> t = t'"
        using fp(2) FSm by blast
    qed
    have inv': "heap_inv h' (xs' @ new @ ys') bl'"
    proof (rule heap_commit[OF inv fsm, where c = cp and e = e and W = "{cp, c, c + s}"])
      show "mid \<noteq> []" "new \<noteq> []" by (simp_all add: mid_def new_def)
      show "cp = arena_start h + total xs'" by (simp add: cp_def a0_def)
      show "e = cp + total mid" using cpc by (simp add: e_def mid_def)
      show "sizes_ok new" using sz s32 by (simp add: new_def)
      show "total new = total mid" by (simp add: new_def mid_def)
      show "capacity (diagnostics h') = capacity (diagnostics h)" by (simp add: h'_def h2_def)
      show "arena_end h' = arena_end h" by (simp add: h'_def h2_def)
      show "dseg (fragGetNext h') (fragGetPrev h') (lastp 0 (addrs (arena_start h) xs'))
             (of_nat cp) (addrs cp new) (hdp (addrs e ys') 0)"
        using ne fip(2)
        by (simp add: new_def h'_def h2_def acc_interlink prv_def[symmetric] Z_def[symmetric] a0_def)
      show "list_all (\<lambda>x. fragIsUsed h' (of_nat (fst x)) = snd (snd x)) (spans cp new)"
        using ne pu by (simp add: new_def h'_def h2_def acc_interlink prv_def[symmetric])
      show "{cp, c, c + s} \<subseteq> {cp..<e}" using cpc sz s32 by (auto simp add: e_def)
      show "fragGetNext h' q = fragGetNext h q" if "q \<notin> of_nat ` {cp, c, c + s}" for q
        using that ne by (simp add: h'_def h2_def acc_interlink prv_def[symmetric])
      show "fragIsUsed h' q = fragIsUsed h q" if "q \<notin> of_nat ` {cp, c, c + s}" for q
        using that ne by (simp add: h'_def h2_def acc_interlink prv_def[symmetric] frag_def[symmetric])
      show "fragGetPrev h' q = fragGetPrev h q" if "q \<notin> of_nat ` {cp, c, c + s}" "q \<noteq> of_nat e" for q
        using that ne by (auto simp add: h'_def h2_def acc_interlink Z_def hdp_addrs)
      show "fragGetPrev h' (of_nat e) = last (addrs cp new)" if "ys' \<noteq> []"
        using that ne by (simp add: h'_def h2_def acc_interlink Z_def hdp_addrs new_def prv_def)
      show "bins_ok h' bl' (free_set (arena_start h) xs' \<union> free_set cp new \<union> free_set e ys')"
        using ok' by (simp add: new_def a0_def prv_def Un_commute insert_commute)
      show "naf (xs' @ new @ ys')"
        using nf by (auto simp add: fs xs ys new_def naf_append naf_cons)
      show "unat (allocated (diagnostics h')) = used_total (xs' @ new @ ys')"
        using al'u by (simp add: h'_def h2_def new_def fs xs ys)
      show "unat (allocated (diagnostics h')) \<le> unat (peak_allocated (diagnostics h'))"
        using al'u pk al by (simp add: h'_def h2_def)
      show "unat (peak_allocated (diagnostics h')) \<le> unat (capacity (diagnostics h))"
        "32 dvd unat (peak_allocated (diagnostics h'))"
        using pk by (simp_all add: h'_def h2_def)
    qed
    have lv: "live_set a0 (xs' @ new @ ys') = live_set a0 fs - {p}"
      using live'[of "[(s, False)]"] cpc
      by (simp add: new_def xs ys fs c add.assoc)
    have fu: "\<not> fragIsUsed h' frag"
      using ne frag0 by (simp add: h'_def h2_def acc_interlink)
    have ald: "allocated (diagnostics h') = al'" by (simp add: h'_def h2_def)
    show ?thesis
      using inv' lv p0 fu fu0 szu alu s32(1) ald
      by (intro exI[of _ "xs' @ new @ ys'"] exI[of _ bl'])
        (simp add: h'_eq a0_def[symmetric] pf, simp add: h'_def h2_def)
  next
    case L
    from L(1) obtain xs' sp where xs: "xs = xs' @ [(sp, False)]"
      by (cases xs rule: rev_cases) (auto simp add: prod_eq_iff)
    define cp where "cp = a0 + total xs'"
    define prv :: ptr where "prv = of_nat cp"
    define e where "e = c + s"
    define Z :: ptr where "Z = hdp (addrs e ys) 0"
    have fs1: "fs = xs' @ (sp, False) # ((s, True) # ys)" by (simp add: fs xs)
    note fip = heap_inv_frag[OF inv fs1, folded a0_def, folded cp_def, simplified]
    have cpc: "cp + sp = c" by (simp add: cp_def c xs)
    have sz: "32 \<le> sp" "32 dvd sp" using b(5) by (simp_all add: fs xs)
    have e64: "e < 2 ^ 64" "e \<le> a0 + total fs" using b(2) by (simp_all add: e_def c fs)
    have prvf: "fragGetPrev h frag = prv" using pr(4)[OF xs] by (simp add: frag_def prv_def cp_def a0_def)
    have nxtf: "fragGetNext h frag = Z" using fi(1) by (simp add: frag_def Z_def hdp_addrs e_def)
    have pz: "fragGetSize h prv = of_nat sp" using fip(4) by (simp add: prv_def)
    have pu: "\<not> fragIsUsed h prv" using fip(3) by (simp add: prv_def)
    have jr: "Z = 0 \<or> fragIsUsed h Z" using nx(2) L(2) nxtf by (auto simp add: frag_def)
    have ne: "prv \<noteq> 0" "prv \<noteq> frag" "prv AND 1 = 0" "Z \<noteq> prv" "Z \<noteq> frag" "frag \<noteq> prv"
      "(of_nat e :: ptr) \<noteq> 0"
      using fip(8,9) cpc s64 sz s32 e64
      by (auto simp add: prv_def frag_def Z_def hdp_addrs ptr_eq_iff ptr_zero_iff e_def)
    define h' where "h' = rebin (interlink (unbin h2 prv (of_nat sp)) prv Z) prv (of_nat (sp + s))"
    have h'_eq: "o1heapFree h p = h'"
      using p0 ne pu jr
      by (auto simp add: o1heapFree_def Let_def pf fsz prvf nxtf pz h'_def h2_def al'_def of_nat_add)
    define mid where "mid = [(sp, False), (s, True)]"
    define new where "new = [(sp + s, False)]"
    have fsm: "fs = xs' @ mid @ ys" by (simp add: fs xs mid_def)
    have szm: "sizes_ok xs'" "sizes_ok ys" using b(5) by (simp_all add: fsm)
    have FSm: "FS - {(prv, sp)} = free_set a0 xs' \<union> free_set e ys"
    proof -
      have "free_set (a0 + total xs') mid = {(prv, sp)}"
        by (simp add: mid_def prv_def cp_def[symmetric] cpc)
      moreover have "free_set a0 (xs' @ mid @ ys) - free_set (a0 + total xs') mid =
         free_set a0 xs' \<union> free_set (a0 + total xs' + total mid) ys"
        by (rule free_set_minus_block) (use b in \<open>simp_all add: fsm\<close>)
      moreover have "a0 + total xs' + total mid = e" using cpc by (simp add: mid_def e_def cp_def)
      ultimately show ?thesis by (auto simp add: FS_def fsm)
    qed
    have memp: "(prv, sp) \<in> FS" by (simp add: FS_def fs1 prv_def cp_def)
    define bl1 where "bl1 = bl(bin_of sp := remove1 prv (bl (bin_of sp)))"
    define bl' where "bl' = bl1(bin_of (sp + s) := prv # bl1 (bin_of (sp + s)))"
    have ok3: "bins_ok (unbin h2 prv (of_nat sp)) bl1 (FS - {(prv, sp)})"
      unfolding bl1_def by (rule unbin_ok[OF ok2 memp fp])
    have ok5: "bins_ok (interlink (unbin h2 prv (of_nat sp)) prv Z) bl1
                (free_set a0 xs' \<union> free_set e ys)"
      using ok3 ne by (simp add: bins_ok_interlink FSm)
    have ok': "bins_ok h' bl' (insert (prv, sp + s) (free_set a0 xs' \<union> free_set e ys))"
      unfolding h'_def bl'_def
    proof (rule rebin_ok[OF ok5])
      show "(prv, t) \<notin> free_set a0 xs' \<union> free_set e ys" for t
        unfolding prv_def by (rule free_set_fresh[OF szm]) (use e64 fi(6) cpc sz s32 b(2) in \<open>simp_all add: e_def cp_def a0_def\<close>)
      show "prv \<noteq> 0" using ne by simp
      show "\<And>b t. (b, t) \<in> free_set a0 xs' \<union> free_set e ys \<Longrightarrow> b \<noteq> 0"
        using fp(1) FSm by blast
      show "\<And>b t t'. (b, t) \<in> free_set a0 xs' \<union> free_set e ys \<Longrightarrow>
              (b, t') \<in> free_set a0 xs' \<union> free_set e ys \<Longrightarrow> t = t'"
        using fp(2) FSm by blast
    qed
    have inv': "heap_inv h' (xs' @ new @ ys) bl'"
    proof (rule heap_commit[OF inv fsm, where c = cp and e = e and W = "{cp, c}"])
      show "mid \<noteq> []" "new \<noteq> []" by (simp_all add: mid_def new_def)
      show "cp = arena_start h + total xs'" by (simp add: cp_def a0_def)
      show "e = cp + total mid" using cpc by (simp add: e_def mid_def)
      show "sizes_ok new" using sz s32 by (simp add: new_def)
      show "total new = total mid" by (simp add: new_def mid_def)
      show "capacity (diagnostics h') = capacity (diagnostics h)" by (simp add: h'_def h2_def)
      show "arena_end h' = arena_end h" by (simp add: h'_def h2_def)
      show "dseg (fragGetNext h') (fragGetPrev h') (lastp 0 (addrs (arena_start h) xs'))
             (of_nat cp) (addrs cp new) (hdp (addrs e ys) 0)"
        using ne fip(2)
        by (simp add: new_def h'_def h2_def acc_interlink prv_def[symmetric] Z_def[symmetric] a0_def)
      show "list_all (\<lambda>x. fragIsUsed h' (of_nat (fst x)) = snd (snd x)) (spans cp new)"
        using ne pu by (simp add: new_def h'_def h2_def acc_interlink prv_def[symmetric])
      show "{cp, c} \<subseteq> {cp..<e}" using cpc sz s32 by (auto simp add: e_def)
      show "fragGetNext h' q = fragGetNext h q" if "q \<notin> of_nat ` {cp, c}" for q
        using that ne by (simp add: h'_def h2_def acc_interlink prv_def[symmetric])
      show "fragIsUsed h' q = fragIsUsed h q" if "q \<notin> of_nat ` {cp, c}" for q
        using that ne by (simp add: h'_def h2_def acc_interlink prv_def[symmetric] frag_def[symmetric])
      show "fragGetPrev h' q = fragGetPrev h q" if "q \<notin> of_nat ` {cp, c}" "q \<noteq> of_nat e" for q
        using that ne by (auto simp add: h'_def h2_def acc_interlink Z_def hdp_addrs)
      show "fragGetPrev h' (of_nat e) = last (addrs cp new)" if "ys \<noteq> []"
        using that ne by (simp add: h'_def h2_def acc_interlink Z_def hdp_addrs new_def prv_def)
      show "bins_ok h' bl' (free_set (arena_start h) xs' \<union> free_set cp new \<union> free_set e ys)"
        using ok' by (simp add: new_def a0_def prv_def Un_commute insert_commute)
      show "naf (xs' @ new @ ys)"
        using nf L(2) by (auto simp add: fs xs new_def naf_append naf_cons)
      show "unat (allocated (diagnostics h')) = used_total (xs' @ new @ ys)"
        using al'u by (simp add: h'_def h2_def new_def fs xs)
      show "unat (allocated (diagnostics h')) \<le> unat (peak_allocated (diagnostics h'))"
        using al'u pk al by (simp add: h'_def h2_def)
      show "unat (peak_allocated (diagnostics h')) \<le> unat (capacity (diagnostics h))"
        "32 dvd unat (peak_allocated (diagnostics h'))"
        using pk by (simp_all add: h'_def h2_def)
    qed
    have lv: "live_set a0 (xs' @ new @ ys) = live_set a0 fs - {p}"
      using live'[of "[(s, False)]"] cpc
      by (simp add: new_def xs fs c add.assoc)
    have fu: "\<not> fragIsUsed h' frag"
      using ne frag0 by (simp add: h'_def h2_def acc_interlink)
    have ald: "allocated (diagnostics h') = al'" by (simp add: h'_def h2_def)
    show ?thesis
      using inv' lv p0 fu fu0 szu alu s32(1) ald
      by (intro exI[of _ "xs' @ new @ ys"] exI[of _ bl'])
        (simp add: h'_eq a0_def[symmetric] pf, simp add: h'_def h2_def)
  next
    case R
    from R(2) obtain sn ys' where ys: "ys = (sn, False) # ys'"
      by (cases ys) (auto simp add: prod_eq_iff)
    define nxt :: ptr where "nxt = of_nat (c + s)"
    define e where "e = c + s + sn"
    define Z :: ptr where "Z = hdp (addrs e ys') 0"
    have fs2: "fs = (xs @ [(s, True)]) @ (sn, False) # ys'" by (simp add: fs ys)
    have cn: "c + s = arena_start h + total (xs @ [(s, True)])" by (simp add: c a0_def)
    note fin = heap_inv_frag[OF inv fs2, folded cn, simplified]
    have sz: "32 \<le> sn" "32 dvd sn" using b(5) by (simp_all add: fs ys)
    have e64: "e < 2 ^ 64" "e \<le> a0 + total fs" using b(2) by (simp_all add: e_def c fs ys)
    define P :: ptr where "P = lastp 0 (addrs a0 xs)"
    have prvf: "fragGetPrev h frag = P" using fi(2) by (simp add: frag_def P_def)
    have nxtf: "fragGetNext h frag = nxt" using nx(4) by (simp add: frag_def nxt_def ys)
    have nz: "fragGetNext h nxt = Z" using fin(1) by (simp add: nxt_def Z_def hdp_addrs e_def)
    have pz: "fragGetSize h nxt = of_nat sn" using fin(4) by (simp add: nxt_def)
    have pu: "\<not> fragIsUsed h nxt" using fin(3) by (simp add: nxt_def)
    have jl: "P = 0 \<or> fragIsUsed h P" using pr(2) R(1) prvf by (auto simp add: frag_def)
    have Pf: "P \<noteq> frag" using pr(1) prvf by (simp add: frag_def)
    have ne: "nxt \<noteq> 0" "nxt \<noteq> frag" "Z \<noteq> frag" "Z \<noteq> nxt" "frag \<noteq> nxt"
      "(of_nat e :: ptr) \<noteq> 0"
      using fin(8) s64 sz s32 e64 fi(5)
      by (auto simp add: nxt_def frag_def Z_def hdp_addrs ptr_eq_iff ptr_zero_iff e_def)
    define h' where "h' = rebin (interlink (unbin h2 nxt (of_nat sn)) frag Z) frag (of_nat (s + sn))"
    have h'_eq: "o1heapFree h p = h'"
      using p0 ne pu jl Pf
      by (auto simp add: o1heapFree_def Let_def pf fsz prvf nxtf nz pz h'_def h2_def al'_def of_nat_add)
    define mid where "mid = [(s, True), (sn, False)]"
    define new where "new = [(s + sn, False)]"
    have fsm: "fs = xs @ mid @ ys'" by (simp add: fs ys mid_def)
    have szm: "sizes_ok xs" "sizes_ok ys'" using b(5) by (simp_all add: fsm)
    have FSm: "FS - {(nxt, sn)} = free_set a0 xs \<union> free_set e ys'"
    proof -
      have "free_set (a0 + total xs) mid = {(nxt, sn)}"
        by (simp add: mid_def nxt_def c)
      moreover have "free_set a0 (xs @ mid @ ys') - free_set (a0 + total xs) mid =
         free_set a0 xs \<union> free_set (a0 + total xs + total mid) ys'"
        by (rule free_set_minus_block) (use b in \<open>simp_all add: fsm\<close>)
      moreover have "a0 + total xs + total mid = e" by (simp add: mid_def e_def c)
      ultimately show ?thesis by (auto simp add: FS_def fsm)
    qed
    have memn: "(nxt, sn) \<in> FS" by (simp add: FS_def fs2 nxt_def c add.assoc)
    define bl1 where "bl1 = bl(bin_of sn := remove1 nxt (bl (bin_of sn)))"
    define bl' where "bl' = bl1(bin_of (s + sn) := frag # bl1 (bin_of (s + sn)))"
    have ok3: "bins_ok (unbin h2 nxt (of_nat sn)) bl1 (FS - {(nxt, sn)})"
      unfolding bl1_def by (rule unbin_ok[OF ok2 memn fp])
    have ok5: "bins_ok (interlink (unbin h2 nxt (of_nat sn)) frag Z) bl1
                (free_set a0 xs \<union> free_set e ys')"
      using ok3 frag0 by (simp add: bins_ok_interlink FSm)
    have ok': "bins_ok h' bl' (insert (frag, s + sn) (free_set a0 xs \<union> free_set e ys'))"
      unfolding h'_def bl'_def
    proof (rule rebin_ok[OF ok5])
      show "(frag, t) \<notin> free_set a0 xs \<union> free_set e ys'" for t
        unfolding frag_def by (rule free_set_fresh[OF szm]) (use e64 fin(6) sz s32 b(2) in \<open>simp_all add: e_def c a0_def\<close>)
      show "frag \<noteq> 0" using frag0 by simp
      show "\<And>b t. (b, t) \<in> free_set a0 xs \<union> free_set e ys' \<Longrightarrow> b \<noteq> 0"
        using fp(1) FSm by blast
      show "\<And>b t t'. (b, t) \<in> free_set a0 xs \<union> free_set e ys' \<Longrightarrow>
              (b, t') \<in> free_set a0 xs \<union> free_set e ys' \<Longrightarrow> t = t'"
        using fp(2) FSm by blast
    qed
    have inv': "heap_inv h' (xs @ new @ ys') bl'"
    proof (rule heap_commit[OF inv fsm, where c = c and e = e and W = "{c, c + s}"])
      show "mid \<noteq> []" "new \<noteq> []" by (simp_all add: mid_def new_def)
      show "c = arena_start h + total xs" by (simp add: c a0_def)
      show "e = c + total mid" by (simp add: e_def mid_def)
      show "sizes_ok new" using sz s32 by (simp add: new_def)
      show "total new = total mid" by (simp add: new_def mid_def)
      show "capacity (diagnostics h') = capacity (diagnostics h)" by (simp add: h'_def h2_def)
      show "arena_end h' = arena_end h" by (simp add: h'_def h2_def)
      show "dseg (fragGetNext h') (fragGetPrev h') (lastp 0 (addrs (arena_start h) xs))
             (of_nat c) (addrs c new) (hdp (addrs e ys') 0)"
        using ne frag0 prvf
        by (simp add: new_def h'_def h2_def acc_interlink frag_def[symmetric] Z_def[symmetric] a0_def P_def)
      show "list_all (\<lambda>x. fragIsUsed h' (of_nat (fst x)) = snd (snd x)) (spans c new)"
        using ne frag0 by (simp add: new_def h'_def h2_def acc_interlink frag_def[symmetric])
      show "{c, c + s} \<subseteq> {c..<e}" using sz s32 by (auto simp add: e_def)
      show "fragGetNext h' q = fragGetNext h q" if "q \<notin> of_nat ` {c, c + s}" for q
        using that ne frag0 by (simp add: h'_def h2_def acc_interlink frag_def[symmetric])
      show "fragIsUsed h' q = fragIsUsed h q" if "q \<notin> of_nat ` {c, c + s}" for q
        using that ne frag0 by (simp add: h'_def h2_def acc_interlink frag_def[symmetric])
      show "fragGetPrev h' q = fragGetPrev h q" if "q \<notin> of_nat ` {c, c + s}" "q \<noteq> of_nat e" for q
        using that ne frag0 by (auto simp add: h'_def h2_def acc_interlink Z_def hdp_addrs)
      show "fragGetPrev h' (of_nat e) = last (addrs c new)" if "ys' \<noteq> []"
        using that ne frag0 by (simp add: h'_def h2_def acc_interlink Z_def hdp_addrs new_def frag_def)
      show "bins_ok h' bl' (free_set (arena_start h) xs \<union> free_set c new \<union> free_set e ys')"
        using ok' by (simp add: new_def a0_def frag_def Un_commute insert_commute)
      show "naf (xs @ new @ ys')"
        using nf R(1) by (auto simp add: fs ys new_def naf_append naf_cons)
      show "unat (allocated (diagnostics h')) = used_total (xs @ new @ ys')"
        using al'u by (simp add: h'_def h2_def new_def fs ys)
      show "unat (allocated (diagnostics h')) \<le> unat (peak_allocated (diagnostics h'))"
        using al'u pk al by (simp add: h'_def h2_def)
      show "unat (peak_allocated (diagnostics h')) \<le> unat (capacity (diagnostics h))"
        "32 dvd unat (peak_allocated (diagnostics h'))"
        using pk by (simp_all add: h'_def h2_def)
    qed
    have lv: "live_set a0 (xs @ new @ ys') = live_set a0 fs - {p}"
      using live'[of "[(s, False)]"]
      by (simp add: new_def ys fs c add.assoc)
    have fu: "\<not> fragIsUsed h' frag"
      using ne frag0 by (simp add: h'_def h2_def acc_interlink)
    have ald: "allocated (diagnostics h') = al'" by (simp add: h'_def h2_def)
    show ?thesis
      using inv' lv p0 fu fu0 szu alu s32(1) ald
      by (intro exI[of _ "xs @ new @ ys'"] exI[of _ bl'])
        (simp add: h'_eq a0_def[symmetric] pf, simp add: h'_def h2_def)
  next
    case N
    define e where "e = c + s"
    define Z :: ptr where "Z = hdp (addrs e ys) 0"
    have e64: "e < 2 ^ 64" "e \<le> a0 + total fs" using b(2) by (simp_all add: e_def c fs)
    define P :: ptr where "P = lastp 0 (addrs a0 xs)"
    have prvf: "fragGetPrev h frag = P" using fi(2) by (simp add: frag_def P_def)
    have nxtf: "fragGetNext h frag = Z" using fi(1) by (simp add: frag_def Z_def hdp_addrs e_def)
    have jl: "P = 0 \<or> fragIsUsed h P" using pr(2) N(1) prvf by (auto simp add: frag_def)
    have jr: "Z = 0 \<or> fragIsUsed h Z" using nx(2) N(2) nxtf by (auto simp add: frag_def)
    have Pf: "P \<noteq> frag" "Z \<noteq> frag" using pr(1) prvf nx(1) nxtf by (simp_all add: frag_def)
    define h' where "h' = rebin h2 frag (of_nat s)"
    have h'_eq: "o1heapFree h p = h'"
      using p0 jl jr Pf
      by (auto simp add: o1heapFree_def Let_def pf fsz prvf nxtf h'_def h2_def al'_def)
    define mid where "mid = [(s, True)]"
    define new where "new = [(s, False)]"
    have fsm: "fs = xs @ mid @ ys" by (simp add: fs mid_def)
    have FSm: "FS = free_set a0 xs \<union> free_set e ys"
      by (simp add: FS_def fs e_def c)
    define bl' where "bl' = bl(bin_of s := frag # bl (bin_of s))"
    have ok': "bins_ok h' bl' (insert (frag, s) (free_set a0 xs \<union> free_set e ys))"
      unfolding h'_def bl'_def
    proof (rule rebin_ok[OF ok2[unfolded FSm]])
      show "(frag, t) \<notin> free_set a0 xs \<union> free_set e ys" for t
        unfolding frag_def by (rule free_set_fresh[OF szx]) (use e64 fi(6) s32 b(2) in \<open>simp_all add: e_def c a0_def\<close>)
      show "frag \<noteq> 0" using frag0 by simp
      show "\<And>b t. (b, t) \<in> free_set a0 xs \<union> free_set e ys \<Longrightarrow> b \<noteq> 0"
        using fp(1) FSm by blast
      show "\<And>b t t'. (b, t) \<in> free_set a0 xs \<union> free_set e ys \<Longrightarrow>
              (b, t') \<in> free_set a0 xs \<union> free_set e ys \<Longrightarrow> t = t'"
        using fp(2) FSm by blast
    qed
    have pvn: "fragGetPrev h (of_nat e) = frag" if "ys \<noteq> []"
    proof -
      have fs2: "fs = (xs @ [(s, True)]) @ hd ys # tl ys" using that by (simp add: fs)
      have cn: "e = arena_start h + total (xs @ [(s, True)])" by (simp add: e_def c a0_def)
      from heap_inv_prev(4)[OF inv fs2 cn refl] show ?thesis by (simp add: frag_def c a0_def)
    qed
    have inv': "heap_inv h' (xs @ new @ ys) bl'"
    proof (rule heap_commit[OF inv fsm, where c = c and e = e and W = "{c}"])
      show "mid \<noteq> []" "new \<noteq> []" by (simp_all add: mid_def new_def)
      show "c = arena_start h + total xs" by (simp add: c a0_def)
      show "e = c + total mid" by (simp add: e_def mid_def)
      show "sizes_ok new" using s32 by (simp add: new_def)
      show "total new = total mid" by (simp add: new_def mid_def)
      show "capacity (diagnostics h') = capacity (diagnostics h)" by (simp add: h'_def h2_def)
      show "arena_end h' = arena_end h" by (simp add: h'_def h2_def)
      show "dseg (fragGetNext h') (fragGetPrev h') (lastp 0 (addrs (arena_start h) xs))
             (of_nat c) (addrs c new) (hdp (addrs e ys) 0)"
        using prvf nxtf
        by (simp add: new_def h'_def h2_def frag_def[symmetric] Z_def[symmetric] a0_def P_def)
      show "list_all (\<lambda>x. fragIsUsed h' (of_nat (fst x)) = snd (snd x)) (spans c new)"
        by (simp add: new_def h'_def h2_def frag_def[symmetric])
      show "{c} \<subseteq> {c..<e}" using s32 by (auto simp add: e_def)
      show "fragGetNext h' q = fragGetNext h q" if "q \<notin> of_nat ` {c}" for q
        using that by (simp add: h'_def h2_def)
      show "fragIsUsed h' q = fragIsUsed h q" if "q \<notin> of_nat ` {c}" for q
        using that by (simp add: h'_def h2_def frag_def[symmetric])
      show "fragGetPrev h' q = fragGetPrev h q" if "q \<notin> of_nat ` {c}" "q \<noteq> of_nat e" for q
        using that by (simp add: h'_def h2_def)
      show "fragGetPrev h' (of_nat e) = last (addrs c new)" if "ys \<noteq> []"
        using pvn[OF that] by (simp add: h'_def h2_def new_def frag_def)
      show "bins_ok h' bl' (free_set (arena_start h) xs \<union> free_set c new \<union> free_set e ys)"
        using ok' by (simp add: new_def a0_def frag_def Un_commute insert_commute)
      show "naf (xs @ new @ ys)"
        using nf N by (auto simp add: fs new_def naf_append naf_cons)
      show "unat (allocated (diagnostics h')) = used_total (xs @ new @ ys)"
        using al'u by (simp add: h'_def h2_def new_def fs)
      show "unat (allocated (diagnostics h')) \<le> unat (peak_allocated (diagnostics h'))"
        using al'u pk al by (simp add: h'_def h2_def)
      show "unat (peak_allocated (diagnostics h')) \<le> unat (capacity (diagnostics h))"
        "32 dvd unat (peak_allocated (diagnostics h'))"
        using pk by (simp_all add: h'_def h2_def)
    qed
    have lv: "live_set a0 (xs @ new @ ys) = live_set a0 fs - {p}"
      using live'[of "[(s, False)]"]
      by (simp add: new_def fs c add.assoc)
    have fu: "\<not> fragIsUsed h' frag"
      using ne frag0 by (simp add: h'_def h2_def acc_interlink)
    have ald: "allocated (diagnostics h') = al'" by (simp add: h'_def h2_def)
    show ?thesis
      using inv' lv p0 fu fu0 szu alu s32(1) ald
      by (intro exI[of _ "xs @ new @ ys"] exI[of _ bl'])
        (simp add: h'_eq a0_def[symmetric] pf, simp add: h'_def h2_def)
  qed
qed

section \<open>Request sizes\<close>

lemma cand_bit: "bit (NOT (pow2 opt - 1)) j = (j < 64 \<and> opt \<le> j)"
proof -
  have "pow2 opt - 1 = (mask opt :: size_t)" by (simp add: pow2_def mask_eq_exp_minus_1)
  then show ?thesis by (auto simp add: bit_simps)
qed

lemma lowest_bit_nz:
  fixes x :: size_t
  assumes "x \<noteq> 0"
  shows "x AND NOT (x - 1) \<noteq> 0"
proof
  assume z: "x AND NOT (x - 1) = 0"
  have "x AND (x - 1) = x"
  proof (rule bit_eqI)
    fix j
    from z have "\<not> bit (x AND NOT (x - 1)) j" by simp
    then show "bit (x AND (x - 1)) j = bit x j" by (auto simp add: bit_simps dest: bit_imp_le_length)
  qed
  then have "x \<le> x - 1" by (metis word_and_le1)
  then have "unat x \<le> unat (x - 1)" by (simp add: word_le_nat_alt)
  moreover have "unat (x - 1) = unat x - 1" using assms by (simp add: unat_minus_one)
  moreover have "0 < unat x" using assms by (simp add: unat_gt_0)
  ultimately show False by simp
qed

lemma lowest_bit_sub: "bit (x AND NOT (x - 1)) j \<Longrightarrow> bit (x :: size_t) j"
  by (simp add: bit_simps)

lemma arena_start_diag:
  "capacity d = capacity (diagnostics h) \<Longrightarrow> arena_start (h\<lparr>diagnostics := d\<rparr>) = arena_start h"
  by (simp add: arena_start_def)

lemma heap_inv_diag:
  assumes "capacity d = capacity (diagnostics h)" "allocated d = allocated (diagnostics h)"
    "peak_allocated d = peak_allocated (diagnostics h)"
  shows "heap_inv (h\<lparr>diagnostics := d\<rparr>) fs bl = heap_inv h fs bl"
  using assms by (simp add: heap_inv_def arena_start_def)

lemma bins_ok_nonempty:
  assumes "bins_ok h bl FS" "i < 64"
  shows "bit (nonempty_bin_mask h) i = (\<exists>a s. (a, s) \<in> FS \<and> bin_of s = i)"
proof -
  from assms have s: "set (bl i) = {a. \<exists>s. (a, s) \<in> FS \<and> bin_of s = i}"
    and m: "bit (nonempty_bin_mask h) i = (bl i \<noteq> [])"
    by (simp_all add: bins_ok_def)
  have "(bl i \<noteq> []) = (set (bl i) \<noteq> {})" by simp
  also have "\<dots> = (\<exists>a s. (a, s) \<in> FS \<and> bin_of s = i)" unfolding s by blast
  finally show ?thesis using m by simp
qed

lemma request_size_pow:
  assumes cap: "unat cap \<le> 2 ^ 63" "32 \<le> unat cap" and n: "0 < n" "n \<le> cap - O1HEAP_ALIGNMENT"
  shows "\<exists>k. 5 \<le> k \<and> k < 64 \<and> request_size n = of_nat (2 ^ k) \<and> unat n + 16 \<le> 2 ^ k \<and>
           2 ^ (k - 1) < unat n + 16"
proof -
  have c16: "unat (cap - O1HEAP_ALIGNMENT) = unat cap - 16"
    using cap(2) by (simp add: consts_values unat_sub word_le_nat_alt)
  have nle: "unat n \<le> unat cap - 16" using n(2) c16 by (simp add: word_le_nat_alt)
  have n0: "0 < unat n" using n(1) by (simp add: word_less_nat_alt)
  have "unat n + 16 < 2 ^ 64" using nle cap by simp
  then have u: "unat (n + O1HEAP_ALIGNMENT) = unat n + 16"
    by (simp add: consts_values unat_word_ariths)
  have "2 \<le> unat (n + O1HEAP_ALIGNMENT)" "unat (n + O1HEAP_ALIGNMENT) \<le> 2 ^ 63"
    using u nle cap by simp_all
  from roundUp_bounds[OF this] obtain k where
    k: "0 < k" "k < 64" "unat (roundUpToPowerOf2 (n + O1HEAP_ALIGNMENT)) = 2 ^ k"
      "2 ^ (k - 1) < unat (n + O1HEAP_ALIGNMENT)" "unat (n + O1HEAP_ALIGNMENT) \<le> 2 ^ k"
    by blast
  have "(2::nat) ^ 4 < 2 ^ k" using k(5) u n0 by simp
  then have "4 < k" by (simp only: power_strict_increasing_iff rel_simps)
  then have k5: "5 \<le> k" by simp
  have "roundUpToPowerOf2 (n + O1HEAP_ALIGNMENT) = of_nat (unat (roundUpToPowerOf2 (n + O1HEAP_ALIGNMENT)))"
    by simp
  then have "request_size n = of_nat (2 ^ k)" by (simp only: k(3) request_size_def)
  then show ?thesis using k5 k(2,4,5) u by auto
qed

section \<open>o1heapAllocate preserves the invariant\<close>

lemma free_set_iff: "(\<exists>a. (a, s) \<in> free_set c fs) = ((s, False) \<in> set fs)"
proof (induction fs arbitrary: c)
  case Nil
  then show ?case by simp
next
  case (Cons f fs)
  show ?case using Cons[of "c + fst f"] by (cases f) auto
qed

lemma o1heapAllocate_inv:
  assumes inv: "heap_inv h fs bl" and r: "o1heapAllocate h n = (h', out)"
  shows "\<exists>fs' bl'. heap_inv h' fs' bl' \<and>
           capacity (diagnostics h') = capacity (diagnostics h) \<and> arena_end h' = arena_end h \<and>
           peak_request_size (diagnostics h') = larger (peak_request_size (diagnostics h)) n \<and>
           (out \<noteq> 0) = fits h fs n \<and>
           (out = 0 \<longrightarrow> fs' = fs \<and> bl' = bl \<and>
              h' = h\<lparr>diagnostics := (diagnostics h)\<lparr>
                     peak_request_size := larger (peak_request_size (diagnostics h)) n,
                     oom_count := oom_count (diagnostics h) + (if n = 0 then 0 else 1)\<rparr>\<rparr>) \<and>
           (out \<noteq> 0 \<longrightarrow> 
              out \<notin> live_set (arena_start h) fs \<and>
              live_set (arena_start h) fs' = insert out (live_set (arena_start h) fs) \<and>
              oom_count (diagnostics h') = oom_count (diagnostics h) \<and>
              payload h' = payload h \<and>
              unat (peak_allocated (diagnostics h)) \<le> unat (peak_allocated (diagnostics h')) \<and>
              unat n + 16 \<le> unat (peak_allocated (diagnostics h')))"
proof -
  define alloc where "alloc = roundUpToPowerOf2 (n + O1HEAP_ALIGNMENT)"
  define opt where "opt = log2Floor (alloc div FRAGMENT_SIZE_MIN)"
  define suitable where "suitable = nonempty_bin_mask h AND NOT (pow2 opt - 1)"
  define sm where "sm = suitable AND NOT (suitable - 1)"
  define guard where "guard = (0 < n \<and> n \<le> capacity (diagnostics h) - O1HEAP_ALIGNMENT)"
  define fin :: "heap \<times> ptr \<Rightarrow> heap \<times> ptr" where
    "fin = (\<lambda>(h1, out).
       if out = 0 \<and> 0 < n
       then (h1\<lparr>diagnostics := (diagnostics h1)\<lparr>peak_request_size := larger (peak_request_size (diagnostics h1)) n,
                 oom_count := oom_count (diagnostics h1) + 1\<rparr>\<rparr>, out)
       else (h1\<lparr>diagnostics := (diagnostics h1)\<lparr>peak_request_size := larger (peak_request_size (diagnostics h1)) n\<rparr>\<rparr>, out))"
  have unf: "o1heapAllocate h n =
      fin (if guard then (if sm \<noteq> 0 then allocate_from_bin h alloc sm else (h, 0)) else (h, 0))"
    by (simp add: o1heapAllocate_def Let_def fin_def guard_def sm_def suitable_def opt_def alloc_def
        split_def)
  from inv have capb: "32 \<le> unat (capacity (diagnostics h))" "unat (capacity (diagnostics h)) \<le> 2 ^ 63"
    and ok: "bins_ok h bl (free_set (arena_start h) fs)"
    by (simp_all add: heap_inv_def)
  have fail: ?thesis if nf: "\<not> fits h fs n" and
    res: "o1heapAllocate h n = fin (h, 0)"
  proof -
    have h': "h' = h\<lparr>diagnostics := (diagnostics h)\<lparr>
                     peak_request_size := larger (peak_request_size (diagnostics h)) n,
                     oom_count := oom_count (diagnostics h) + (if n = 0 then 0 else 1)\<rparr>\<rparr>"
      and out: "out = 0"
      using r res by (auto simp add: fin_def word_gt_0 split: if_splits)
    have "heap_inv h' fs bl" unfolding h' using inv by (simp add: heap_inv_diag)
    then show ?thesis using nf out h' by (intro exI[of _ fs] exI[of _ bl]) simp
  qed
  show ?thesis
  proof (cases guard)
    case False
    then have "\<not> fits h fs n" by (auto simp add: fits_def guard_def)
    then show ?thesis by (rule fail) (simp add: unf False)
  next
    case True
    from request_size_pow[OF capb(2,1)] True obtain k where
      k: "5 \<le> k" "k < 64" "request_size n = of_nat (2 ^ k)" "unat n + 16 \<le> 2 ^ k"
      by (auto simp add: guard_def)
    have lt: "(2::nat) ^ k < 2 ^ 64" by (rule power_strict_increasing) (use k in simp_all)
    have alloc: "alloc = of_nat (2 ^ k)" using k(3) by (simp add: alloc_def request_size_def)
    have uq: "unat (request_size n) = 2 ^ k" unfolding k(3) using lt by (rule unat_of_nat64)
    have opt: "opt = k - 5" unfolding opt_def alloc using bin_of_pow2[OF k(1,2)] by (simp add: bin_of_def)
    have bq: "bin_of (unat (request_size n)) = k - 5" by (simp add: uq bin_of_pow2[OF k(1,2)])
    have sbit: "bit suitable j = (bit (nonempty_bin_mask h) j \<and> k - 5 \<le> j)" for j
      by (auto simp add: suitable_def bit_and_iff cand_bit opt dest: bit_imp_le_length)
    have fits_iff: "fits h fs n = (\<exists>j. bit (nonempty_bin_mask h) j \<and> k - 5 \<le> j)"
    proof
      assume "fits h fs n"
      then obtain f where f: "f \<in> set fs" "\<not> snd f" "k - 5 \<le> bin_of (fst f)"
        by (auto simp add: fits_def bq)
      have "(fst f, False) = f" using f(2) by (simp add: prod_eq_iff)
      then have "(fst f, False) \<in> set fs" using f(1) by simp
      then obtain a where "(a, fst f) \<in> free_set (arena_start h) fs"
        using free_set_iff by blast
      then have "bit (nonempty_bin_mask h) (bin_of (fst f))"
        using bins_ok_nonempty[OF ok bin_of_lt] by blast
      then show "\<exists>j. bit (nonempty_bin_mask h) j \<and> k - 5 \<le> j" using f(3) by blast
    next
      assume "\<exists>j. bit (nonempty_bin_mask h) j \<and> k - 5 \<le> j"
      then obtain j where j: "bit (nonempty_bin_mask h) j" "k - 5 \<le> j" by blast
      have "j < 64" using j(1) by (auto dest: bit_imp_le_length)
      from bins_ok_nonempty[OF ok this] j(1) obtain a s where
        as: "(a, s) \<in> free_set (arena_start h) fs" "bin_of s = j" by blast
      then have "(s, False) \<in> set fs" using free_set_iff by blast
      then show "fits h fs n" using True j(2) as(2) by (force simp add: fits_def guard_def bq)
    qed
    show ?thesis
    proof (cases "sm = 0")
      case z: True
      have "suitable = 0" using lowest_bit_nz[of suitable] z by (auto simp add: sm_def)
      then have "\<not> bit suitable j" for j by simp
      then have "\<not> fits h fs n" using fits_iff sbit by simp
      then show ?thesis by (rule fail) (simp add: unf z True)
    next
      case nz: False
      have b1: "bit sm (log2Floor sm)" using nz by (rule log2Floor_bit)
      then have "bit suitable (log2Floor sm)" unfolding sm_def by (rule lowest_bit_sub)
      then have bt: "bit (nonempty_bin_mask h) (log2Floor sm)" and i: "k - 5 \<le> log2Floor sm"
        by (simp_all add: sbit)
      have ft: "fits h fs n" using fits_iff bt i by blast
      obtain h1 out1 where r1: "allocate_from_bin h (of_nat (2 ^ k)) sm = (h1, out1)"
        by (cases "allocate_from_bin h (of_nat (2 ^ k)) sm") 
      from allocate_from_bin_inv[OF inv k(1,2) i bt r1] obtain fs' bl' where
        a: "heap_inv h1 fs' bl'" "out1 \<noteq> 0" "out1 \<notin> live_set (arena_start h) fs"
          "live_set (arena_start h) fs' = insert out1 (live_set (arena_start h) fs)"
          "peak_request_size (diagnostics h1) = peak_request_size (diagnostics h)"
          "oom_count (diagnostics h1) = oom_count (diagnostics h)"
          "capacity (diagnostics h1) = capacity (diagnostics h)"
          "arena_end h1 = arena_end h" "payload h1 = payload h"
          "unat (peak_allocated (diagnostics h)) \<le> unat (peak_allocated (diagnostics h1))"
          "2 ^ k \<le> unat (peak_allocated (diagnostics h1))"
        by blast
      have res: "o1heapAllocate h n = fin (h1, out1)"
        using r1 by (simp only: unf True nz alloc if_True if_False not_False_eq_True)
      have h': "h' = h1\<lparr>diagnostics := (diagnostics h1)\<lparr>peak_request_size := larger (peak_request_size (diagnostics h1)) n\<rparr>\<rparr>"
        and out: "out = out1"
        using r res a(2) by (simp_all add: fin_def)
      have "heap_inv h' fs' bl'" unfolding h' using a(1) by (simp add: heap_inv_diag)
      then show ?thesis using ft out a k(4)
        by (intro exI[of _ fs'] exI[of _ bl']) (simp add: h')
    qed
  qed
qed

section \<open>o1heapInit establishes the invariant\<close>

lemma init_inv:
  assumes i: "o1heapInit mem dat base sz = Some h" and ao: "arena_object base sz"
  shows "\<exists>bl. heap_inv h [(unat (capacity (diagnostics h)), False)] bl"
    and "allocated (diagnostics h) = 0" "peak_allocated (diagnostics h) = 0"
    "peak_request_size (diagnostics h) = 0" "oom_count (diagnostics h) = 0"
proof -
  define cap where "cap = capacity (diagnostics h)"
  define frag where "frag = base + INSTANCE_SIZE_PADDED"
  define out where "out = \<lparr>bins = (\<lambda>i. NULL), nonempty_bin_mask = 0, arena_end = frag + cap,
                    diagnostics = \<lparr>capacity = cap, allocated = 0, peak_allocated = 0,
                                    peak_request_size = 0, oom_count = 0\<rparr>,
                    frags = mem, payload = dat\<rparr>"
  define h3 where "h3 = fragSetUsed (fragSetPrev (fragSetNext out frag NULL) frag NULL) frag False"
  define h5 where "h5 = h3\<lparr>frags := (frags h3)(frag := (frags h3 frag)\<lparr>next_free := NULL, prev_free := NULL\<rparr>)\<rparr>"
  note cb = init_capacity[OF i, folded cap_def]
  have g: "base \<noteq> 0" "base mod O1HEAP_ALIGNMENT = 0" "o1heapMinArenaSize \<le> sz"
    using i by (simp_all add: o1heapInit_def split: if_splits)
  have capv: "cap = align_capacity (if sz - INSTANCE_SIZE_PADDED > FRAGMENT_SIZE_MAX then FRAGMENT_SIZE_MAX
                 else sz - INSTANCE_SIZE_PADDED)"
    using i by (auto simp add: o1heapInit_def Let_def cap_def split: if_splits)
  have h: "h = rebin h5 frag cap"
    using i g by (simp add: o1heapInit_def Let_def capv[symmetric] frag_def h5_def h3_def out_def)
  have d: "diagnostics h = \<lparr>capacity = cap, allocated = 0, peak_allocated = 0,
                                    peak_request_size = 0, oom_count = 0\<rparr>"
    "arena_end h = frag + cap"
    by (simp_all add: h h5_def h3_def out_def)
  show "allocated (diagnostics h) = 0" "peak_allocated (diagnostics h) = 0"
    "peak_request_size (diagnostics h) = 0" "oom_count (diagnostics h) = 0"
    by (simp_all add: d)
  have s1: "608 \<le> unat sz" using g(3) by (simp add: consts_values word_le_nat_alt)
  have s2: "unat (sz - INSTANCE_SIZE_PADDED) = unat sz - 576"
    using s1 by (simp add: consts_values unat_sub word_le_nat_alt)
  have "unat cap \<le> unat (if sz - INSTANCE_SIZE_PADDED > FRAGMENT_SIZE_MAX then FRAGMENT_SIZE_MAX
                 else sz - INSTANCE_SIZE_PADDED)"
    unfolding capv align_capacity_unat by simp
  also have "\<dots> \<le> unat sz - 576" using s2 by (auto simp add: word_less_nat_alt)
  finally have cle: "unat cap \<le> unat sz - 576" .
  have bs: "unat base + unat sz < 2 ^ 64" using ao by (simp add: arena_object_def)
  have fu: "unat frag = unat base + 576"
    using bs s1 by (simp add: frag_def consts_values unat_word_ariths)
  have eu: "unat (frag + cap) = unat base + 576 + unat cap"
  proof -
    have "unat frag + unat cap < 2 ^ 64" using fu cle bs s1 by simp
    then show ?thesis using fu by (simp add: unat_word_ariths)
  qed
  have b0: "0 < unat base" using g(1) by (simp add: unat_gt_0)
  have a0: "arena_start h = unat base + 576" by (simp add: arena_start_def d eu)
  have fr: "frag = of_nat (unat base + 576)" using fu by (metis of_nat_unat64)
  have b16: "16 dvd unat base"
  proof -
    have "unat (base mod 16) = unat base mod 16" by (simp add: unat_mod)
    then show ?thesis using g(2) by (simp add: consts_values dvd_eq_mod_eq_0)
  qed
  have f0: "frag \<noteq> 0" using fu by (auto simp add: unat_eq_zero[symmetric] simp del: unat_eq_zero)
  have "even (unat base + 576)" using b16 by (auto elim: dvdE)
  then have f1: "frag AND 1 = 0" unfolding fr by (rule w7)
  have capn: "cap = of_nat (unat cap)" by simp
  have ok5: "bins_ok h5 (\<lambda>i. []) {}"
    by (simp add: bins_ok_def h5_def h3_def out_def)
  have ok: "bins_ok h ((\<lambda>i. [])(bin_of (unat cap) := [frag])) {(frag, unat cap)}"
    using rebin_ok[OF ok5, of frag "unat cap"] f0 by (simp add: h)
  have v: "nextf (frags h) frag = 0" "prevf (frags h) frag = 0" "\<not> usedf (frags h) frag"
    by (simp_all add: h rebin_view h5_def h3_def fragSetPrev_view view_store)
  have "heap_inv h [(unat cap, False)] ((\<lambda>i. [])(bin_of (unat cap) := [frag]))"
    unfolding heap_inv_def
    using cb ok v b0 b16
    by (simp add: d eu a0 chain_v_def fr[symmetric])
  then show "\<exists>bl. heap_inv h [(unat (capacity (diagnostics h)), False)] bl"
    unfolding cap_def by blast
qed

section \<open>Sequences of allocations and releases\<close>

lemma live_set_nonnull:
  assumes inv: "heap_inv h fs bl" and p: "p \<in> live_set (arena_start h) fs"
  shows "p \<noteq> 0"
  using o1heapFree_inv[OF inv p] by blast

lemma arena_start_eq:
  "capacity (diagnostics h') = capacity (diagnostics h) \<Longrightarrow> arena_end h' = arena_end h \<Longrightarrow>
   arena_start h' = arena_start h"
  by (simp add: arena_start_def)

lemma step_allocate:
  assumes "run_inv h live" "o1heapAllocate h n = (h', out)"
  shows "run_inv h' (live_after live (Allocate n) out)"
proof -
  from assms(1) obtain fs bl where inv: "heap_inv h fs bl" and l: "set live = live_set (arena_start h) fs"
    by (auto simp add: run_inv_def)
  from o1heapAllocate_inv[OF inv assms(2)] obtain fs' bl' where
    a: "heap_inv h' fs' bl'" "capacity (diagnostics h') = capacity (diagnostics h)"
      "arena_end h' = arena_end h" "out = 0 \<longrightarrow> fs' = fs"
      "out \<noteq> 0 \<longrightarrow> live_set (arena_start h) fs' = insert out (live_set (arena_start h) fs)"
    by blast
  have s: "arena_start h' = arena_start h" using a(2,3) by (rule arena_start_eq)
  show ?thesis unfolding run_inv_def
    using a(1,4,5) l by (intro exI[of _ fs'] exI[of _ bl']) (auto simp add: s)
qed

lemma step_free:
  assumes "run_inv h live" "p = 0 \<or> p \<in> set live"
  shows "run_inv (o1heapFree h p) (removeAll p live)"
proof -
  from assms(1) obtain fs bl where inv: "heap_inv h fs bl" and l: "set live = live_set (arena_start h) fs"
    by (auto simp add: run_inv_def)
  show ?thesis
  proof (cases "p = 0")
    case True
    have "0 \<notin> set live" using live_set_nonnull[OF inv] l by blast
    then have "removeAll p live = live" using True by simp
    moreover have "o1heapFree h p = h" using True by (simp add: o1heapFree_def)
    ultimately show ?thesis using assms(1) by simp
  next
    case False
    then have "p \<in> live_set (arena_start h) fs" using assms(2) l by simp
    from o1heapFree_inv[OF inv this] obtain fs' bl' where
      a: "heap_inv (o1heapFree h p) fs' bl'"
        "live_set (arena_start h) fs' = live_set (arena_start h) fs - {p}"
        "capacity (diagnostics (o1heapFree h p)) = capacity (diagnostics h)"
        "arena_end (o1heapFree h p) = arena_end h"
      by blast
    have s: "arena_start (o1heapFree h p) = arena_start h" using a(3,4) by (rule arena_start_eq)
    show ?thesis unfolding run_inv_def
      using a(1,2) l by (intro exI[of _ fs'] exI[of _ bl']) (auto simp add: s)
  qed
qed

lemma run_allocates:
  "run_inv h live \<Longrightarrow> run (h, live) (map Allocate ns @ cs) = Some t \<Longrightarrow>
   \<exists>h' live'. run_inv h' live' \<and> run (h', live') cs = Some t"
proof (induction ns arbitrary: h live)
  case Nil
  then show ?case by auto
next
  case (Cons n ns)
  obtain h1 out where r: "o1heapAllocate h n = (h1, out)" by (cases "o1heapAllocate h n")
  from Cons.prems(2) have "run (h1, live_after live (Allocate n) out) (map Allocate ns @ cs) = Some t"
    by (auto simp add: r Let_def split: if_splits)
  from Cons.IH[OF step_allocate[OF Cons.prems(1) r] this] show ?case .
qed

lemma run_frees:
  "run_inv h live \<Longrightarrow> run (h, live) (map Free ps) = Some (h', live') \<Longrightarrow> run_inv h' live'"
proof (induction ps arbitrary: h live)
  case Nil
  then show ?case by simp
next
  case (Cons p ps)
  from Cons.prems(2) have ok: "p = 0 \<or> p \<in> set live"
    and r: "run (o1heapFree h p, removeAll p live) (map Free ps) = Some (h', live')"
    by (simp_all split: if_splits)
  from Cons.IH[OF step_free[OF Cons.prems(1) ok] r] show ?case .
qed

lemma live_set_empty: "live_set a fs = {} \<Longrightarrow> \<forall>f \<in> set fs. \<not> snd f"
proof (induction fs arbitrary: a)
  case Nil
  then show ?case by simp
next
  case (Cons f fs)
  from Cons.prems have "\<not> snd f" "live_set (a + fst f) fs = {}" by (auto split: if_splits)
  then show ?case using Cons.IH by auto
qed

lemma drained_layout:
  assumes inv: "heap_inv h fs bl" and e: "live_set (arena_start h) fs = {}"
  shows "fs = [(unat (capacity (diagnostics h)), False)]"
proof -
  from inv have nf: "naf fs" and t: "total fs = unat (capacity (diagnostics h))"
    and c: "32 \<le> unat (capacity (diagnostics h))"
    by (simp_all add: heap_inv_def)
  have fr: "\<forall>f \<in> set fs. \<not> snd f" using e by (rule live_set_empty)
  from naf_all_free[OF nf fr] have "length fs \<le> 1" .
  moreover have "fs \<noteq> []" using t c by auto
  ultimately obtain f where f: "fs = [f]" by (cases fs) auto
  then have "fst f = unat (capacity (diagnostics h))" "\<not> snd f" using t fr by simp_all
  then show ?thesis using f by (simp add: prod_eq_iff)
qed

lemma max_allocation_fits:
  assumes inv: "heap_inv h [(unat (capacity (diagnostics h)), False)] bl"
  shows "fits h [(unat (capacity (diagnostics h)), False)] (o1heapGetMaxAllocationSize h)"
proof -
  define cap where "cap = capacity (diagnostics h)"
  define K where "K = log2Floor cap"
  from inv have cb: "32 \<le> unat cap" "unat cap \<le> 2 ^ 63" by (simp_all add: heap_inv_def cap_def)
  have cnz: "cap \<noteq> 0" using cb(1) by auto
  note lb = log2Floor_bounds[OF cnz, folded K_def]
  have "(2::nat) ^ 5 \<le> unat cap" using cb(1) by simp
  from pow2_sandwich[OF this lb(3)] have K5: "5 \<le> K" .
  have pK: "unat (pow2 K) = 2 ^ K" using lb(1) by (rule unat_pow2)
  have "(2::nat) ^ 5 \<le> 2 ^ K" using K5 by (intro power_increasing) simp_all
  then have p32: "32 \<le> unat (pow2 K)" by (simp add: pK)
  define m where "m = o1heapGetMaxAllocationSize h"
  have m: "m = pow2 K - 16" by (simp add: m_def o1heapGetMaxAllocationSize_def K_def cap_def consts_values)
  have mu: "unat m = 2 ^ K - 16"
    using p32 by (simp add: m unat_sub word_le_nat_alt pK)
  have kk: "(2::nat) ^ K \<ge> 32" using p32 pK by simp
  have m0: "0 < m" using mu kk by (simp add: word_less_nat_alt)
  have c16: "unat (cap - O1HEAP_ALIGNMENT) = unat cap - 16"
    using cb(1) by (simp add: consts_values unat_sub word_le_nat_alt)
  have mle: "m \<le> cap - O1HEAP_ALIGNMENT" using mu c16 lb(2) by (simp add: word_le_nat_alt)
  from request_size_pow[OF cb(2,1) m0 mle] obtain k where
    k: "5 \<le> k" "k < 64" "request_size m = of_nat (2 ^ k)" "unat m + 16 \<le> 2 ^ k" "2 ^ (k - 1) < unat m + 16"
    by blast
  have s: "unat m + 16 = 2 ^ K" using mu kk by simp
  have "K \<le> k" using k(4) unfolding s by (simp only: power_increasing_iff rel_simps)
  moreover have "k - 1 < K" using k(5) unfolding s by (simp only: power_strict_increasing_iff rel_simps)
  ultimately have kK: "k = K" using k(1) by simp
  have lt: "(2::nat) ^ K < 2 ^ 64" by (rule power_strict_increasing) (use lb(1) in simp_all)
  have uq: "unat (request_size m) = 2 ^ K" unfolding k(3) kK using lt by (rule unat_of_nat64)
  have bq: "bin_of (unat (request_size m)) = K - 5" using bin_of_pow2[OF K5 lb(1)] by (simp add: uq)
  have c64: "unat cap < 2 ^ 64" using cb(2) by simp
  from bin_of_bounds(2)[OF cb(1) c64] have "unat cap < 2 ^ 5 * 2 ^ Suc (bin_of (unat cap))" by simp
  then have "unat cap < 2 ^ Suc (bin_of (unat cap) + 5)" by (simp only: power_add[symmetric]) (simp add: add.commute)
  from pow2_sandwich[OF lb(2) this] have "K - 5 \<le> bin_of (unat cap)" by simp
  then show ?thesis using m0 mle bq by (simp add: fits_def cap_def[symmetric] m_def[symmetric])
qed

lemma init_run_inv:
  assumes "arena_object base sz" "o1heapInit mem dat base sz = Some h"
  shows "run_inv h []"
proof -
  from init_inv(1)[OF assms(2,1)] obtain bl where "heap_inv h [(unat (capacity (diagnostics h)), False)] bl"
    by blast
  then show ?thesis unfolding run_inv_def
    by (intro exI[of _ "[(unat (capacity (diagnostics h)), False)]"] exI[of _ bl]) simp
qed

section \<open>Draining the heap\<close>

text \<open>
  C3. Drain to empty. On a heap that \<open>o1heapInit\<close> has just set up, perform any number of
  \<open>o1heapAllocate\<close> calls and then \<open>o1heapFree\<close> calls, each on a live pointer (or
  NULL), until no live pointer remains. Then \<open>allocated\<close> is zero again and an
  \<open>o1heapAllocate\<close> of \<open>o1heapGetMaxAllocationSize\<close> bytes returns a non-NULL pointer.
\<close>

theorem drain_to_empty:
  assumes "arena_object base sz" and "o1heapInit mem dat base sz = Some h0"
    and "run (h0, []) (map Allocate ns @ map Free ps) = Some (h, [])"
  shows "allocated (diagnostics h) = 0 \<and>
         snd (o1heapAllocate h (o1heapGetMaxAllocationSize h)) \<noteq> NULL"
proof -
  from run_allocates[OF init_run_inv[OF assms(1,2)] assms(3)] obtain h1 live1 where
    1: "run_inv h1 live1" "run (h1, live1) (map Free ps) = Some (h, [])" by blast
  from run_frees[OF 1] obtain fs bl where
    inv: "heap_inv h fs bl" and e: "live_set (arena_start h) fs = {}"
    by (auto simp add: run_inv_def)
  note fs = drained_layout[OF inv e]
  from inv have "unat (allocated (diagnostics h)) = used_total fs" by (simp add: heap_inv_def)
  then have a0: "allocated (diagnostics h) = 0" by (simp add: fs unat_eq_zero)
  obtain h' out where r: "o1heapAllocate h (o1heapGetMaxAllocationSize h) = (h', out)"
    by (cases "o1heapAllocate h (o1heapGetMaxAllocationSize h)")
  from o1heapAllocate_inv[OF inv r] have "(out \<noteq> 0) = fits h fs (o1heapGetMaxAllocationSize h)"
    by blast
  then have "out \<noteq> 0" using max_allocation_fits[OF inv[unfolded fs]] by (simp add: fs)
  then show ?thesis using a0 r by simp
qed

theorem drain_to_empty_witness:
  "allocated (diagnostics (after heap4096 [Allocate 1, Allocate 100, Free 4688, Free 4720])) = 0 \<and>
   snd (o1heapAllocate (after heap4096 [Allocate 1, Allocate 100, Free 4688, Free 4720])
     (o1heapGetMaxAllocationSize (after heap4096 [Allocate 1, Allocate 100, Free 4688, Free 4720]))) \<noteq> NULL"
proof -
  have ao: "arena_object 4096 (576 + 4096)" by (simp add: arena_object_def)
  have n: "run (heap4096, []) [Allocate 1, Allocate 100, Free 4688, Free 4720] \<noteq> None"
    by code_simp
  have l: "snd (the (run (heap4096, []) [Allocate 1, Allocate 100, Free 4688, Free 4720])) = []"
    by code_simp
  from n obtain t where t: "run (heap4096, []) [Allocate 1, Allocate 100, Free 4688, Free 4720] = Some t"
    by blast
  have a: "after heap4096 [Allocate 1, Allocate 100, Free 4688, Free 4720] = fst t"
    by (simp only: after_def t option.sel)
  have b: "snd t = []" using l by (simp only: t option.sel)
  have c: "t = (after heap4096 [Allocate 1, Allocate 100, Free 4688, Free 4720], [])"
    by (simp only: a b[symmetric] prod.collapse)
  have e: "map Allocate [1, 100] @ map Free [4688, 4720] =
        [Allocate 1, Allocate 100, Free 4688, Free 4720]" by simp
  have r: "run (heap4096, []) (map Allocate [1, 100] @ map Free [4688, 4720]) =
        Some (after heap4096 [Allocate 1, Allocate 100, Free 4688, Free 4720], [])"
    unfolding e using t c by (simp only:)
  from drain_to_empty[OF ao heap4096_init r] show ?thesis .
qed

section \<open>o1heapReallocate: shrinking in place\<close>

lemma heap_inv_memcpy [simp]: "heap_inv (memcpy h d s n) fs bl = heap_inv h fs bl"
  by (simp add: heap_inv_def arena_start_def bins_ok_def)

lemma heap_inv_memmove [simp]: "heap_inv (memmove h d s n) fs bl = heap_inv h fs bl"
  by (simp add: heap_inv_def arena_start_def bins_ok_def)

lemma min_cmp:
  "d < 2 ^ 64 \<Longrightarrow> (FRAGMENT_SIZE_MIN \<le> (of_nat d :: size_t)) = (32 \<le> d)"
proof -
  assume "d < 2 ^ 64"
  then have "((of_nat 32 :: size_t) \<le> of_nat d) = (32 \<le> d)"
    by (intro of_nat_le64) simp_all
  then show ?thesis by (simp add: consts_values)
qed

lemma dvd32_gap: "32 dvd (a::nat) \<Longrightarrow> 32 dvd b \<Longrightarrow> b \<le> a \<Longrightarrow> \<not> 32 \<le> a - b \<Longrightarrow> a = b"
proof (rule ccontr)
  assume a: "32 dvd a" "32 dvd b" "b \<le> a" "\<not> 32 \<le> a - b" "a \<noteq> b"
  have "32 dvd (a - b)" using a(1,2) by (rule dvd_diff_nat)
  moreover have "0 < a - b" using a(3,5) by simp
  ultimately have "32 \<le> a - b" by (auto elim!: dvdE)
  then show False using a(4) by simp
qed

lemma realloc_shrink_inv:
  assumes inv: "heap_inv h fs bl" and fs: "fs = xs @ (s, True) # ys"
    and c: "c = arena_start h + total xs"
    and need: "32 \<le> need" "32 dvd need" "need \<le> s"
    and nif: "nif = (ys \<noteq> [] \<and> \<not> snd (hd ys))"
    and nsz: "nsz = (if nif then of_nat (fst (hd ys)) else 0)"
    and h': "h' = realloc_shrink h (of_nat c) (of_nat s) (of_nat need) (fragGetNext h (of_nat c)) nif nsz"
  shows "\<exists>fs' bl'. heap_inv h' fs' bl' \<and>
           live_set (arena_start h) fs' = live_set (arena_start h) fs \<and>
           peak_request_size (diagnostics h') = peak_request_size (diagnostics h) \<and>
           oom_count (diagnostics h') = oom_count (diagnostics h) \<and>
           peak_allocated (diagnostics h') = peak_allocated (diagnostics h) \<and>
           capacity (diagnostics h') = capacity (diagnostics h) \<and>
           arena_end h' = arena_end h \<and> payload h' = payload h \<and>
           need \<le> unat (peak_allocated (diagnostics h'))"
proof -
  define a0 where "a0 = arena_start h"
  note b = heap_inv_bounds[OF inv, folded a0_def]
  note c' = c[folded a0_def]
  note fi = heap_inv_frag[OF inv fs, folded a0_def, folded c', simplified]
  note nx = heap_inv_next[OF inv fs c, simplified]
  have s32: "32 \<le> s" "32 dvd s" using b(5) fs by simp_all
  have cs: "c + s \<le> a0 + total fs" using fi(6) by simp
  have s64: "s < 2 ^ 64" "c < 2 ^ 64" "c + s < 2 ^ 64" using cs b(2) by simp_all
  define frag :: ptr where "frag = of_nat c"
  have frag0: "frag \<noteq> 0" "frag AND 1 = 0" using fi(8,9) by (simp_all add: frag_def)
  define FS where "FS = free_set a0 fs"
  from inv have ok: "bins_ok h bl FS" by (simp add: heap_inv_def FS_def a0_def)
  note fp = free_set_props[OF inv, folded a0_def, folded FS_def]
  have al: "unat (allocated (diagnostics h)) = used_total fs"
    and pk: "unat (allocated (diagnostics h)) \<le> unat (peak_allocated (diagnostics h))"
      "unat (peak_allocated (diagnostics h)) \<le> unat (capacity (diagnostics h))"
      "32 dvd unat (peak_allocated (diagnostics h))"
    and nf: "naf fs"
    using inv by (simp_all add: heap_inv_def)
  have us: "s \<le> used_total fs" by (simp add: fs)
  have npk: "need \<le> unat (peak_allocated (diagnostics h))" using need(3) us al pk(1) by simp
  define lo where "lo = s - need"
  have lo64: "lo < 2 ^ 64" using s64 by (simp add: lo_def)
  have lo_eq: "(of_nat s :: size_t) - of_nat need = of_nat lo" using need(3) by (simp add: lo_def)
  have lo_cmp: "(FRAGMENT_SIZE_MIN \<le> (of_nat lo :: size_t)) = (32 \<le> lo)" using lo64 by (rule min_cmp)
  define al' where "al' = allocated (diagnostics h) - of_nat lo"
  have al'u: "unat al' = used_total fs - lo"
  proof -
    have "used_total fs \<le> total fs" by (rule used_total_le)
    then have "used_total fs < 2 ^ 64" using b(2) by simp
    then have "unat (of_nat (used_total fs - lo) :: size_t) = used_total fs - lo"
      by (intro unat_of_nat64) simp
    moreover have "al' = of_nat (used_total fs - lo)"
      using us by (simp add: al'_def al[symmetric] of_nat_diff lo_def)
    ultimately show ?thesis by simp
  qed
  have szx: "sizes_ok xs" "sizes_ok ys" using b(5) fs by simp_all
  show ?thesis
  proof (cases "32 \<le> lo")
    case False
    have "h' = h" using False by (simp add: h' realloc_shrink_def Let_def lo_eq lo_cmp)
    then show ?thesis using inv npk by (intro exI[of _ fs] exI[of _ bl]) simp
  next
    case True
    define nb where "nb = c + need"
    define nfp :: ptr where "nfp = of_nat nb"
    have nb: "c < nb" "nb < c + s" "nb < 2 ^ 64" "nb + lo = c + s"
      using True need s64 by (simp_all add: nb_def lo_def)
    have nfp_eq: "frag + of_nat need = nfp" by (simp add: frag_def nfp_def nb_def of_nat_add)
    have "16 dvd need" using need(2) by (rule dvd_trans[rotated]) simp
    then have "16 dvd nb" using fi(7) by (simp add: nb_def)
    then have "even nb" by (rule dvd_trans[rotated]) simp
    then have nfp1: "nfp AND 1 = 0" unfolding nfp_def by (rule w7)
    have nfp0: "nfp \<noteq> 0" using nb fi(5) by (simp add: nfp_def ptr_zero_iff)
    have dv: "32 dvd lo" unfolding lo_def using s32(2) need(2) by (rule dvd_diff_nat)
    define h1 where "h1 = fragSetUsed (h\<lparr>diagnostics := (diagnostics h)\<lparr>allocated := al'\<rparr>\<rparr>) nfp False"
    show ?thesis
    proof (cases nif)
      case nfree: True
      from nfree nif obtain sn ys' where ys: "ys = (sn, False) # ys'"
        by (cases ys) (auto simp add: prod_eq_iff)
      define nxt :: ptr where "nxt = of_nat (c + s)"
      define e where "e = c + s + sn"
      define Z :: ptr where "Z = hdp (addrs e ys') 0"
      have fs2: "fs = (xs @ [(s, True)]) @ (sn, False) # ys'" by (simp add: fs ys)
      have cn: "c + s = arena_start h + total (xs @ [(s, True)])" by (simp add: c)
      note fin = heap_inv_frag[OF inv fs2, folded cn, simplified]
      have sz: "32 \<le> sn" "32 dvd sn" using b(5) by (simp_all add: fs ys)
      have e64: "e < 2 ^ 64" "e \<le> a0 + total fs" using b(2) by (simp_all add: e_def c' fs ys)
      have nxtf: "fragGetNext h frag = nxt" using nx(4) by (simp add: frag_def nxt_def ys)
      have nz: "fragGetNext h nxt = Z" using fin(1) by (simp add: nxt_def Z_def hdp_addrs e_def)
      have ne: "nxt \<noteq> 0" "nxt \<noteq> frag" "Z \<noteq> frag" "Z \<noteq> nxt" "frag \<noteq> nxt"
        "(of_nat e :: ptr) \<noteq> 0" "nfp \<noteq> frag" "frag \<noteq> nfp" "nfp \<noteq> nxt" "nxt \<noteq> nfp" "Z \<noteq> nfp"
        "nfp \<noteq> of_nat e" "frag \<noteq> of_nat e"
        using fin(8) s64 sz s32 e64 fi(5) nb
        by (auto simp add: nxt_def frag_def Z_def hdp_addrs ptr_eq_iff ptr_zero_iff e_def nfp_def)
      define g where "g = rebin (interlink (unbin (interlink h1 frag nfp) nxt (of_nat sn)) nfp Z) nfp
                        (of_nat (lo + sn))"
      have h'_eq: "h' = g"
        using True nfree ne frag0
        by (simp add: h' realloc_shrink_def Let_def lo_eq lo_cmp nsz ys frag_def[symmetric] nfp_eq
            nxtf nz g_def h1_def al'_def of_nat_add acc_interlink)
      define mid where "mid = [(s, True), (sn, False)]"
      define new where "new = [(need, True), (lo + sn, False)]"
      have fsm: "fs = xs @ mid @ ys'" by (simp add: fs ys mid_def)
      have szm: "sizes_ok xs" "sizes_ok ys'" using b(5) by (simp_all add: fsm)
      have FSm: "FS - {(nxt, sn)} = free_set a0 xs \<union> free_set e ys'"
      proof -
        have "free_set (a0 + total xs) mid = {(nxt, sn)}"
          by (simp add: mid_def nxt_def c')
        moreover have "free_set a0 (xs @ mid @ ys') - free_set (a0 + total xs) mid =
           free_set a0 xs \<union> free_set (a0 + total xs + total mid) ys'"
          by (rule free_set_minus_block) (use b in \<open>simp_all add: fsm\<close>)
        moreover have "a0 + total xs + total mid = e" by (simp add: mid_def e_def c')
        ultimately show ?thesis by (auto simp add: FS_def fsm)
      qed
      have memn: "(nxt, sn) \<in> FS" by (simp add: FS_def fs2 nxt_def c' add.assoc)
      define bl1 where "bl1 = bl(bin_of sn := remove1 nxt (bl (bin_of sn)))"
      define bl' where "bl' = bl1(bin_of (lo + sn) := nfp # bl1 (bin_of (lo + sn)))"
      have ok2: "bins_ok (interlink h1 frag nfp) bl FS"
        using ok frag0 by (simp add: h1_def bins_ok_interlink)
      have ok3: "bins_ok (unbin (interlink h1 frag nfp) nxt (of_nat sn)) bl1 (FS - {(nxt, sn)})"
        unfolding bl1_def by (rule unbin_ok[OF ok2 memn fp])
      have ok5: "bins_ok (interlink (unbin (interlink h1 frag nfp) nxt (of_nat sn)) nfp Z) bl1
                  (free_set a0 xs \<union> free_set e ys')"
        using ok3 nfp1 by (simp add: bins_ok_interlink FSm)
      have ok': "bins_ok g bl' (insert (nfp, lo + sn) (free_set a0 xs \<union> free_set e ys'))"
        unfolding g_def bl'_def
      proof (rule rebin_ok[OF ok5])
        show "(nfp, t) \<notin> free_set a0 xs \<union> free_set e ys'" for t
          unfolding nfp_def by (rule free_set_fresh[OF szm]) (use e64 fin(6) sz s32 b(2) nb in \<open>simp_all add: e_def c' a0_def\<close>)
        show "nfp \<noteq> 0" by (rule nfp0)
        show "\<And>b t. (b, t) \<in> free_set a0 xs \<union> free_set e ys' \<Longrightarrow> b \<noteq> 0"
          using fp(1) FSm by blast
        show "\<And>b t t'. (b, t) \<in> free_set a0 xs \<union> free_set e ys' \<Longrightarrow>
                (b, t') \<in> free_set a0 xs \<union> free_set e ys' \<Longrightarrow> t = t'"
          using fp(2) FSm by blast
      qed
      have inv': "heap_inv g (xs @ new @ ys') bl'"
      proof (rule heap_commit[OF inv fsm, where c = c and e = e and W = "{c, nb}"])
        show "mid \<noteq> []" "new \<noteq> []" by (simp_all add: mid_def new_def)
        show "c = arena_start h + total xs" by (rule c)
        show "e = c + total mid" by (simp add: e_def mid_def)
        show "sizes_ok new" using sz need True dv by (simp add: new_def)
        show "total new = total mid" using need(3) by (simp add: new_def mid_def lo_def)
        show "capacity (diagnostics g) = capacity (diagnostics h)" by (simp add: g_def h1_def)
        show "arena_end g = arena_end h" by (simp add: g_def h1_def)
        show "dseg (fragGetNext g) (fragGetPrev g) (lastp 0 (addrs (arena_start h) xs))
               (of_nat c) (addrs c new) (hdp (addrs e ys') 0)"
          using ne frag0 nfp0 nfp1 fi(2)
          by (simp add: new_def g_def h1_def acc_interlink frag_def[symmetric] Z_def[symmetric] a0_def
              nb_def[symmetric] nfp_def[symmetric])
        show "list_all (\<lambda>x. fragIsUsed g (of_nat (fst x)) = snd (snd x)) (spans c new)"
          using ne frag0 nfp0 nfp1 fi(3)
          by (simp add: new_def g_def h1_def acc_interlink frag_def[symmetric]
              nb_def[symmetric] nfp_def[symmetric])
        show "{c, nb} \<subseteq> {c..<e}" using nb sz by (auto simp add: e_def)
        show "fragGetNext g q = fragGetNext h q" if "q \<notin> of_nat ` {c, nb}" for q
          using that ne frag0 nfp0 nfp1 by (simp add: g_def h1_def acc_interlink frag_def[symmetric] nfp_def[symmetric])
        show "fragIsUsed g q = fragIsUsed h q" if "q \<notin> of_nat ` {c, nb}" for q
          using that ne frag0 nfp0 nfp1 by (simp add: g_def h1_def acc_interlink frag_def[symmetric] nfp_def[symmetric])
        show "fragGetPrev g q = fragGetPrev h q" if "q \<notin> of_nat ` {c, nb}" "q \<noteq> of_nat e" for q
          using that ne frag0 nfp0 nfp1
          by (auto simp add: g_def h1_def acc_interlink Z_def hdp_addrs frag_def[symmetric] nfp_def[symmetric])
        show "fragGetPrev g (of_nat e) = last (addrs c new)" if "ys' \<noteq> []"
          using that ne frag0 nfp0 nfp1
          by (simp add: g_def h1_def acc_interlink Z_def hdp_addrs new_def frag_def[symmetric]
              nb_def[symmetric] nfp_def[symmetric])
        show "bins_ok g bl' (free_set (arena_start h) xs \<union> free_set c new \<union> free_set e ys')"
          using ok' by (simp add: new_def a0_def nfp_def nb_def Un_commute insert_commute)
        show "naf (xs @ new @ ys')"
          using nf by (auto simp add: fs ys new_def naf_append naf_cons)
        show "unat (allocated (diagnostics g)) = used_total (xs @ new @ ys')"
          using al'u need(3) by (simp add: g_def h1_def new_def fs ys lo_def)
        show "unat (allocated (diagnostics g)) \<le> unat (peak_allocated (diagnostics g))"
          using al'u pk al by (simp add: g_def h1_def)
        show "unat (peak_allocated (diagnostics g)) \<le> unat (capacity (diagnostics h))"
          "32 dvd unat (peak_allocated (diagnostics g))"
          using pk by (simp_all add: g_def h1_def)
      qed
      have seq: "s = need + lo" using need(3) by (simp add: lo_def)
      have lv: "live_set a0 (xs @ new @ ys') = live_set a0 fs"
        by (simp add: new_def ys fs c' seq add.assoc)
      show ?thesis
        using inv' lv npk
        by (intro exI[of _ "xs @ new @ ys'"] exI[of _ bl'])
          (simp add: h'_eq a0_def[symmetric], simp add: g_def h1_def)
    next
      case nused: False
      define e where "e = c + s"
      define Z :: ptr where "Z = hdp (addrs e ys) 0"
      have e64: "e < 2 ^ 64" "e \<le> a0 + total fs" using b(2) by (simp_all add: e_def c' fs)
      have nxtf: "fragGetNext h frag = Z" using fi(1) by (simp add: frag_def Z_def hdp_addrs e_def)
      have ne: "Z \<noteq> frag" "(of_nat e :: ptr) \<noteq> 0" "nfp \<noteq> frag" "frag \<noteq> nfp" "Z \<noteq> nfp"
        "nfp \<noteq> of_nat e" "frag \<noteq> of_nat e"
        using s64 s32 e64 fi(5) nb
        by (auto simp add: frag_def Z_def hdp_addrs ptr_eq_iff ptr_zero_iff e_def nfp_def)
      define g where "g = rebin (interlink (interlink h1 frag nfp) nfp Z) nfp (of_nat lo)"
      have h'_eq: "h' = g"
        using True nused ne frag0
        by (simp add: h' realloc_shrink_def Let_def lo_eq lo_cmp nsz frag_def[symmetric] nfp_eq
            nxtf g_def h1_def al'_def acc_interlink)
      define mid where "mid = [(s, True)]"
      define new where "new = [(need, True), (lo, False)]"
      have fsm: "fs = xs @ mid @ ys" by (simp add: fs mid_def)
      have FSm: "FS = free_set a0 xs \<union> free_set e ys"
        by (simp add: FS_def fs e_def c')
      define bl' where "bl' = bl(bin_of lo := nfp # bl (bin_of lo))"
      have ok5: "bins_ok (interlink (interlink h1 frag nfp) nfp Z) bl
                  (free_set a0 xs \<union> free_set e ys)"
        using ok nfp1 frag0 by (simp add: bins_ok_interlink FSm h1_def)
      have ok': "bins_ok g bl' (insert (nfp, lo) (free_set a0 xs \<union> free_set e ys))"
        unfolding g_def bl'_def
      proof (rule rebin_ok[OF ok5])
        show "(nfp, t) \<notin> free_set a0 xs \<union> free_set e ys" for t
          unfolding nfp_def by (rule free_set_fresh[OF szx]) (use e64 fi(6) s32 b(2) nb in \<open>simp_all add: e_def c' a0_def\<close>)
        show "nfp \<noteq> 0" by (rule nfp0)
        show "\<And>b t. (b, t) \<in> free_set a0 xs \<union> free_set e ys \<Longrightarrow> b \<noteq> 0"
          using fp(1) FSm by blast
        show "\<And>b t t'. (b, t) \<in> free_set a0 xs \<union> free_set e ys \<Longrightarrow>
                (b, t') \<in> free_set a0 xs \<union> free_set e ys \<Longrightarrow> t = t'"
          using fp(2) FSm by blast
      qed
      have inv': "heap_inv g (xs @ new @ ys) bl'"
      proof (rule heap_commit[OF inv fsm, where c = c and e = e and W = "{c, nb}"])
        show "mid \<noteq> []" "new \<noteq> []" by (simp_all add: mid_def new_def)
        show "c = arena_start h + total xs" by (rule c)
        show "e = c + total mid" by (simp add: e_def mid_def)
        show "sizes_ok new" using need True dv by (simp add: new_def)
        show "total new = total mid" using need(3) by (simp add: new_def mid_def lo_def)
        show "capacity (diagnostics g) = capacity (diagnostics h)" by (simp add: g_def h1_def)
        show "arena_end g = arena_end h" by (simp add: g_def h1_def)
        show "dseg (fragGetNext g) (fragGetPrev g) (lastp 0 (addrs (arena_start h) xs))
               (of_nat c) (addrs c new) (hdp (addrs e ys) 0)"
          using ne frag0 nfp0 nfp1 fi(2)
          by (simp add: new_def g_def h1_def acc_interlink frag_def[symmetric] Z_def[symmetric] a0_def
              nb_def[symmetric] nfp_def[symmetric])
        show "list_all (\<lambda>x. fragIsUsed g (of_nat (fst x)) = snd (snd x)) (spans c new)"
          using ne frag0 nfp0 nfp1 fi(3)
          by (simp add: new_def g_def h1_def acc_interlink frag_def[symmetric]
              nb_def[symmetric] nfp_def[symmetric])
        show "{c, nb} \<subseteq> {c..<e}" using nb by (auto simp add: e_def)
        show "fragGetNext g q = fragGetNext h q" if "q \<notin> of_nat ` {c, nb}" for q
          using that ne frag0 nfp0 nfp1 by (simp add: g_def h1_def acc_interlink frag_def[symmetric] nfp_def[symmetric])
        show "fragIsUsed g q = fragIsUsed h q" if "q \<notin> of_nat ` {c, nb}" for q
          using that ne frag0 nfp0 nfp1 by (simp add: g_def h1_def acc_interlink frag_def[symmetric] nfp_def[symmetric])
        show "fragGetPrev g q = fragGetPrev h q" if "q \<notin> of_nat ` {c, nb}" "q \<noteq> of_nat e" for q
          using that ne frag0 nfp0 nfp1
          by (auto simp add: g_def h1_def acc_interlink Z_def hdp_addrs frag_def[symmetric] nfp_def[symmetric])
        show "fragGetPrev g (of_nat e) = last (addrs c new)" if "ys \<noteq> []"
          using that ne frag0 nfp0 nfp1
          by (simp add: g_def h1_def acc_interlink Z_def hdp_addrs new_def frag_def[symmetric]
              nb_def[symmetric] nfp_def[symmetric])
        show "bins_ok g bl' (free_set (arena_start h) xs \<union> free_set c new \<union> free_set e ys)"
          using ok' by (simp add: new_def a0_def nfp_def nb_def Un_commute insert_commute)
        show "naf (xs @ new @ ys)"
          using nf nused nif by (auto simp add: fs new_def naf_append naf_cons)
        show "unat (allocated (diagnostics g)) = used_total (xs @ new @ ys)"
          using al'u need(3) by (simp add: g_def h1_def new_def fs lo_def)
        show "unat (allocated (diagnostics g)) \<le> unat (peak_allocated (diagnostics g))"
          using al'u pk al by (simp add: g_def h1_def)
        show "unat (peak_allocated (diagnostics g)) \<le> unat (capacity (diagnostics h))"
          "32 dvd unat (peak_allocated (diagnostics g))"
          using pk by (simp_all add: g_def h1_def)
      qed
      have seq: "s = need + lo" using need(3) by (simp add: lo_def)
      have lv: "live_set a0 (xs @ new @ ys) = live_set a0 fs"
        by (simp add: new_def fs c' seq add.assoc)
      show ?thesis
        using inv' lv npk
        by (intro exI[of _ "xs @ new @ ys"] exI[of _ bl'])
          (simp add: h'_eq a0_def[symmetric], simp add: g_def h1_def)
    qed
  qed
qed

section \<open>o1heapReallocate: forward expansion\<close>

lemma realloc_expand_forward_inv:
  assumes inv: "heap_inv h fs bl" and fs: "fs = xs @ (s, True) # (sn, False) # ys'"
    and c: "c = arena_start h + total xs"
    and need: "32 dvd need" "s < need" "need \<le> s + sn"
    and h': "h' = realloc_expand_forward h (of_nat c) (of_nat s) (of_nat need)
                    (fragGetNext h (of_nat c)) (of_nat sn)"
  shows "\<exists>fs' bl'. heap_inv h' fs' bl' \<and>
           live_set (arena_start h) fs' = live_set (arena_start h) fs \<and>
           peak_request_size (diagnostics h') = peak_request_size (diagnostics h) \<and>
           oom_count (diagnostics h') = oom_count (diagnostics h) \<and>
           unat (peak_allocated (diagnostics h)) \<le> unat (peak_allocated (diagnostics h')) \<and>
           capacity (diagnostics h') = capacity (diagnostics h) \<and>
           arena_end h' = arena_end h \<and> payload h' = payload h \<and>
           need \<le> unat (peak_allocated (diagnostics h'))"
proof -
  define a0 where "a0 = arena_start h"
  define ys where "ys = (sn, False) # ys'"
  have fs0: "fs = xs @ (s, True) # ys" by (simp add: fs ys_def)
  note b = heap_inv_bounds[OF inv, folded a0_def]
  note c' = c[folded a0_def]
  note fi = heap_inv_frag[OF inv fs0, folded a0_def, folded c', simplified]
  note nx = heap_inv_next[OF inv fs0 c, simplified]
  have s32: "32 \<le> s" "32 dvd s" using b(5) fs by simp_all
  have cs: "c + s \<le> a0 + total fs" using fi(6) by simp
  have s64: "s < 2 ^ 64" "c < 2 ^ 64" "c + s < 2 ^ 64" using cs b(2) by simp_all
  define frag :: ptr where "frag = of_nat c"
  have frag0: "frag \<noteq> 0" "frag AND 1 = 0" using fi(8,9) by (simp_all add: frag_def)
  define FS where "FS = free_set a0 fs"
  from inv have ok: "bins_ok h bl FS" by (simp add: heap_inv_def FS_def a0_def)
  note fp = free_set_props[OF inv, folded a0_def, folded FS_def]
  have al: "unat (allocated (diagnostics h)) = used_total fs"
    and pk: "unat (allocated (diagnostics h)) \<le> unat (peak_allocated (diagnostics h))"
      "unat (peak_allocated (diagnostics h)) \<le> unat (capacity (diagnostics h))"
      "32 dvd unat (peak_allocated (diagnostics h))"
    and nf: "naf fs"
    using inv by (simp_all add: heap_inv_def)
  have us: "s \<le> used_total fs" by (simp add: fs)
  have ub: "used_total fs + sn \<le> total fs"
    using used_total_le[of xs] used_total_le[of ys'] by (simp add: fs)
  define nxt :: ptr where "nxt = of_nat (c + s)"
  define e where "e = c + s + sn"
  define Z :: ptr where "Z = hdp (addrs e ys') 0"
  have fs2: "fs = (xs @ [(s, True)]) @ (sn, False) # ys'" by (simp add: fs)
  have cn: "c + s = arena_start h + total (xs @ [(s, True)])" by (simp add: c)
  note fin = heap_inv_frag[OF inv fs2, folded cn, simplified]
  have sz: "32 \<le> sn" "32 dvd sn" using b(5) by (simp_all add: fs)
  have e64: "e < 2 ^ 64" "e \<le> a0 + total fs" using b(2) by (simp_all add: e_def c' fs)
  have nxtf: "fragGetNext h frag = nxt" using nx(4) by (simp add: frag_def nxt_def ys_def)
  have nz: "fragGetNext h nxt = Z" using fin(1) by (simp add: nxt_def Z_def hdp_addrs e_def)
  define lo where "lo = s + sn - need"
  have lo64: "lo < 2 ^ 64" using e64 by (simp add: lo_def e_def)
  have lo_eq: "(of_nat s :: size_t) + of_nat sn - of_nat need = of_nat lo"
    using need(3) by (simp add: lo_def of_nat_add[symmetric] del: of_nat_add)
  have lo_cmp: "(FRAGMENT_SIZE_MIN \<le> (of_nat lo :: size_t)) = (32 \<le> lo)" using lo64 by (rule min_cmp)
  define d where "d = (if 32 \<le> lo then need - s else sn)"
  have d_le: "d \<le> sn" using need by (auto simp add: d_def)
  define al' where "al' = allocated (diagnostics h) + of_nat d"
  have al'u: "unat al' = used_total fs + d"
  proof -
    have "used_total fs + d < 2 ^ 64" using ub d_le b(2) by simp
    then have "unat (of_nat (used_total fs + d) :: size_t) = used_total fs + d"
      by (rule unat_of_nat64)
    moreover have "al' = of_nat (used_total fs + d)"
      by (simp add: al'_def al[symmetric] of_nat_add)
    ultimately show ?thesis by simp
  qed
  define pk' where "pk' = larger (peak_allocated (diagnostics h)) al'"
  have pk'u: "unat pk' = max (unat (peak_allocated (diagnostics h))) (unat al')"
    by (auto simp add: pk'_def larger_def word_less_nat_alt max_def)
  have dvd_used: "32 dvd used_total fs" using b(5) by (rule sizes_ok_used_dvd)
  have dvd_d: "32 dvd d" using need(1) s32(2) sz(2) by (auto simp add: d_def intro: dvd_diff_nat)
  have dneed: "need \<le> s + d"
  proof (cases "32 \<le> lo")
    case True
    then show ?thesis using need by (simp add: d_def)
  next
    case False
    have "s + sn = need"
      by (rule dvd32_gap) (use need s32 sz False in \<open>simp_all add: lo_def\<close>)
    then show ?thesis using False by (simp add: d_def)
  qed
  have pkfacts: "unat al' \<le> unat pk'" "unat pk' \<le> unat (capacity (diagnostics h))"
    "unat (peak_allocated (diagnostics h)) \<le> unat pk'" "need \<le> unat pk'"
    "32 dvd unat pk'"
    using pk'u al'u pk ub d_le b(6) us dneed dvd_used dvd_d by (auto simp add: max_def)
  have szm: "sizes_ok xs" "sizes_ok ys'" using b(5) by (simp_all add: fs)
  define mid where "mid = [(s, True), (sn, False)]"
  have fsm: "fs = xs @ mid @ ys'" by (simp add: fs mid_def)
  have FSm: "FS - {(nxt, sn)} = free_set a0 xs \<union> free_set e ys'"
  proof -
    have "free_set (a0 + total xs) mid = {(nxt, sn)}"
      by (simp add: mid_def nxt_def c')
    moreover have "free_set a0 (xs @ mid @ ys') - free_set (a0 + total xs) mid =
       free_set a0 xs \<union> free_set (a0 + total xs + total mid) ys'"
      by (rule free_set_minus_block) (use b in \<open>simp_all add: fsm\<close>)
    moreover have "a0 + total xs + total mid = e" by (simp add: mid_def e_def c')
    ultimately show ?thesis by (auto simp add: FS_def fsm)
  qed
  have memn: "(nxt, sn) \<in> FS" by (simp add: FS_def fs2 nxt_def c' add.assoc)
  define bl1 where "bl1 = bl(bin_of sn := remove1 nxt (bl (bin_of sn)))"
  define h1 where "h1 = unbin h nxt (of_nat sn)"
  have ok3: "bins_ok h1 bl1 (free_set a0 xs \<union> free_set e ys')"
    unfolding bl1_def h1_def FSm[symmetric] by (rule unbin_ok[OF ok memn fp])
  have sub: "\<And>b t. (b, t) \<in> free_set a0 xs \<union> free_set e ys' \<Longrightarrow> b \<noteq> 0"
    "\<And>b t t'. (b, t) \<in> free_set a0 xs \<union> free_set e ys' \<Longrightarrow>
                (b, t') \<in> free_set a0 xs \<union> free_set e ys' \<Longrightarrow> t = t'"
    using fp FSm by blast+
  have dw: "(of_nat need :: size_t) - of_nat s = of_nat (need - s)" using need(2) by simp
  show ?thesis
  proof (cases "32 \<le> lo")
    case True
    define nb where "nb = c + need"
    define nfp :: ptr where "nfp = of_nat nb"
    have nb: "c + s < nb" "nb < e" "nb < 2 ^ 64" "nb + lo = e" "c < nb"
      using True need s64 e64 by (simp_all add: nb_def lo_def e_def)
    have nfp_eq: "frag + of_nat need = nfp" by (simp add: frag_def nfp_def nb_def of_nat_add)
    have "16 dvd need" using need(1) by (rule dvd_trans[rotated]) simp
    then have "16 dvd nb" using fi(7) by (simp add: nb_def)
    then have "even nb" by (rule dvd_trans[rotated]) simp
    then have nfp1: "nfp AND 1 = 0" unfolding nfp_def by (rule w7)
    have nfp0: "nfp \<noteq> 0" using nb fi(5) by (simp add: nfp_def ptr_zero_iff)
    have dv: "32 dvd lo" unfolding lo_def using s32(2) sz(2) need(1) by (intro dvd_diff_nat dvd_add)
    have ne: "nxt \<noteq> 0" "nxt \<noteq> frag" "Z \<noteq> frag" "Z \<noteq> nxt" "frag \<noteq> nxt"
      "(of_nat e :: ptr) \<noteq> 0" "nfp \<noteq> frag" "frag \<noteq> nfp" "nfp \<noteq> nxt" "nxt \<noteq> nfp" "Z \<noteq> nfp"
      "nfp \<noteq> of_nat e" "frag \<noteq> of_nat e"
      using fin(8) s64 sz s32 e64 fi(5) nb
      by (auto simp add: nxt_def frag_def Z_def hdp_addrs ptr_eq_iff ptr_zero_iff e_def nfp_def)
    define g where "g = (rebin (interlink (interlink (fragSetUsed h1 nfp False) nfp Z) frag nfp) nfp (of_nat lo))
                       \<lparr>diagnostics := (diagnostics h)\<lparr>allocated := al', peak_allocated := pk'\<rparr>\<rparr>"
    have h'_eq: "h' = g"
      using True ne frag0
      by (simp add: h' realloc_expand_forward_def Let_def lo_eq lo_cmp frag_def[symmetric] nfp_eq
          nxtf nz g_def h1_def al'_def pk'_def d_def dw acc_interlink)
    define new where "new = [(need, True), (lo, False)]"
    define bl' where "bl' = bl1(bin_of lo := nfp # bl1 (bin_of lo))"
    have ok5: "bins_ok (interlink (interlink (fragSetUsed h1 nfp False) nfp Z) frag nfp) bl1
                (free_set a0 xs \<union> free_set e ys')"
      using ok3 nfp1 frag0 by (simp add: bins_ok_interlink)
    have ok': "bins_ok g bl' (insert (nfp, lo) (free_set a0 xs \<union> free_set e ys'))"
      unfolding g_def bl'_def bins_ok_diag
    proof (rule rebin_ok[OF ok5])
      show "(nfp, t) \<notin> free_set a0 xs \<union> free_set e ys'" for t
        unfolding nfp_def by (rule free_set_fresh[OF szm]) (use e64 fin(6) sz s32 b(2) nb in \<open>simp_all add: e_def c' a0_def\<close>)
      show "nfp \<noteq> 0" by (rule nfp0)
    qed (use sub in blast)+
    have inv': "heap_inv g (xs @ new @ ys') bl'"
    proof (rule heap_commit[OF inv fsm, where c = c and e = e and W = "{c, nb}"])
      show "mid \<noteq> []" "new \<noteq> []" by (simp_all add: mid_def new_def)
      show "c = arena_start h + total xs" by (rule c)
      show "e = c + total mid" by (simp add: e_def mid_def)
      show "sizes_ok new" using need True dv s32 by (simp add: new_def)
      show "total new = total mid" using need(3) by (simp add: new_def mid_def lo_def)
      show "capacity (diagnostics g) = capacity (diagnostics h)" by (simp add: g_def h1_def)
      show "arena_end g = arena_end h" by (simp add: g_def h1_def)
      show "dseg (fragGetNext g) (fragGetPrev g) (lastp 0 (addrs (arena_start h) xs))
             (of_nat c) (addrs c new) (hdp (addrs e ys') 0)"
        using ne frag0 nfp0 nfp1 fi(2)
        by (simp add: new_def g_def h1_def acc_interlink frag_def[symmetric] Z_def[symmetric] a0_def
            nb_def[symmetric] nfp_def[symmetric])
      show "list_all (\<lambda>x. fragIsUsed g (of_nat (fst x)) = snd (snd x)) (spans c new)"
        using ne frag0 nfp0 nfp1 fi(3)
        by (simp add: new_def g_def h1_def acc_interlink frag_def[symmetric]
            nb_def[symmetric] nfp_def[symmetric])
      show "{c, nb} \<subseteq> {c..<e}" using nb by auto
      show "fragGetNext g q = fragGetNext h q" if "q \<notin> of_nat ` {c, nb}" for q
        using that ne frag0 nfp0 nfp1 by (simp add: g_def h1_def acc_interlink frag_def[symmetric] nfp_def[symmetric])
      show "fragIsUsed g q = fragIsUsed h q" if "q \<notin> of_nat ` {c, nb}" for q
        using that ne frag0 nfp0 nfp1 by (simp add: g_def h1_def acc_interlink frag_def[symmetric] nfp_def[symmetric])
      show "fragGetPrev g q = fragGetPrev h q" if "q \<notin> of_nat ` {c, nb}" "q \<noteq> of_nat e" for q
        using that ne frag0 nfp0 nfp1
        by (auto simp add: g_def h1_def acc_interlink Z_def hdp_addrs frag_def[symmetric] nfp_def[symmetric])
      show "fragGetPrev g (of_nat e) = last (addrs c new)" if "ys' \<noteq> []"
        using that ne frag0 nfp0 nfp1
        by (simp add: g_def h1_def acc_interlink Z_def hdp_addrs new_def frag_def[symmetric]
            nb_def[symmetric] nfp_def[symmetric])
      show "bins_ok g bl' (free_set (arena_start h) xs \<union> free_set c new \<union> free_set e ys')"
        using ok' by (simp add: new_def a0_def nfp_def nb_def Un_commute insert_commute)
      show "naf (xs @ new @ ys')"
        using nf by (auto simp add: fs new_def naf_append naf_cons)
      show "unat (allocated (diagnostics g)) = used_total (xs @ new @ ys')"
        using al'u need True by (simp add: g_def new_def fs d_def)
      show "unat (allocated (diagnostics g)) \<le> unat (peak_allocated (diagnostics g))"
        "unat (peak_allocated (diagnostics g)) \<le> unat (capacity (diagnostics h))"
        "32 dvd unat (peak_allocated (diagnostics g))"
        using pkfacts by (simp_all add: g_def)
    qed
    have seq: "s + sn = need + lo" using need(3) by (simp add: lo_def)
    have lv: "live_set a0 (xs @ new @ ys') = live_set a0 fs"
      using seq by (simp add: new_def fs c' add.assoc)
    show ?thesis
      using inv' lv pkfacts
      by (intro exI[of _ "xs @ new @ ys'"] exI[of _ bl'])
        (simp add: h'_eq a0_def[symmetric], simp add: g_def h1_def)
  next
    case False
    have tot: "s + sn = need"
      by (rule dvd32_gap) (use need s32 sz False in \<open>simp_all add: lo_def\<close>)
    have ne: "nxt \<noteq> 0" "nxt \<noteq> frag" "Z \<noteq> frag" "Z \<noteq> nxt" "frag \<noteq> nxt"
      "(of_nat e :: ptr) \<noteq> 0" "frag \<noteq> of_nat e"
      using fin(8) s64 sz s32 e64 fi(5)
      by (auto simp add: nxt_def frag_def Z_def hdp_addrs ptr_eq_iff ptr_zero_iff e_def)
    define g where "g = (interlink h1 frag Z)
                       \<lparr>diagnostics := (diagnostics h)\<lparr>allocated := al', peak_allocated := pk'\<rparr>\<rparr>"
    have h'_eq: "h' = g"
      using False ne frag0
      by (simp add: h' realloc_expand_forward_def Let_def lo_eq lo_cmp frag_def[symmetric]
          nxtf nz g_def h1_def al'_def pk'_def d_def acc_interlink)
    define new where "new = [(s + sn, True)]"
    have ok': "bins_ok g bl1 (free_set a0 xs \<union> free_set e ys')"
      using ok3 frag0 by (simp add: g_def bins_ok_interlink)
    have inv': "heap_inv g (xs @ new @ ys') bl1"
    proof (rule heap_commit[OF inv fsm, where c = c and e = e and W = "{c}"])
      show "mid \<noteq> []" "new \<noteq> []" by (simp_all add: mid_def new_def)
      show "c = arena_start h + total xs" by (rule c)
      show "e = c + total mid" by (simp add: e_def mid_def)
      show "sizes_ok new" using s32 sz by (simp add: new_def)
      show "total new = total mid" by (simp add: new_def mid_def)
      show "capacity (diagnostics g) = capacity (diagnostics h)" by (simp add: g_def h1_def)
      show "arena_end g = arena_end h" by (simp add: g_def h1_def)
      show "dseg (fragGetNext g) (fragGetPrev g) (lastp 0 (addrs (arena_start h) xs))
             (of_nat c) (addrs c new) (hdp (addrs e ys') 0)"
        using ne frag0 fi(2)
        by (simp add: new_def g_def h1_def acc_interlink frag_def[symmetric] Z_def[symmetric] a0_def)
      show "list_all (\<lambda>x. fragIsUsed g (of_nat (fst x)) = snd (snd x)) (spans c new)"
        using ne frag0 fi(3)
        by (simp add: new_def g_def h1_def acc_interlink frag_def[symmetric])
      show "{c} \<subseteq> {c..<e}" using s32 by (auto simp add: e_def)
      show "fragGetNext g q = fragGetNext h q" if "q \<notin> of_nat ` {c}" for q
        using that ne frag0 by (simp add: g_def h1_def acc_interlink frag_def[symmetric])
      show "fragIsUsed g q = fragIsUsed h q" if "q \<notin> of_nat ` {c}" for q
        using that ne frag0 by (simp add: g_def h1_def acc_interlink frag_def[symmetric])
      show "fragGetPrev g q = fragGetPrev h q" if "q \<notin> of_nat ` {c}" "q \<noteq> of_nat e" for q
        using that ne frag0
        by (auto simp add: g_def h1_def acc_interlink Z_def hdp_addrs frag_def[symmetric])
      show "fragGetPrev g (of_nat e) = last (addrs c new)" if "ys' \<noteq> []"
        using that ne frag0
        by (simp add: g_def h1_def acc_interlink Z_def hdp_addrs new_def frag_def[symmetric])
      show "bins_ok g bl1 (free_set (arena_start h) xs \<union> free_set c new \<union> free_set e ys')"
        using ok' by (simp add: new_def a0_def)
      show "naf (xs @ new @ ys')"
        using nf by (auto simp add: fs new_def naf_append naf_cons)
      show "unat (allocated (diagnostics g)) = used_total (xs @ new @ ys')"
        using al'u False by (simp add: g_def new_def fs d_def)
      show "unat (allocated (diagnostics g)) \<le> unat (peak_allocated (diagnostics g))"
        "unat (peak_allocated (diagnostics g)) \<le> unat (capacity (diagnostics h))"
        "32 dvd unat (peak_allocated (diagnostics g))"
        using pkfacts by (simp_all add: g_def)
    qed
    have lv: "live_set a0 (xs @ new @ ys') = live_set a0 fs"
      by (simp add: new_def fs c' add.assoc)
    show ?thesis
      using inv' lv pkfacts
      by (intro exI[of _ "xs @ new @ ys'"] exI[of _ bl1])
        (simp add: h'_eq a0_def[symmetric], simp add: g_def h1_def)
  qed
qed

section \<open>o1heapReallocate: backward expansion\<close>

lemma next_free_split:
  assumes nf: "naf (xs @ (s, True) # ys)"
    and nif: "nif = (ys \<noteq> [] \<and> \<not> snd (hd ys))"
    and sn': "sn' = (if nif then fst (hd ys) else 0)"
  obtains R Y where "ys = R @ Y" and "R = (if nif then [(sn', False)] else [])"
    and "Y = [] \<or> snd (hd Y)" and "total R = sn'"
proof (cases nif)
  case True
  then obtain sn ys' where y: "ys = (sn, False) # ys'" using nif
    by (cases ys) (auto simp add: prod_eq_iff)
  have "naf ((sn, False) # ys')" using nf by (simp add: y naf_append naf_cons)
  then have yh: "ys' = [] \<or> snd (hd ys')" by (auto simp add: naf_cons)
  have s: "sn' = sn" using True sn' y by simp
  show ?thesis
  proof (rule that[of "[(sn, False)]" ys'])
    show "ys = [(sn, False)] @ ys'" by (simp add: y)
    show "[(sn, False)] = (if nif then [(sn', False)] else [])" using True s by simp
    show "ys' = [] \<or> snd (hd ys')" by (rule yh)
    show "total [(sn, False)] = sn'" using s by simp
  qed
next
  case False
  then have yh: "ys = [] \<or> snd (hd ys)" using nif by simp
  have s: "sn' = 0" using False sn' by simp
  show ?thesis
  proof (rule that[of "[]" ys])
    show "ys = [] @ ys" by simp
    show "[] = (if nif then [(sn', False)] else [])" using False by simp
    show "ys = [] \<or> snd (hd ys)" by (rule yh)
    show "total [] = sn'" using s by simp
  qed
qed

lemma realloc_expand_backward_inv:
  assumes inv: "heap_inv h fs bl" and fs: "fs = xs' @ (sp, False) # (s, True) # ys"
    and c: "c = arena_start h + total xs' + sp"
    and nif: "nif = (ys \<noteq> [] \<and> \<not> snd (hd ys))"
    and sn': "sn' = (if nif then fst (hd ys) else 0)"
    and need: "32 dvd need" "s < need" "need \<le> sp + s + sn'"
    and r: "realloc_expand_backward h (of_nat c + O1HEAP_ALIGNMENT) (of_nat c) (of_nat s) oa (of_nat need)
              (fragGetPrev h (of_nat c)) (of_nat sp) (fragGetNext h (of_nat c)) nif (of_nat sn') = (h', out)"
  shows "\<exists>fs' bl'. heap_inv h' fs' bl' \<and> out \<noteq> 0 \<and>
           live_set (arena_start h) fs' =
             insert out (live_set (arena_start h) fs - {of_nat c + O1HEAP_ALIGNMENT}) \<and>
           peak_request_size (diagnostics h') = peak_request_size (diagnostics h) \<and>
           oom_count (diagnostics h') = oom_count (diagnostics h) \<and>
           unat (peak_allocated (diagnostics h)) \<le> unat (peak_allocated (diagnostics h')) \<and>
           capacity (diagnostics h') = capacity (diagnostics h) \<and>
           arena_end h' = arena_end h \<and>
           need \<le> unat (peak_allocated (diagnostics h'))"
proof -
  define a0 where "a0 = arena_start h"
  define xs where "xs = xs' @ [(sp, False)]"
  define cp where "cp = a0 + total xs'"
  have fs0: "fs = xs @ (s, True) # ys" by (simp add: fs xs_def)
  have c0: "c = arena_start h + total xs" by (simp add: c xs_def)
  have fs1: "fs = xs' @ (sp, False) # ((s, True) # ys)" by (simp add: fs)
  note b = heap_inv_bounds[OF inv, folded a0_def]
  note c' = c0[folded a0_def]
  note fi = heap_inv_frag[OF inv fs0, folded a0_def, folded c', simplified]
  note pr = heap_inv_prev[OF inv fs0 c0]
  note nx = heap_inv_next[OF inv fs0 c0, simplified]
  note fip = heap_inv_frag[OF inv fs1, folded a0_def, folded cp_def, simplified]
  have cpc: "cp + sp = c" by (simp add: cp_def c a0_def)
  have s32: "32 \<le> s" "32 dvd s" "32 \<le> sp" "32 dvd sp" using b(5) fs by simp_all
  have cs: "c + s \<le> a0 + total fs" using fi(6) by simp
  have s64: "s < 2 ^ 64" "c < 2 ^ 64" "c + s < 2 ^ 64" using cs b(2) by simp_all
  define frag :: ptr where "frag = of_nat c"
  define prv :: ptr where "prv = of_nat cp"
  define p :: ptr where "p = frag + O1HEAP_ALIGNMENT"
  have frag0: "frag \<noteq> 0" "frag AND 1 = 0" using fi(8,9) by (simp_all add: frag_def)
  have prv0: "prv \<noteq> 0" "prv AND 1 = 0" using fip(8,9) by (simp_all add: prv_def)
  define FS where "FS = free_set a0 fs"
  from inv have ok: "bins_ok h bl FS" by (simp add: heap_inv_def FS_def a0_def)
  note fp = free_set_props[OF inv, folded a0_def, folded FS_def]
  have al: "unat (allocated (diagnostics h)) = used_total fs"
    and pk: "unat (allocated (diagnostics h)) \<le> unat (peak_allocated (diagnostics h))"
      "unat (peak_allocated (diagnostics h)) \<le> unat (capacity (diagnostics h))"
      "32 dvd unat (peak_allocated (diagnostics h))"
    and nf: "naf fs"
    using inv by (simp_all add: heap_inv_def)
  have us: "s \<le> used_total fs" by (simp add: fs)
  from next_free_split[OF nf[unfolded fs0] nif sn'] obtain R Y where
    ys: "ys = R @ Y" and R: "R = (if nif then [(sn', False)] else [])"
    and Yh: "Y = [] \<or> snd (hd Y)" and tR: "total R = sn'"
    by blast
  have sn0: "\<not> nif \<Longrightarrow> sn' = 0" using sn' by simp
  have szR: "sizes_ok R" "sizes_ok Y" "sizes_ok xs'" using b(5) by (simp_all add: fs ys)
  have sn32: "nif \<Longrightarrow> 32 \<le> sn' \<and> 32 dvd sn'" using szR(1) R by simp
  have dvd_sn: "32 dvd sn'" using sizes_ok_total_dvd[OF szR(1)] tR by simp
  define e where "e = c + s + sn'"
  define Z :: ptr where "Z = hdp (addrs e Y) 0"
  have tfs: "total fs = total xs' + sp + s + sn' + total Y" by (simp add: fs ys tR)
  have e64: "e < 2 ^ 64" "e \<le> a0 + total fs" "e + total Y < 2 ^ 64" "cp + sp + s + sn' = e"
    using b(2) cpc by (simp_all add: e_def tfs cp_def)
  have ub: "used_total fs + sp + sn' \<le> total fs"
    using used_total_le[of xs'] used_total_le[of Y] R sn0
    by (cases nif) (simp_all add: fs ys)
  define nxt :: ptr where "nxt = fragGetNext h frag"
  have prvf: "fragGetPrev h frag = prv" using pr(4)[OF xs_def] by (simp add: frag_def prv_def cp_def a0_def)
  have zf: "(if nif then fragGetNext h nxt else nxt) = Z"
  proof (cases nif)
    case True
    then obtain ys' where y: "ys = (sn', False) # ys'" "Y = ys'" using ys R by simp
    have fs2: "fs = (xs @ [(s, True)]) @ (sn', False) # Y" by (simp add: fs0 y)
    have cn: "c + s = arena_start h + total (xs @ [(s, True)])" by (simp add: c0)
    note fin = heap_inv_frag[OF inv fs2, folded cn, simplified]
    have "nxt = of_nat (c + s)" using nx(4) by (simp add: nxt_def frag_def y)
    then show ?thesis using True fin(1) by (simp add: Z_def hdp_addrs e_def)
  next
    case False
    then have "Y = ys" "sn' = 0" using ys R sn' by simp_all
    then show ?thesis using False fi(1) by (simp add: nxt_def frag_def Z_def hdp_addrs e_def)
  qed
  define lo where "lo = sp + s + sn' - need"
  have lo64: "lo < 2 ^ 64" using e64 by (simp add: lo_def)
  have lo_eq: "(of_nat sp :: size_t) + of_nat s + of_nat sn' - of_nat need = of_nat lo"
    using need(3) by (simp add: lo_def of_nat_add[symmetric] del: of_nat_add)
  have lo_cmp: "(FRAGMENT_SIZE_MIN \<le> (of_nat lo :: size_t)) = (32 \<le> lo)" using lo64 by (rule min_cmp)
  define d where "d = (if 32 \<le> lo then need - s else sp + sn')"
  have d_le: "d \<le> sp + sn'" using need by (auto simp add: d_def)
  define al' where "al' = allocated (diagnostics h) + of_nat d"
  have al'u: "unat al' = used_total fs + d"
  proof -
    have "used_total fs + d < 2 ^ 64" using ub d_le b(2) by simp
    then have "unat (of_nat (used_total fs + d) :: size_t) = used_total fs + d"
      by (rule unat_of_nat64)
    moreover have "al' = of_nat (used_total fs + d)"
      by (simp add: al'_def al[symmetric] of_nat_add)
    ultimately show ?thesis by simp
  qed
  define pk' where "pk' = larger (peak_allocated (diagnostics h)) al'"
  have pk'u: "unat pk' = max (unat (peak_allocated (diagnostics h))) (unat al')"
    by (auto simp add: pk'_def larger_def word_less_nat_alt max_def)
  have dvd_used: "32 dvd used_total fs" using b(5) by (rule sizes_ok_used_dvd)
  have dvd_d: "32 dvd d" using need(1) s32 dvd_sn by (auto simp add: d_def intro: dvd_diff_nat)
  have dneed: "need \<le> s + d"
  proof (cases "32 \<le> lo")
    case True
    then show ?thesis using need by (simp add: d_def)
  next
    case False
    have "sp + s + sn' = need"
      by (rule dvd32_gap) (use need s32 dvd_sn False in \<open>simp_all add: lo_def\<close>)
    then show ?thesis using False by (simp add: d_def)
  qed
  have pkfacts: "unat al' \<le> unat pk'" "unat pk' \<le> unat (capacity (diagnostics h))"
    "unat (peak_allocated (diagnostics h)) \<le> unat pk'" "need \<le> unat pk'"
    "32 dvd unat pk'"
    using pk'u al'u pk ub d_le b(6) us dneed dvd_used dvd_d by (auto simp add: max_def)
  define mid where "mid = [(sp, False), (s, True)] @ R"
  have fsm: "fs = xs' @ mid @ Y" by (simp add: fs ys mid_def)
  have tmid: "total mid = sp + s + sn'" by (simp add: mid_def tR)
  define h1 where "h1 = unbin h prv (of_nat sp)"
  define h2 where "h2 = (if nif then unbin h1 nxt (of_nat sn') else h1)"
  define bl1 where "bl1 = bl(bin_of sp := remove1 prv (bl (bin_of sp)))"
  define bl2 where "bl2 = (if nif then bl1(bin_of sn' := remove1 nxt (bl1 (bin_of sn'))) else bl1)"
  have memp: "(prv, sp) \<in> FS" by (simp add: FS_def fs1 prv_def cp_def)
  have ok1: "bins_ok h1 bl1 (FS - {(prv, sp)})"
    unfolding bl1_def h1_def by (rule unbin_ok[OF ok memp fp])
  have blk: "FS - free_set cp mid = free_set a0 xs' \<union> free_set e Y"
  proof -
    have "free_set a0 (xs' @ mid @ Y) - free_set (a0 + total xs') mid =
       free_set a0 xs' \<union> free_set (a0 + total xs' + total mid) Y"
      by (rule free_set_minus_block) (use b in \<open>simp_all add: fsm\<close>)
    moreover have "a0 + total xs' + total mid = e" using e64(4) by (simp add: tmid cp_def)
    ultimately show ?thesis by (simp add: FS_def fsm cp_def)
  qed
  have ok2: "bins_ok h2 bl2 (free_set a0 xs' \<union> free_set e Y)"
  proof (cases nif)
    case True
    have nx2: "nxt = of_nat (c + s)" using nx(4) True nif by (simp add: nxt_def frag_def)
    have fm: "free_set cp mid = {(prv, sp), (nxt, sn')}"
      using True R cpc by (auto simp add: mid_def prv_def nx2 add.assoc)
    have "nxt \<noteq> prv" using s64 s32 cpc by (simp add: nx2 prv_def ptr_eq_iff)
    moreover have "(nxt, sn') \<in> FS" using True R by (simp add: FS_def fs ys nx2 c a0_def add.assoc)
    ultimately have memn: "(nxt, sn') \<in> FS - {(prv, sp)}" by simp
    have "bins_ok (unbin h1 nxt (of_nat sn')) (bl1(bin_of sn' := remove1 nxt (bl1 (bin_of sn'))))
            (FS - {(prv, sp)} - {(nxt, sn')})"
      by (rule unbin_ok[OF ok1 memn]) (use fp in blast)+
    moreover have "FS - {(prv, sp)} - {(nxt, sn')} = FS - free_set cp mid" using fm by auto
    ultimately show ?thesis using True by (simp add: h2_def bl2_def blk)
  next
    case False
    have "free_set cp mid = {(prv, sp)}" using False R by (simp add: mid_def prv_def)
    then show ?thesis using ok1 False blk by (simp add: h2_def bl2_def)
  qed
  have sub: "\<And>b t. (b, t) \<in> free_set a0 xs' \<union> free_set e Y \<Longrightarrow> b \<noteq> 0"
    "\<And>b t t'. (b, t) \<in> free_set a0 xs' \<union> free_set e Y \<Longrightarrow>
                (b, t') \<in> free_set a0 xs' \<union> free_set e Y \<Longrightarrow> t = t'"
    using fp blk by blast+
  have acc2 [simp]: "fragGetNext h2 q = fragGetNext h q" "fragGetPrev h2 q = fragGetPrev h q"
    "fragIsUsed h2 q = fragIsUsed h q" for q
    by (simp_all add: h2_def h1_def)
  have fld2 [simp]: "diagnostics h2 = diagnostics h" "arena_end h2 = arena_end h"
    by (simp_all add: h2_def h1_def)
  define out' where "out' = prv + O1HEAP_ALIGNMENT"
  define h4 where "h4 = fragSetUsed (memmove h2 out' p oa) prv True"
  have ok4: "bins_ok h4 bl2 (free_set a0 xs' \<union> free_set e Y)" using ok2 by (simp add: h4_def)
  have out0: "out' \<noteq> 0"
  proof -
    have "cp + 16 < 2 ^ 64" using s64 s32 cpc by simp
    then have "(of_nat (cp + 16) :: ptr) \<noteq> 0" by (simp only: ptr_zero_iff)
    then show ?thesis by (simp add: out'_def prv_def consts_values of_nat_add)
  qed
  have dw: "(of_nat need :: size_t) - of_nat s = of_nat (need - s)" using need(2) by simp
  have dsum: "(of_nat sp :: size_t) + of_nat sn' = of_nat (sp + sn')" by (simp add: of_nat_add)
  have zne: "Z \<noteq> prv" "(of_nat e :: ptr) \<noteq> 0" "prv \<noteq> of_nat e"
    using s64 s32 e64 fip(5) cpc
    by (auto simp add: prv_def Z_def hdp_addrs ptr_eq_iff ptr_zero_iff)
  have lvp: "of_nat c + O1HEAP_ALIGNMENT \<notin> live_set a0 xs' \<union> live_set e Y"
    by (rule live_set_fresh[OF szR(3,2)]) (use e64 cpc s32 in \<open>simp_all add: cp_def e_def\<close>)
  have lvo: "live_set a0 fs - {of_nat c + O1HEAP_ALIGNMENT} = live_set a0 xs' \<union> live_set e Y"
    using lvp R cpc e64(4) sn0 by (cases nif) (auto simp add: fs ys cp_def e_def add.assoc)
  have rr: "h' = fst (realloc_expand_backward h (of_nat c + O1HEAP_ALIGNMENT) (of_nat c) (of_nat s) oa (of_nat need)
              (fragGetPrev h (of_nat c)) (of_nat sp) (fragGetNext h (of_nat c)) nif (of_nat sn'))"
    "out = snd (realloc_expand_backward h (of_nat c + O1HEAP_ALIGNMENT) (of_nat c) (of_nat s) oa (of_nat need)
              (fragGetPrev h (of_nat c)) (of_nat sp) (fragGetNext h (of_nat c)) nif (of_nat sn'))"
    using r by simp_all
  show ?thesis
  proof (cases "32 \<le> lo")
    case True
    define nb where "nb = cp + need"
    define nfp :: ptr where "nfp = of_nat nb"
    have nb: "cp < nb" "nb < e" "nb < 2 ^ 64" "nb + lo = e"
      using True need s32 e64 by (simp_all add: nb_def lo_def)
    have nfp_eq: "prv + of_nat need = nfp" by (simp add: prv_def nfp_def nb_def of_nat_add)
    have "16 dvd need" using need(1) by (rule dvd_trans[rotated]) simp
    then have "16 dvd nb" using fip(7) by (simp add: nb_def)
    then have "even nb" by (rule dvd_trans[rotated]) simp
    then have nfp1: "nfp AND 1 = 0" unfolding nfp_def by (rule w7)
    have nfp0: "nfp \<noteq> 0" using nb fip(5) by (simp add: nfp_def ptr_zero_iff)
    have dv: "32 dvd lo" unfolding lo_def using s32 dvd_sn need(1) by (intro dvd_diff_nat dvd_add)
    have ne: "nfp \<noteq> prv" "prv \<noteq> nfp" "Z \<noteq> nfp" "nfp \<noteq> of_nat e"
      using s64 s32 e64 fip(5) nb cpc
      by (auto simp add: prv_def Z_def hdp_addrs ptr_eq_iff ptr_zero_iff nfp_def)
    define g where "g = (rebin (interlink (interlink (fragSetUsed h4 nfp False) nfp Z) prv nfp) nfp (of_nat lo))
                       \<lparr>diagnostics := (diagnostics h)\<lparr>allocated := al', peak_allocated := pk'\<rparr>\<rparr>"
    have h'_eq: "h' = g \<and> out = out'"
      unfolding rr using True zf
      by (cases nif) (simp_all add: realloc_expand_backward_def Let_def lo_eq lo_cmp frag_def[symmetric] prvf nfp_eq
          nxt_def[symmetric] g_def h4_def h2_def h1_def al'_def pk'_def d_def dw
          out'_def p_def)
    define new where "new = [(need, True), (lo, False)]"
    define bl' where "bl' = bl2(bin_of lo := nfp # bl2 (bin_of lo))"
    have ok5: "bins_ok (interlink (interlink (fragSetUsed h4 nfp False) nfp Z) prv nfp) bl2
                (free_set a0 xs' \<union> free_set e Y)"
      using ok4 nfp1 prv0 by (simp add: bins_ok_interlink)
    have ok': "bins_ok g bl' (insert (nfp, lo) (free_set a0 xs' \<union> free_set e Y))"
      unfolding g_def bl'_def bins_ok_diag
    proof (rule rebin_ok[OF ok5])
      show "(nfp, t) \<notin> free_set a0 xs' \<union> free_set e Y" for t
        unfolding nfp_def by (rule free_set_fresh[OF szR(3,2)]) (use e64 nb in \<open>simp_all add: cp_def\<close>)
      show "nfp \<noteq> 0" by (rule nfp0)
    qed (use sub in blast)+
    have inv': "heap_inv g (xs' @ new @ Y) bl'"
    proof (rule heap_commit[OF inv fsm, where c = cp and e = e and W = "{cp, nb}"])
      show "mid \<noteq> []" "new \<noteq> []" by (simp_all add: mid_def new_def)
      show "cp = arena_start h + total xs'" by (simp add: cp_def a0_def)
      show "e = cp + total mid" using e64(4) by (simp add: tmid)
      show "sizes_ok new" using need True dv s32 by (simp add: new_def)
      show "total new = total mid" using need(3) by (simp add: new_def tmid lo_def)
      show "capacity (diagnostics g) = capacity (diagnostics h)" by (simp add: g_def)
      show "arena_end g = arena_end h" by (simp add: g_def h4_def)
      show "dseg (fragGetNext g) (fragGetPrev g) (lastp 0 (addrs (arena_start h) xs'))
             (of_nat cp) (addrs cp new) (hdp (addrs e Y) 0)"
        using ne zne prv0 nfp0 nfp1 fip(2)
        by (simp add: new_def g_def h4_def acc_interlink prv_def[symmetric] Z_def[symmetric] a0_def
            nb_def[symmetric] nfp_def[symmetric])
      show "list_all (\<lambda>x. fragIsUsed g (of_nat (fst x)) = snd (snd x)) (spans cp new)"
        using ne zne prv0 nfp0 nfp1
        by (simp add: new_def g_def h4_def acc_interlink prv_def[symmetric]
            nb_def[symmetric] nfp_def[symmetric])
      show "{cp, nb} \<subseteq> {cp..<e}" using nb by auto
      show "fragGetNext g q = fragGetNext h q" if "q \<notin> of_nat ` {cp, nb}" for q
        using that ne zne prv0 nfp0 nfp1 by (simp add: g_def h4_def acc_interlink prv_def[symmetric] nfp_def[symmetric])
      show "fragIsUsed g q = fragIsUsed h q" if "q \<notin> of_nat ` {cp, nb}" for q
        using that ne zne prv0 nfp0 nfp1 by (simp add: g_def h4_def acc_interlink prv_def[symmetric] nfp_def[symmetric])
      show "fragGetPrev g q = fragGetPrev h q" if "q \<notin> of_nat ` {cp, nb}" "q \<noteq> of_nat e" for q
        using that ne zne prv0 nfp0 nfp1
        by (auto simp add: g_def h4_def acc_interlink Z_def hdp_addrs prv_def[symmetric] nfp_def[symmetric])
      show "fragGetPrev g (of_nat e) = last (addrs cp new)" if "Y \<noteq> []"
        using that ne zne prv0 nfp0 nfp1
        by (simp add: g_def h4_def acc_interlink Z_def hdp_addrs new_def prv_def[symmetric]
            nb_def[symmetric] nfp_def[symmetric])
      show "bins_ok g bl' (free_set (arena_start h) xs' \<union> free_set cp new \<union> free_set e Y)"
        using ok' by (simp add: new_def a0_def nfp_def nb_def Un_commute insert_commute)
      show "naf (xs' @ new @ Y)"
        using nf Yh by (auto simp add: fs ys new_def naf_append naf_cons)
      show "unat (allocated (diagnostics g)) = used_total (xs' @ new @ Y)"
        using al'u need True R sn0 by (cases nif) (simp_all add: g_def new_def fs ys d_def)
      show "unat (allocated (diagnostics g)) \<le> unat (peak_allocated (diagnostics g))"
        "unat (peak_allocated (diagnostics g)) \<le> unat (capacity (diagnostics h))"
        "32 dvd unat (peak_allocated (diagnostics g))"
        using pkfacts by (simp_all add: g_def)
    qed
    have lv: "live_set a0 (xs' @ new @ Y) = insert out' (live_set a0 fs - {of_nat c + O1HEAP_ALIGNMENT})"
      using nb(4) by (simp add: lvo new_def out'_def prv_def cp_def nb_def add.assoc)
    show ?thesis
      using inv' lv pkfacts out0 h'_eq
      by (intro exI[of _ "xs' @ new @ Y"] exI[of _ bl'])
        (simp add: a0_def[symmetric], simp add: g_def h4_def)
  next
    case False
    have tot: "sp + s + sn' = need"
      by (rule dvd32_gap) (use need s32 dvd_sn False in \<open>simp_all add: lo_def\<close>)
    define g where "g = (interlink h4 prv Z)
                       \<lparr>diagnostics := (diagnostics h)\<lparr>allocated := al', peak_allocated := pk'\<rparr>\<rparr>"
    have h'_eq: "h' = g \<and> out = out'"
      unfolding rr using False zf
      by (cases nif) (simp_all add: realloc_expand_backward_def Let_def lo_eq lo_cmp frag_def[symmetric] prvf
          nxt_def[symmetric] g_def h4_def h2_def h1_def al'_def pk'_def d_def dsum
          out'_def p_def)
    define new where "new = [(sp + s + sn', True)]"
    have ok': "bins_ok g bl2 (free_set a0 xs' \<union> free_set e Y)"
      using ok4 prv0 by (simp add: g_def bins_ok_interlink)
    have inv': "heap_inv g (xs' @ new @ Y) bl2"
    proof (rule heap_commit[OF inv fsm, where c = cp and e = e and W = "{cp}"])
      show "mid \<noteq> []" "new \<noteq> []" by (simp_all add: mid_def new_def)
      show "cp = arena_start h + total xs'" by (simp add: cp_def a0_def)
      show "e = cp + total mid" using e64(4) by (simp add: tmid)
      show "sizes_ok new" using s32 dvd_sn by (simp add: new_def)
      show "total new = total mid" by (simp add: new_def tmid)
      show "capacity (diagnostics g) = capacity (diagnostics h)" by (simp add: g_def)
      show "arena_end g = arena_end h" by (simp add: g_def h4_def)
      show "dseg (fragGetNext g) (fragGetPrev g) (lastp 0 (addrs (arena_start h) xs'))
             (of_nat cp) (addrs cp new) (hdp (addrs e Y) 0)"
        using zne prv0 fip(2)
        by (simp add: new_def g_def h4_def acc_interlink prv_def[symmetric] Z_def[symmetric] a0_def)
      show "list_all (\<lambda>x. fragIsUsed g (of_nat (fst x)) = snd (snd x)) (spans cp new)"
        using zne prv0
        by (simp add: new_def g_def h4_def acc_interlink prv_def[symmetric])
      show "{cp} \<subseteq> {cp..<e}" using s32 e64(4) by auto
      show "fragGetNext g q = fragGetNext h q" if "q \<notin> of_nat ` {cp}" for q
        using that zne prv0 by (simp add: g_def h4_def acc_interlink prv_def[symmetric])
      show "fragIsUsed g q = fragIsUsed h q" if "q \<notin> of_nat ` {cp}" for q
        using that zne prv0 by (simp add: g_def h4_def acc_interlink prv_def[symmetric])
      show "fragGetPrev g q = fragGetPrev h q" if "q \<notin> of_nat ` {cp}" "q \<noteq> of_nat e" for q
        using that zne prv0
        by (auto simp add: g_def h4_def acc_interlink Z_def hdp_addrs prv_def[symmetric])
      show "fragGetPrev g (of_nat e) = last (addrs cp new)" if "Y \<noteq> []"
        using that zne prv0
        by (simp add: g_def h4_def acc_interlink Z_def hdp_addrs new_def prv_def[symmetric])
      show "bins_ok g bl2 (free_set (arena_start h) xs' \<union> free_set cp new \<union> free_set e Y)"
        using ok' by (simp add: new_def a0_def)
      show "naf (xs' @ new @ Y)"
        using nf by (auto simp add: fs ys new_def naf_append naf_cons)
      show "unat (allocated (diagnostics g)) = used_total (xs' @ new @ Y)"
        using al'u False R sn0 by (cases nif) (simp_all add: g_def new_def fs ys d_def)
      show "unat (allocated (diagnostics g)) \<le> unat (peak_allocated (diagnostics g))"
        "unat (peak_allocated (diagnostics g)) \<le> unat (capacity (diagnostics h))"
        "32 dvd unat (peak_allocated (diagnostics g))"
        using pkfacts by (simp_all add: g_def)
    qed
    have lv: "live_set a0 (xs' @ new @ Y) = insert out' (live_set a0 fs - {of_nat c + O1HEAP_ALIGNMENT})"
      using e64(4) by (simp add: lvo new_def out'_def prv_def cp_def add.assoc)
    show ?thesis
      using inv' lv pkfacts out0 h'_eq
      by (intro exI[of _ "xs' @ new @ Y"] exI[of _ bl2])
        (simp add: a0_def[symmetric], simp add: g_def h4_def)
  qed
qed

section \<open>o1heapReallocate: a new block\<close>

lemma realloc_new_block_inv:
  assumes inv: "heap_inv h fs bl" and live: "p \<in> live_set (arena_start h) fs"
    and r: "realloc_new_block h p oa n = (h', out)"
  shows "\<exists>fs' bl'. heap_inv h' fs' bl' \<and>
           capacity (diagnostics h') = capacity (diagnostics h) \<and> arena_end h' = arena_end h \<and>
           peak_request_size (diagnostics h') = larger (peak_request_size (diagnostics h)) n \<and>
           unat (peak_allocated (diagnostics h)) \<le> unat (peak_allocated (diagnostics h')) \<and>
           (out = 0 \<longrightarrow> fs' = fs \<and> bl' = bl \<and>
              h' = h\<lparr>diagnostics := (diagnostics h)\<lparr>
                     peak_request_size := larger (peak_request_size (diagnostics h)) n,
                     oom_count := oom_count (diagnostics h) + (if n = 0 then 0 else 1)\<rparr>\<rparr>) \<and>
           (out \<noteq> 0 \<longrightarrow>
              live_set (arena_start h) fs' = insert out (live_set (arena_start h) fs - {p}) \<and>
              oom_count (diagnostics h') = oom_count (diagnostics h) \<and>
              unat n + 16 \<le> unat (peak_allocated (diagnostics h')))"
proof -
  obtain h1 out1 where a: "o1heapAllocate h n = (h1, out1)" by (cases "o1heapAllocate h n")
  from o1heapAllocate_inv[OF inv a] obtain fs1 bl1 where
    i1: "heap_inv h1 fs1 bl1" and cap1: "capacity (diagnostics h1) = capacity (diagnostics h)"
    and ae1: "arena_end h1 = arena_end h"
    and prs1: "peak_request_size (diagnostics h1) = larger (peak_request_size (diagnostics h)) n"
    and z1: "out1 = 0 \<longrightarrow> fs1 = fs \<and> bl1 = bl \<and>
              h1 = h\<lparr>diagnostics := (diagnostics h)\<lparr>
                     peak_request_size := larger (peak_request_size (diagnostics h)) n,
                     oom_count := oom_count (diagnostics h) + (if n = 0 then 0 else 1)\<rparr>\<rparr>"
    and s1: "out1 \<noteq> 0 \<longrightarrow>
              out1 \<notin> live_set (arena_start h) fs \<and>
              live_set (arena_start h) fs1 = insert out1 (live_set (arena_start h) fs) \<and>
              oom_count (diagnostics h1) = oom_count (diagnostics h) \<and>
              payload h1 = payload h \<and>
              unat (peak_allocated (diagnostics h)) \<le> unat (peak_allocated (diagnostics h1)) \<and>
              unat n + 16 \<le> unat (peak_allocated (diagnostics h1))"
    by blast
  have st1: "arena_start h1 = arena_start h" using cap1 ae1 by (rule arena_start_eq)
  show ?thesis
  proof (cases "out1 = 0")
    case True
    then have "h' = h1" "out = 0" using r by (simp_all add: realloc_new_block_def a)
    then show ?thesis using i1 z1 True cap1 ae1 prs1
      by (intro exI[of _ fs] exI[of _ bl]) auto
  next
    case False
    define hm where "hm = memcpy h1 out1 p oa"
    have h': "h' = o1heapFree hm p" "out = out1"
      using r False by (auto simp add: realloc_new_block_def a hm_def)
    have im: "heap_inv hm fs1 bl1" using i1 by (simp add: hm_def)
    have stm: "arena_start hm = arena_start h" using st1 by (simp add: hm_def arena_start_def)
    have pl: "p \<in> live_set (arena_start hm) fs1" using live s1 False by (simp add: stm)
    from o1heapFree_inv[OF im pl] obtain fs2 bl2 where
      f: "heap_inv (o1heapFree hm p) fs2 bl2"
        "live_set (arena_start hm) fs2 = live_set (arena_start hm) fs1 - {p}"
        "peak_request_size (diagnostics (o1heapFree hm p)) = peak_request_size (diagnostics hm)"
        "oom_count (diagnostics (o1heapFree hm p)) = oom_count (diagnostics hm)"
        "peak_allocated (diagnostics (o1heapFree hm p)) = peak_allocated (diagnostics hm)"
        "capacity (diagnostics (o1heapFree hm p)) = capacity (diagnostics hm)"
        "arena_end (o1heapFree hm p) = arena_end hm"
      by blast
    have dm: "diagnostics hm = diagnostics h1" "arena_end hm = arena_end h1" by (simp_all add: hm_def)
    have ne: "out1 \<noteq> p" using s1 False live by auto
    have lv: "live_set (arena_start h) fs2 = insert out1 (live_set (arena_start h) fs - {p})"
      using f(2) s1 False ne by (auto simp add: stm)
    show ?thesis
      using f(1) lv False s1 f(3-7) dm cap1 ae1 prs1
      by (intro exI[of _ fs2] exI[of _ bl2]) (simp add: h')
  qed
qed

section \<open>o1heapReallocate preserves the invariant\<close>

lemma larger_idem [simp]: "larger (larger a b) b = larger a b"
  by (auto simp add: larger_def)

lemma sum_le64:
  "a + b < 2 ^ 64 \<Longrightarrow> x < 2 ^ 64 \<Longrightarrow>
   ((of_nat x :: size_t) \<le> of_nat a + of_nat b) = (x \<le> a + b)"
  using of_nat_le64[of x "a + b"] by (simp add: of_nat_add)

lemma sum3_le64:
  "a + b + c < 2 ^ 64 \<Longrightarrow> x < 2 ^ 64 \<Longrightarrow>
   ((of_nat x :: size_t) \<le> of_nat a + of_nat b + of_nat c) = (x \<le> a + b + c)"
  using of_nat_le64[of x "a + b + c"] by (simp add: of_nat_add)

lemma o1heapReallocate_inv:
  assumes inv: "heap_inv h fs bl" and live: "p \<in> live_set (arena_start h) fs" and n0: "n \<noteq> 0"
    and r: "o1heapReallocate h p n = (h', out)"
  shows "\<exists>fs' bl'. heap_inv h' fs' bl' \<and>
           capacity (diagnostics h') = capacity (diagnostics h) \<and> arena_end h' = arena_end h \<and>
           peak_request_size (diagnostics h') = larger (peak_request_size (diagnostics h)) n \<and>
           unat (peak_allocated (diagnostics h)) \<le> unat (peak_allocated (diagnostics h')) \<and>
           (out = 0 \<longrightarrow> fs' = fs \<and> bl' = bl \<and>
              h' = h\<lparr>diagnostics := (diagnostics h)\<lparr>
                     peak_request_size := larger (peak_request_size (diagnostics h)) n,
                     oom_count := oom_count (diagnostics h) + 1\<rparr>\<rparr>) \<and>
           (out \<noteq> 0 \<longrightarrow>
              live_set (arena_start h) fs' = insert out (live_set (arena_start h) fs - {p}) \<and>
              oom_count (diagnostics h') = oom_count (diagnostics h) \<and>
              unat n + 16 \<le> unat (peak_allocated (diagnostics h')))"
proof -
  define a0 where "a0 = arena_start h"
  define h0 where "h0 = h\<lparr>diagnostics := (diagnostics h)\<lparr>peak_request_size :=
                    larger (peak_request_size (diagnostics h)) n\<rparr>\<rparr>"
  have inv0: "heap_inv h0 fs bl" using inv by (simp add: h0_def heap_inv_diag)
  have st0: "arena_start h0 = arena_start h" by (simp add: h0_def arena_start_def)
  have d0: "capacity (diagnostics h0) = capacity (diagnostics h)"
    "peak_request_size (diagnostics h0) = larger (peak_request_size (diagnostics h)) n"
    "oom_count (diagnostics h0) = oom_count (diagnostics h)"
    "peak_allocated (diagnostics h0) = peak_allocated (diagnostics h)"
    "arena_end h0 = arena_end h"
    by (simp_all add: h0_def)
  have p0: "p \<noteq> 0" using live_set_nonnull[OF inv live] .
  from inv have capb: "32 \<le> unat (capacity (diagnostics h))" "unat (capacity (diagnostics h)) \<le> 2 ^ 63"
    by (simp_all add: heap_inv_def)
  show ?thesis
  proof (cases "n > capacity (diagnostics h) - O1HEAP_ALIGNMENT")
    case True
    have "o1heapReallocate h p n = (h\<lparr>diagnostics := (diagnostics h)\<lparr>
                     peak_request_size := larger (peak_request_size (diagnostics h)) n,
                     oom_count := oom_count (diagnostics h) + 1\<rparr>\<rparr>, 0)"
      using True p0 n0 by (simp add: o1heapReallocate_def Let_def)
    then have e: "h' = h\<lparr>diagnostics := (diagnostics h)\<lparr>
                     peak_request_size := larger (peak_request_size (diagnostics h)) n,
                     oom_count := oom_count (diagnostics h) + 1\<rparr>\<rparr>" "out = 0"
      using r by simp_all
    have "heap_inv h' fs bl" unfolding e using inv by (simp add: heap_inv_diag)
    then show ?thesis using e by (intro exI[of _ fs] exI[of _ bl]) simp
  next
    case False
    note ng = False
    from False have guard: "n \<le> capacity (diagnostics h) - O1HEAP_ALIGNMENT" by simp
    have npos: "0 < n" using n0 by (simp add: word_gt_0)
    from request_size_pow[OF capb(2,1) npos guard] obtain k where
      k: "5 \<le> k" "k < 64" "request_size n = of_nat (2 ^ k)" "unat n + 16 \<le> 2 ^ k"
      by blast
    define need :: nat where "need = 2 ^ k"
    have need_pow: "need = 32 * 2 ^ (k - 5)"
    proof -
      have "(2::nat) ^ k = 2 ^ (5 + (k - 5))" using k by simp
      then show ?thesis by (simp only: need_def power_add) simp
    qed
    have n32: "32 \<le> need" "32 dvd need" by (simp_all add: need_pow)
    have n64: "need < 2 ^ 64" unfolding need_def by (rule power_strict_increasing) (use k in simp_all)
    have rq: "roundUpToPowerOf2 (n + O1HEAP_ALIGNMENT) = of_nat need"
      using k(3) by (simp add: request_size_def need_def)
    have nn: "unat n + 16 \<le> need" using k(4) by (simp add: need_def)
    note b = heap_inv_bounds[OF inv, folded a0_def]
    from live_set_addr[OF live] obtain c s where
      p: "p = of_nat c + O1HEAP_ALIGNMENT" and sp: "(c, s, True) \<in> set (spans a0 fs)"
      by (auto simp add: a0_def)
    from spans_split[OF sp] obtain xs ys where fs: "fs = xs @ (s, True) # ys" and c: "c = a0 + total xs"
      by auto
    note c0 = c[unfolded a0_def]
    note c00 = c0[folded st0]
    note fi = heap_inv_frag[OF inv fs, folded a0_def, folded c, simplified]
    note pr = heap_inv_prev[OF inv fs c0]
    note nx = heap_inv_next[OF inv fs c0, simplified]
    define frag :: ptr where "frag = of_nat c"
    have pf: "p - O1HEAP_ALIGNMENT = frag" by (simp add: p frag_def)
    have fsz: "fragGetSize h frag = of_nat s" using fi(4) by (simp add: frag_def)
    have s32: "32 \<le> s" "32 dvd s" using b(5) fs by simp_all
    define nif where "nif = (ys \<noteq> [] \<and> \<not> snd (hd ys))"
    define pif where "pif = (xs \<noteq> [] \<and> \<not> snd (last xs))"
    define snv where "snv = (if nif then fst (hd ys) else 0)"
    define spv where "spv = (if pif then fst (last xs) else 0)"
    have tot: "spv + s + snv \<le> total fs"
    proof -
      have 1: "spv \<le> total xs" by (cases xs rule: rev_cases) (simp_all add: spv_def pif_def)
      have 2: "snv \<le> total ys" by (cases ys) (simp_all add: snv_def nif_def)
      show ?thesis using 1 2 by (simp add: fs)
    qed
    have b64: "spv + s + snv < 2 ^ 64" "s + snv < 2 ^ 64" "s < 2 ^ 64" using tot b(2) by simp_all
    have nfree: "(fragGetNext h frag \<noteq> 0 \<and> \<not> fragIsUsed h (fragGetNext h frag)) = nif"
      using nx(2) by (simp add: frag_def nif_def)
    have pfree: "(fragGetPrev h frag \<noteq> 0 \<and> \<not> fragIsUsed h (fragGetPrev h frag)) = pif"
      using pr(2) by (simp add: frag_def pif_def)
    have nsize: "fragGetSize h (fragGetNext h frag) = of_nat snv" if nif
    proof -
      from that obtain g ys' where y: "ys = g # ys'" by (cases ys) (auto simp add: nif_def)
      have fs2: "fs = (xs @ [(s, True)]) @ g # ys'" by (simp add: fs y)
      have cn: "c + s = arena_start h + total (xs @ [(s, True)])" by (simp add: c0)
      note fin = heap_inv_frag[OF inv fs2, folded cn]
      have "fragGetNext h frag = of_nat (c + s)" using nx(4) by (simp add: frag_def y)
      then show ?thesis using fin(4) that by (simp add: snv_def y)
    qed
    have psize: "fragGetSize h (fragGetPrev h frag) = of_nat spv" if pif
    proof -
      from that obtain g xs' where x: "xs = xs' @ [g]" by (cases xs rule: rev_cases) (auto simp add: pif_def)
      have fs1: "fs = xs' @ g # ((s, True) # ys)" by (simp add: fs x)
      note fip = heap_inv_frag[OF inv fs1]
      have "fragGetPrev h frag = of_nat (arena_start h + total xs')" using pr(4)[OF x] by (simp add: frag_def)
      then show ?thesis using fip(4) that by (simp add: spv_def x)
    qed
    have sn0: "\<not> nif \<Longrightarrow> snv = 0" and sp0: "\<not> pif \<Longrightarrow> spv = 0" by (simp_all add: snv_def spv_def)
    define oa where "oa = (of_nat s :: size_t) - O1HEAP_ALIGNMENT"
    have disp: "o1heapReallocate h p n =
      (if need \<le> s
       then (realloc_shrink h0 frag (of_nat s) (of_nat need) (fragGetNext h frag) nif (of_nat snv), p)
       else if nif \<and> need \<le> s + snv
       then (realloc_expand_forward h0 frag (of_nat s) (of_nat need) (fragGetNext h frag) (of_nat snv), p)
       else if pif \<and> need \<le> spv + s + snv
       then realloc_expand_backward h0 p frag (of_nat s) oa (of_nat need)
              (fragGetPrev h frag) (of_nat spv) (fragGetNext h frag) nif (of_nat snv)
       else realloc_new_block h0 p oa n)"
    proof -
      have le1: "((of_nat need :: size_t) \<le> of_nat s) = (need \<le> s)"
        using n64 b64(3) by (rule of_nat_le64)
      have le2: "((of_nat need :: size_t) \<le> of_nat s + of_nat snv) = (need \<le> s + snv)"
        using b64(2) n64 by (rule sum_le64)
      have le3: "((of_nat need :: size_t) \<le> of_nat spv + of_nat s + of_nat snv) = (need \<le> spv + s + snv)"
        using b64(1) n64 by (rule sum3_le64)
      have le4: "((of_nat need :: size_t) \<le> of_nat spv + of_nat s) = (need \<le> spv + s)"
        using b64(1) n64 by (intro sum_le64) simp_all
      show ?thesis
      proof (cases pif; cases nif)
        assume a: pif nif
        show ?thesis
          using a p0 n0 ng sn0 sp0
          by (simp add: o1heapReallocate_def Let_def pf fsz rq nfree pfree nsize psize le1 le2 le3
              h0_def oa_def)
      next
        assume a: pif "\<not> nif"
        show ?thesis
          using a p0 n0 ng sn0 sp0
          by (simp add: o1heapReallocate_def Let_def pf fsz rq nfree pfree psize le1 le4
              h0_def oa_def)
      next
        assume a: "\<not> pif" nif
        show ?thesis
          using a p0 n0 ng sn0 sp0
          by (simp add: o1heapReallocate_def Let_def pf fsz rq nfree pfree nsize le1 le2
              h0_def oa_def)
      next
        assume a: "\<not> pif" "\<not> nif"
        show ?thesis
          using a p0 n0 ng sn0 sp0
          by (simp add: o1heapReallocate_def Let_def pf fsz rq nfree pfree le1
              h0_def oa_def)
      qed
    qed
    have acc0: "fragGetNext h0 q = fragGetNext h q" "fragGetPrev h0 q = fragGetPrev h q" for q
      by (simp_all add: h0_def)
    consider (shrink) "need \<le> s"
      | (forward) "\<not> need \<le> s" "nif" "need \<le> s + snv"
      | (backward) "\<not> need \<le> s" "\<not> (nif \<and> need \<le> s + snv)" "pif" "need \<le> spv + s + snv"
      | (fallback) "\<not> need \<le> s" "\<not> (nif \<and> need \<le> s + snv)" "\<not> (pif \<and> need \<le> spv + s + snv)"
      by blast
    then show ?thesis
    proof cases
      case shrink
      have e: "h' = realloc_shrink h0 (of_nat c) (of_nat s) (of_nat need) (fragGetNext h0 (of_nat c)) nif
                 (of_nat snv)" "out = p"
        using r shrink by (simp_all add: disp acc0 frag_def)
      have nsz: "(of_nat snv :: size_t) = (if nif then of_nat (fst (hd ys)) else 0)" by (simp add: snv_def)
      from realloc_shrink_inv[OF inv0 fs c00 n32 shrink nif_def nsz e(1)] obtain fs' bl' where
        z: "heap_inv h' fs' bl'" "live_set (arena_start h0) fs' = live_set (arena_start h0) fs"
          "peak_request_size (diagnostics h') = peak_request_size (diagnostics h0)"
          "oom_count (diagnostics h') = oom_count (diagnostics h0)"
          "peak_allocated (diagnostics h') = peak_allocated (diagnostics h0)"
          "capacity (diagnostics h') = capacity (diagnostics h0)"
          "arena_end h' = arena_end h0" "need \<le> unat (peak_allocated (diagnostics h'))"
        by blast
      have lv: "live_set (arena_start h) fs' = insert p (live_set (arena_start h) fs - {p})"
        using z(2) live by (auto simp add: st0)
      show ?thesis
        using z(1,3-8) lv p0 nn
        by (intro exI[of _ fs'] exI[of _ bl']) (simp add: e(2) d0)
    next
      case forward
      from forward(2) obtain sn ys' where y: "ys = (sn, False) # ys'"
        by (cases ys) (auto simp add: nif_def prod_eq_iff)
      have fs2: "fs = xs @ (s, True) # (sn, False) # ys'" by (simp add: fs y)
      have sv: "snv = sn" using forward(2) by (simp add: snv_def y)
      have lt: "s < need" using forward(1) by simp
      have e: "h' = realloc_expand_forward h0 (of_nat c) (of_nat s) (of_nat need) (fragGetNext h0 (of_nat c))
                 (of_nat sn)" "out = p"
        using r forward by (simp_all add: disp acc0 frag_def sv)
      from realloc_expand_forward_inv[OF inv0 fs2 c00 n32(2) lt forward(3)[unfolded sv] e(1)] obtain fs' bl' where
        z: "heap_inv h' fs' bl'" "live_set (arena_start h0) fs' = live_set (arena_start h0) fs"
          "peak_request_size (diagnostics h') = peak_request_size (diagnostics h0)"
          "oom_count (diagnostics h') = oom_count (diagnostics h0)"
          "unat (peak_allocated (diagnostics h0)) \<le> unat (peak_allocated (diagnostics h'))"
          "capacity (diagnostics h') = capacity (diagnostics h0)"
          "arena_end h' = arena_end h0" "need \<le> unat (peak_allocated (diagnostics h'))"
        by blast
      have lv: "live_set (arena_start h) fs' = insert p (live_set (arena_start h) fs - {p})"
        using z(2) live by (auto simp add: st0)
      show ?thesis
        using z(1,3-8) lv p0 nn
        by (intro exI[of _ fs'] exI[of _ bl']) (simp add: e(2) d0)
    next
      case backward
      from backward(3) obtain sp' xs' where x: "xs = xs' @ [(sp', False)]"
        by (cases xs rule: rev_cases) (auto simp add: pif_def prod_eq_iff)
      have fs1: "fs = xs' @ (sp', False) # (s, True) # ys" by (simp add: fs x)
      have sv: "spv = sp'" using backward(3) by (simp add: spv_def x)
      have c1: "c = arena_start h0 + total xs' + sp'" by (simp add: c0 x st0)
      have lt: "s < need" using backward(1) by simp
      have e0: "realloc_expand_backward h0 p frag (of_nat s) oa (of_nat need)
              (fragGetPrev h frag) (of_nat spv) (fragGetNext h frag) nif (of_nat snv) = (h', out)"
        using r backward by (simp add: disp)
      have e: "realloc_expand_backward h0 (of_nat c + O1HEAP_ALIGNMENT) (of_nat c) (of_nat s) oa (of_nat need)
              (fragGetPrev h0 (of_nat c)) (of_nat sp') (fragGetNext h0 (of_nat c)) nif (of_nat snv) = (h', out)"
        using e0 by (simp add: acc0 frag_def sv p)
      from realloc_expand_backward_inv[OF inv0 fs1 c1 nif_def snv_def n32(2) lt backward(4)[unfolded sv] e]
      obtain fs' bl' where
        z: "heap_inv h' fs' bl'" "out \<noteq> 0"
          "live_set (arena_start h0) fs' =
             insert out (live_set (arena_start h0) fs - {of_nat c + O1HEAP_ALIGNMENT})"
          "peak_request_size (diagnostics h') = peak_request_size (diagnostics h0)"
          "oom_count (diagnostics h') = oom_count (diagnostics h0)"
          "unat (peak_allocated (diagnostics h0)) \<le> unat (peak_allocated (diagnostics h'))"
          "capacity (diagnostics h') = capacity (diagnostics h0)"
          "arena_end h' = arena_end h0" "need \<le> unat (peak_allocated (diagnostics h'))"
        by blast
      show ?thesis
        using z nn
        by (intro exI[of _ fs'] exI[of _ bl']) (simp add: d0 st0 p)
    next
      case fallback
      have e: "realloc_new_block h0 p oa n = (h', out)"
        using r fallback by (simp add: disp)
      have l0: "p \<in> live_set (arena_start h0) fs" using live by (simp add: st0)
      from realloc_new_block_inv[OF inv0 l0 e] obtain fs' bl' where
        z: "heap_inv h' fs' bl'"
           "capacity (diagnostics h') = capacity (diagnostics h0)" "arena_end h' = arena_end h0"
           "peak_request_size (diagnostics h') = larger (peak_request_size (diagnostics h0)) n"
           "unat (peak_allocated (diagnostics h0)) \<le> unat (peak_allocated (diagnostics h'))"
           "out = 0 \<longrightarrow> fs' = fs \<and> bl' = bl \<and>
              h' = h0\<lparr>diagnostics := (diagnostics h0)\<lparr>
                     peak_request_size := larger (peak_request_size (diagnostics h0)) n,
                     oom_count := oom_count (diagnostics h0) + (if n = 0 then 0 else 1)\<rparr>\<rparr>"
           "out \<noteq> 0 \<longrightarrow>
              live_set (arena_start h0) fs' = insert out (live_set (arena_start h0) fs - {p}) \<and>
              oom_count (diagnostics h') = oom_count (diagnostics h0) \<and>
              unat n + 16 \<le> unat (peak_allocated (diagnostics h'))"
        by blast
      have hz: "h0\<lparr>diagnostics := (diagnostics h0)\<lparr>
                     peak_request_size := larger (peak_request_size (diagnostics h0)) n,
                     oom_count := oom_count (diagnostics h0) + (if n = 0 then 0 else 1)\<rparr>\<rparr> =
                h\<lparr>diagnostics := (diagnostics h)\<lparr>
                     peak_request_size := larger (peak_request_size (diagnostics h)) n,
                     oom_count := oom_count (diagnostics h) + 1\<rparr>\<rparr>"
        using n0 by (simp add: h0_def)
      show ?thesis
        using z(1-5) z(6)[unfolded hz] z(7)
        by (intro exI[of _ fs'] exI[of _ bl']) (simp add: d0 st0)
    qed
  qed
qed

section \<open>The invariant holds in every reachable heap\<close>

lemma step_reallocate:
  assumes ri: "run_inv h live" and pm: "p = 0 \<or> p \<in> set live"
    and r: "o1heapReallocate h p n = (h', out)"
  shows "run_inv h' (live_after live (Reallocate p n) out)"
proof (cases "p = 0")
  case True
  then have "o1heapAllocate h n = (h', out)" using r by (simp add: o1heapReallocate_def)
  from step_allocate[OF ri this] show ?thesis using True by simp
next
  case False
  then have pl: "p \<in> set live" using pm by simp
  show ?thesis
  proof (cases "n = 0")
    case True
    then have "h' = o1heapFree h p" "out = 0" using r False by (simp_all add: o1heapReallocate_def)
    then show ?thesis using step_free[OF ri pm] False True by simp
  next
    case nz: False
    from ri obtain fs bl where inv: "heap_inv h fs bl" and l: "set live = live_set (arena_start h) fs"
      by (auto simp add: run_inv_def)
    have "p \<in> live_set (arena_start h) fs" using pl l by simp
    from o1heapReallocate_inv[OF inv this nz r] obtain fs' bl' where
      a: "heap_inv h' fs' bl'" "capacity (diagnostics h') = capacity (diagnostics h)"
        "arena_end h' = arena_end h" "out = 0 \<longrightarrow> fs' = fs"
        "out \<noteq> 0 \<longrightarrow> live_set (arena_start h) fs' = insert out (live_set (arena_start h) fs - {p})"
      by blast
    have s: "arena_start h' = arena_start h" using a(2,3) by (rule arena_start_eq)
    show ?thesis unfolding run_inv_def
      using a(1,4,5) l False nz by (intro exI[of _ fs'] exI[of _ bl']) (auto simp add: s)
  qed
qed

lemma step_perform:
  assumes "run_inv h live" "permitted live c"
  shows "run_inv (fst (perform h c)) (live_after live c (snd (perform h c)))"
proof (cases c)
  case (Allocate n)
  then show ?thesis using step_allocate[OF assms(1), of n "fst (o1heapAllocate h n)" "snd (o1heapAllocate h n)"]
    by simp
next
  case (Free p)
  then show ?thesis using step_free[OF assms(1), of p] assms(2) by simp
next
  case (Reallocate p n)
  then show ?thesis
    using step_reallocate[OF assms(1), of p n "fst (o1heapReallocate h p n)" "snd (o1heapReallocate h p n)"]
      assms(2) by simp
qed

lemma run_inv_run:
  "run_inv h live \<Longrightarrow> run (h, live) cs = Some (h', live') \<Longrightarrow> run_inv h' live'"
proof (induction cs arbitrary: h live)
  case Nil
  then show ?case by simp
next
  case (Cons c cs)
  from Cons.prems(2) have pm: "permitted live c"
    and r: "run (fst (perform h c), live_after live c (snd (perform h c))) cs = Some (h', live')"
    by (simp_all add: Let_def split: if_splits)
  from Cons.IH[OF step_perform[OF Cons.prems(1) pm] r] show ?case .
qed

lemma run_inv_reachable:
  assumes "arena_object base sz" "o1heapInit mem dat base sz = Some h0"
    and "run (h0, []) cs = Some (h, live)"
  shows "run_inv h live"
  using run_inv_run[OF init_run_inv[OF assms(1,2)] assms(3)] .

lemma run_append:
  "run s (cs @ ds) = (case run s cs of None \<Rightarrow> None | Some t \<Rightarrow> run t ds)"
proof (induction cs arbitrary: s)
  case Nil
  then show ?case by simp
next
  case (Cons c cs)
  then show ?case by (simp add: Let_def)
qed

section \<open>The chain of fragments\<close>

lemma chain_dseg:
  "dseg (fragGetNext h) pv p f as 0 \<Longrightarrow> 0 \<notin> set as \<Longrightarrow> length as \<le> k \<Longrightarrow> chain h k f = as"
proof (induction as arbitrary: k f p)
  case Nil
  then show ?case by (cases k) simp_all
next
  case (Cons a as)
  from Cons.prems(3) obtain k' where k: "k = Suc k'" by (cases k) simp_all
  from Cons.prems(1) have f: "f = a" and d: "dseg (fragGetNext h) pv a (fragGetNext h a) as 0"
    by simp_all
  have "chain h k' (fragGetNext h a) = as"
    using Cons.IH[OF d] Cons.prems(2,3) k by simp
  then show ?case using Cons.prems(2) by (simp add: k f)
qed

lemma sizes_ok_length: "sizes_ok fs \<Longrightarrow> 32 * length fs \<le> total fs"
  by (induction fs) auto

lemma length_spans [simp]: "length (spans a fs) = length fs"
  by (induction fs arbitrary: a) simp_all

lemma fragments_addrs:
  assumes inv: "heap_inv h fs bl"
  shows "fragments h = addrs (arena_start h) fs"
proof -
  note b = heap_inv_bounds[OF inv]
  from inv have ch: "chain_v (nextf (frags h)) (prevf (frags h)) (usedf (frags h)) (arena_start h) fs"
    by (simp add: heap_inv_def)
  then have d: "dseg (fragGetNext h) (fragGetPrev h) 0 (of_nat (arena_start h)) (addrs (arena_start h) fs) 0"
    by (simp add: chain_v_def accessors_fun)
  have nz: "0 \<notin> set (addrs (arena_start h) fs)"
    using addrs_nonnull[OF b(1) b(2)] by blast
  have "length fs * 32 \<le> total fs" using sizes_ok_length[OF b(5)] by (simp add: mult.commute)
  then have "length fs \<le> total fs div 32" by (simp add: less_eq_div_iff_mult_less_eq)
  then have len: "length (addrs (arena_start h) fs) \<le> unat (capacity (diagnostics h)) div 32"
    using b(6) by (simp add: addrs_def)
  have "capacity (diagnostics h) = of_nat (total fs)" using b(6) by simp
  then have first: "arena_end h - capacity (diagnostics h) = of_nat (arena_start h)"
    using b(4) by (simp add: of_nat_add)
  show ?thesis unfolding fragments_def first by (rule chain_dseg[OF d nz len])
qed

lemma addrs_all2:
  assumes "\<And>xs f ys. pre @ fs = xs @ f # ys \<Longrightarrow> P (of_nat (a0 + total xs)) f"
  shows "list_all2 P (addrs (a0 + total pre) fs) fs"
  using assms
proof (induction fs arbitrary: pre)
  case Nil
  then show ?case by simp
next
  case (Cons f fs)
  have 1: "P (of_nat (a0 + total pre)) f" using Cons.prems[of pre f fs] by simp
  have "list_all2 P (addrs (a0 + total (pre @ [f])) fs) fs"
  proof (rule Cons.IH)
    fix xs g ys assume "(pre @ [f]) @ fs = xs @ g # ys"
    then have "pre @ f # fs = xs @ g # ys" by simp
    then show "P (of_nat (a0 + total xs)) g" by (rule Cons.prems)
  qed
  then show ?case using 1 by (simp add: add.assoc)
qed

lemma heap_inv_fragments:
  assumes inv: "heap_inv h fs bl"
  shows "list_all (\<lambda>f. \<not> adjacent_free h f) (fragments h)"
    and "sum_list (map (\<lambda>f. unat (fragGetSize h f)) (fragments h)) = unat (capacity (diagnostics h))"
    and "map (fragIsUsed h) (fragments h) = map snd fs"
proof -
  note b = heap_inv_bounds[OF inv]
  from inv have nf: "naf fs" by (simp add: heap_inv_def)
  have P: "\<not> adjacent_free h (of_nat (arena_start h + total xs)) \<and>
           unat (fragGetSize h (of_nat (arena_start h + total xs))) = fst f \<and>
           fragIsUsed h (of_nat (arena_start h + total xs)) = snd f"
    if fs: "[] @ fs = xs @ f # ys" for xs f ys
  proof -
    have fs': "fs = xs @ f # ys" using fs by simp
    note fi = heap_inv_frag[OF inv fs']
    note nx = heap_inv_next[OF inv fs' refl]
    have "fst f < 2 ^ 64" using fi(6) b(2) by simp
    then have 1: "unat (fragGetSize h (of_nat (arena_start h + total xs))) = fst f"
      unfolding fi(4) by (rule unat_of_nat64)
    have "snd f \<or> ys = [] \<or> snd (hd ys)" using nf by (auto simp add: fs' naf_append naf_cons)
    then have 2: "\<not> adjacent_free h (of_nat (arena_start h + total xs))"
      using fi(3) nx(2) by (auto simp add: adjacent_free_def)
    show ?thesis using 1 2 fi(3) by simp
  qed
  have all: "list_all2 (\<lambda>p f. \<not> adjacent_free h p \<and> unat (fragGetSize h p) = fst f \<and> fragIsUsed h p = snd f)
               (addrs (arena_start h) fs) fs"
    using addrs_all2[of "[]" fs "\<lambda>p f. \<not> adjacent_free h p \<and> unat (fragGetSize h p) = fst f \<and> fragIsUsed h p = snd f"
        "arena_start h"] P by simp
  show "list_all (\<lambda>f. \<not> adjacent_free h f) (fragments h)"
    using all unfolding fragments_addrs[OF inv]
    by (auto simp add: list_all_iff list_all2_conv_all_nth in_set_conv_nth)
  have "map (\<lambda>f. unat (fragGetSize h f)) (addrs (arena_start h) fs) = map fst fs"
    using all by (auto simp add: list_all2_conv_all_nth intro!: nth_equalityI)
  then show "sum_list (map (\<lambda>f. unat (fragGetSize h f)) (fragments h)) = unat (capacity (diagnostics h))"
    unfolding fragments_addrs[OF inv] using b(6) by (simp add: total_def)
  show "map (fragIsUsed h) (fragments h) = map snd fs"
    unfolding fragments_addrs[OF inv]
    using all by (auto simp add: list_all2_conv_all_nth intro!: nth_equalityI)
qed

section \<open>The request counters\<close>

lemma larger_max: "unat (larger a b) = max (unat a) (unat b)"
  by (auto simp add: larger_def word_less_nat_alt max_def)

lemma perform_facts:
  assumes ri: "run_inv h live" and pm: "permitted live c"
  defines "d \<equiv> diagnostics h" and "d' \<equiv> diagnostics (fst (perform h c))"
  shows "unat (peak_allocated d) \<le> unat (peak_allocated d')"
    and "(peak_request_size d' = peak_request_size d \<and> oom_count d' = oom_count d \<and>
          peak_allocated d' = peak_allocated d) \<or>
         (\<exists>n. n \<noteq> 0 \<and> peak_request_size d' = larger (peak_request_size d) n \<and>
            ((oom_count d' = oom_count d + 1 \<and> peak_allocated d' = peak_allocated d) \<or>
             (oom_count d' = oom_count d \<and> unat n + 16 \<le> unat (peak_allocated d'))))"
proof -
  from ri obtain fs bl where inv: "heap_inv h fs bl" and l: "set live = live_set (arena_start h) fs"
    by (auto simp add: run_inv_def)
  have alloc: "unat (peak_allocated (diagnostics h)) \<le> unat (peak_allocated (diagnostics h')) \<and>
     ((peak_request_size (diagnostics h') = peak_request_size (diagnostics h) \<and>
       oom_count (diagnostics h') = oom_count (diagnostics h) \<and>
       peak_allocated (diagnostics h') = peak_allocated (diagnostics h)) \<or>
      (\<exists>n. n \<noteq> 0 \<and> peak_request_size (diagnostics h') = larger (peak_request_size (diagnostics h)) n \<and>
            ((oom_count (diagnostics h') = oom_count (diagnostics h) + 1 \<and>
              peak_allocated (diagnostics h') = peak_allocated (diagnostics h)) \<or>
             (oom_count (diagnostics h') = oom_count (diagnostics h) \<and>
              unat n + 16 \<le> unat (peak_allocated (diagnostics h'))))))"
    if a: "o1heapAllocate h n = (h', out)" for n h' out
  proof -
    from o1heapAllocate_inv[OF inv a] obtain fs' bl' where
      z: "peak_request_size (diagnostics h') = larger (peak_request_size (diagnostics h)) n"
        "(out \<noteq> 0) = fits h fs n"
        "out = 0 \<longrightarrow> h' = h\<lparr>diagnostics := (diagnostics h)\<lparr>
                     peak_request_size := larger (peak_request_size (diagnostics h)) n,
                     oom_count := oom_count (diagnostics h) + (if n = 0 then 0 else 1)\<rparr>\<rparr>"
        "out \<noteq> 0 \<longrightarrow> oom_count (diagnostics h') = oom_count (diagnostics h) \<and>
              unat (peak_allocated (diagnostics h)) \<le> unat (peak_allocated (diagnostics h')) \<and>
              unat n + 16 \<le> unat (peak_allocated (diagnostics h'))"
      by blast
    show ?thesis
    proof (cases "out = 0")
      case True
      with z(3) have e: "h' = h\<lparr>diagnostics := (diagnostics h)\<lparr>
                     peak_request_size := larger (peak_request_size (diagnostics h)) n,
                     oom_count := oom_count (diagnostics h) + (if n = 0 then 0 else 1)\<rparr>\<rparr>" by simp
      show ?thesis
      proof (cases "n = 0")
        case True
        then show ?thesis by (simp add: e)
      next
        case False
        have "\<exists>n. n \<noteq> 0 \<and> peak_request_size (diagnostics h') = larger (peak_request_size (diagnostics h)) n \<and>
            ((oom_count (diagnostics h') = oom_count (diagnostics h) + 1 \<and>
              peak_allocated (diagnostics h') = peak_allocated (diagnostics h)) \<or>
             (oom_count (diagnostics h') = oom_count (diagnostics h) \<and>
              unat n + 16 \<le> unat (peak_allocated (diagnostics h'))))"
          using False by (intro exI[of _ n]) (simp add: e)
        moreover have "unat (peak_allocated (diagnostics h)) \<le> unat (peak_allocated (diagnostics h'))"
          by (simp add: e)
        ultimately show ?thesis by blast
      qed
    next
      case False
      then have "fits h fs n" using z(2) by simp
      then have n0: "n \<noteq> 0" by (auto simp add: fits_def)
      have "\<exists>n. n \<noteq> 0 \<and> peak_request_size (diagnostics h') = larger (peak_request_size (diagnostics h)) n \<and>
            ((oom_count (diagnostics h') = oom_count (diagnostics h) + 1 \<and>
              peak_allocated (diagnostics h') = peak_allocated (diagnostics h)) \<or>
             (oom_count (diagnostics h') = oom_count (diagnostics h) \<and>
              unat n + 16 \<le> unat (peak_allocated (diagnostics h'))))"
        using n0 z(1,4) False by (intro exI[of _ n]) simp
      then show ?thesis using z(4) False by blast
    qed
  qed
  have free: "unat (peak_allocated (diagnostics h)) \<le> unat (peak_allocated (diagnostics (o1heapFree h p))) \<and>
     ((peak_request_size (diagnostics (o1heapFree h p)) = peak_request_size (diagnostics h) \<and>
       oom_count (diagnostics (o1heapFree h p)) = oom_count (diagnostics h) \<and>
       peak_allocated (diagnostics (o1heapFree h p)) = peak_allocated (diagnostics h)) \<or> Q)" for p Q
    by (simp add: o1heapFree_diag)
  have both: "unat (peak_allocated d) \<le> unat (peak_allocated d') \<and>
        ((peak_request_size d' = peak_request_size d \<and> oom_count d' = oom_count d \<and>
          peak_allocated d' = peak_allocated d) \<or>
         (\<exists>n. n \<noteq> 0 \<and> peak_request_size d' = larger (peak_request_size d) n \<and>
            ((oom_count d' = oom_count d + 1 \<and> peak_allocated d' = peak_allocated d) \<or>
             (oom_count d' = oom_count d \<and> unat n + 16 \<le> unat (peak_allocated d')))))"
  proof (cases c)
    case (Allocate n)
    show ?thesis unfolding d_def d'_def Allocate perform.simps
      by (rule alloc[OF prod.collapse[symmetric]])
  next
    case (Free p)
    show ?thesis unfolding d_def d'_def Free perform.simps fst_conv by (rule free)
  next
    case (Reallocate p n)
    show ?thesis
    proof (cases "p = 0")
      case True
      have e: "o1heapReallocate h p n = o1heapAllocate h n" using True by (simp add: o1heapReallocate_def)
      show ?thesis unfolding d_def d'_def Reallocate perform.simps e
        by (rule alloc[OF prod.collapse[symmetric]])
    next
      case False
      then have pl: "p \<in> live_set (arena_start h) fs" using pm l Reallocate by simp
      show ?thesis
      proof (cases "n = 0")
        case True
        have e: "fst (o1heapReallocate h p n) = o1heapFree h p" using True False by (simp add: o1heapReallocate_def)
        show ?thesis unfolding d_def d'_def Reallocate perform.simps e by (rule free)
      next
        case nz: False
        obtain h' out where r: "o1heapReallocate h p n = (h', out)" by (cases "o1heapReallocate h p n")
        from o1heapReallocate_inv[OF inv pl nz r] obtain fs' bl' where
          z: "peak_request_size (diagnostics h') = larger (peak_request_size (diagnostics h)) n"
             "unat (peak_allocated (diagnostics h)) \<le> unat (peak_allocated (diagnostics h'))"
             "out = 0 \<longrightarrow> h' = h\<lparr>diagnostics := (diagnostics h)\<lparr>
                     peak_request_size := larger (peak_request_size (diagnostics h)) n,
                     oom_count := oom_count (diagnostics h) + 1\<rparr>\<rparr>"
             "out \<noteq> 0 \<longrightarrow> oom_count (diagnostics h') = oom_count (diagnostics h) \<and>
                unat n + 16 \<le> unat (peak_allocated (diagnostics h'))"
          by blast
        have "(oom_count (diagnostics h') = oom_count (diagnostics h) + 1 \<and>
              peak_allocated (diagnostics h') = peak_allocated (diagnostics h)) \<or>
             (oom_count (diagnostics h') = oom_count (diagnostics h) \<and>
              unat n + 16 \<le> unat (peak_allocated (diagnostics h')))"
        proof (cases "out = 0")
          case True
          with z(3) have "h' = h\<lparr>diagnostics := (diagnostics h)\<lparr>
                     peak_request_size := larger (peak_request_size (diagnostics h)) n,
                     oom_count := oom_count (diagnostics h) + 1\<rparr>\<rparr>" by simp
          then show ?thesis by simp
        next
          case False
          then show ?thesis using z(4) by simp
        qed
        then have "\<exists>n. n \<noteq> 0 \<and> peak_request_size (diagnostics h') = larger (peak_request_size (diagnostics h)) n \<and>
            ((oom_count (diagnostics h') = oom_count (diagnostics h) + 1 \<and>
              peak_allocated (diagnostics h') = peak_allocated (diagnostics h)) \<or>
             (oom_count (diagnostics h') = oom_count (diagnostics h) \<and>
              unat n + 16 \<le> unat (peak_allocated (diagnostics h'))))"
          using nz z(1) by (intro exI[of _ n]) simp
        then show ?thesis using z(2) unfolding d_def d'_def Reallocate perform.simps r fst_conv by blast
      qed
    qed
  qed
  show "unat (peak_allocated d) \<le> unat (peak_allocated d')" using both by blast
  show "(peak_request_size d' = peak_request_size d \<and> oom_count d' = oom_count d \<and>
          peak_allocated d' = peak_allocated d) \<or>
         (\<exists>n. n \<noteq> 0 \<and> peak_request_size d' = larger (peak_request_size d) n \<and>
            ((oom_count d' = oom_count d + 1 \<and> peak_allocated d' = peak_allocated d) \<or>
             (oom_count d' = oom_count d \<and> unat n + 16 \<le> unat (peak_allocated d'))))"
    using both by blast
qed

lemma diag_step:
  assumes ri: "run_inv h live" and pm: "permitted live c" and di: "diag_inv m h"
  shows "diag_inv (Suc m) (fst (perform h c))"
proof -
  note f = perform_facts[OF ri pm]
  from di obtain k where k: "k \<le> m" "oom_count (diagnostics h) = of_nat k"
    "peak_request_size (diagnostics h) = 0 \<longrightarrow> k = 0 \<and> peak_allocated (diagnostics h) = 0"
    "k = 0 \<and> peak_request_size (diagnostics h) \<noteq> 0 \<longrightarrow>
           unat (peak_request_size (diagnostics h)) + 16 \<le> unat (peak_allocated (diagnostics h))"
    by (auto simp add: diag_inv_def)
  define d' where "d' = diagnostics (fst (perform h c))"
  from f(2) consider
    (same) "peak_request_size d' = peak_request_size (diagnostics h)" "oom_count d' = oom_count (diagnostics h)"
      "peak_allocated d' = peak_allocated (diagnostics h)"
    | (fail) n where "n \<noteq> 0" "peak_request_size d' = larger (peak_request_size (diagnostics h)) n"
      "oom_count d' = oom_count (diagnostics h) + 1"
    | (succ) n where "n \<noteq> 0" "peak_request_size d' = larger (peak_request_size (diagnostics h)) n"
      "oom_count d' = oom_count (diagnostics h)" "unat n + 16 \<le> unat (peak_allocated d')"
    unfolding d'_def by blast
  then show ?thesis
  proof cases
    case same
    show ?thesis unfolding diag_inv_def d'_def[symmetric]
      using k same by (intro exI[of _ k]) simp
  next
    case fail
    have "0 < unat n" using fail(1) by (simp add: unat_gt_0)
    then have nz: "peak_request_size d' \<noteq> 0"
      unfolding fail(2) using larger_max[of "peak_request_size (diagnostics h)" n]
      by (auto simp add: unat_eq_zero[symmetric] simp del: unat_eq_zero)
    show ?thesis unfolding diag_inv_def d'_def[symmetric]
      using k fail nz by (intro exI[of _ "Suc k"]) simp
  next
    case succ
    have n0: "0 < unat n" using succ(1) by (simp add: unat_gt_0)
    have mx: "unat (peak_request_size d') = max (unat (peak_request_size (diagnostics h))) (unat n)"
      unfolding succ(2) by (rule larger_max)
    have nz: "peak_request_size d' \<noteq> 0"
      using mx n0 by (auto simp add: unat_eq_zero[symmetric] simp del: unat_eq_zero)
    have "unat (peak_request_size d') + 16 \<le> unat (peak_allocated d')" if "k = 0"
    proof (cases "peak_request_size (diagnostics h) = 0")
      case True
      then show ?thesis using mx succ(4) by simp
    next
      case False
      then have "unat (peak_request_size (diagnostics h)) + 16 \<le> unat (peak_allocated (diagnostics h))"
        using k(4) that by simp
      then show ?thesis using mx succ(4) f(1) by (simp add: d'_def max_def)
    qed
    then show ?thesis unfolding diag_inv_def d'_def[symmetric]
      using k succ nz by (intro exI[of _ k]) simp
  qed
qed

lemma run_diag:
  "run_inv h live \<Longrightarrow> diag_inv m h \<Longrightarrow> run (h, live) cs = Some (h', live') \<Longrightarrow>
   diag_inv (m + length cs) h'"
proof (induction cs arbitrary: h live m)
  case Nil
  then show ?case by simp
next
  case (Cons c cs)
  from Cons.prems(3) have pm: "permitted live c"
    and r: "run (fst (perform h c), live_after live c (snd (perform h c))) cs = Some (h', live')"
    by (simp_all add: Let_def split: if_splits)
  from Cons.IH[OF step_perform[OF Cons.prems(1) pm] diag_step[OF Cons.prems(1) pm Cons.prems(2)] r]
  show ?case by simp
qed


lemma init_diag:
  assumes "arena_object base sz" "o1heapInit mem dat base sz = Some h"
  shows "diag_inv 0 h"
  using init_inv(3-5)[OF assms(2,1)] by (simp add: diag_inv_def)

lemma mask_bit: "(m AND pow2 i \<noteq> 0) = bit (m :: size_t) i"
  by (simp add: pow2_def bit_iff_and_push_bit_not_eq_0)

lemma bins_ok_heads:
  assumes ok: "bins_ok h bl FS" and nz: "\<And>b t. (b, t) \<in> FS \<Longrightarrow> b \<noteq> 0" and i: "i < 64"
  shows "(nonempty_bin_mask h AND pow2 i \<noteq> 0) = (bins h i \<noteq> 0)"
proof -
  from ok i have d: "dseg (nfree (frags h)) (pfree (frags h)) 0 (bins h i) (bl i) 0"
    and s: "set (bl i) = {a. \<exists>s. (a, s) \<in> FS \<and> bin_of s = i}"
    and m: "bit (nonempty_bin_mask h) i = (bl i \<noteq> [])"
    by (simp_all add: bins_ok_def)
  have "(bins h i \<noteq> 0) = (bl i \<noteq> [])"
  proof (cases "bl i")
    case Nil
    then show ?thesis using d by simp
  next
    case (Cons a as)
    then have "a \<in> set (bl i)" by simp
    then have "a \<noteq> 0" using s nz by auto
    then show ?thesis using d Cons by simp
  qed
  then show ?thesis using m by (simp add: mask_bit)
qed

lemma invariants_hold:
  assumes inv: "heap_inv h fs bl" and di: "diag_inv m h" and m: "m < 2 ^ 64"
  shows "o1heapDoInvariantsHold h"
    and "peak_request_size (diagnostics h) \<noteq> 0 \<longrightarrow>
           unat (peak_request_size (diagnostics h)) + 16 \<le> unat (peak_allocated (diagnostics h)) \<or>
           0 < oom_count (diagnostics h)"
    and "peak_request_size (diagnostics h) = 0 \<longrightarrow>
           allocated (diagnostics h) = 0 \<and> peak_allocated (diagnostics h) = 0 \<and>
           oom_count (diagnostics h) = 0"
proof -
  define d where "d = diagnostics h"
  from inv have c: "32 \<le> unat (capacity d)" "unat (capacity d) \<le> 2 ^ 63" "32 dvd unat (capacity d)"
    and ok: "bins_ok h bl (free_set (arena_start h) fs)"
    and al: "unat (allocated d) = used_total fs" "total fs = unat (capacity d)"
    and pk: "unat (allocated d) \<le> unat (peak_allocated d)" "unat (peak_allocated d) \<le> unat (capacity d)"
      "32 dvd unat (peak_allocated d)"
    and sz: "sizes_ok fs"
    by (simp_all add: heap_inv_def d_def)
  from di obtain k where k: "k \<le> m" "oom_count d = of_nat k"
    "peak_request_size d = 0 \<longrightarrow> k = 0 \<and> peak_allocated d = 0"
    "k = 0 \<and> peak_request_size d \<noteq> 0 \<longrightarrow> unat (peak_request_size d) + 16 \<le> unat (peak_allocated d)"
    by (auto simp add: diag_inv_def d_def)
  have k64: "k < 2 ^ 64" using k(1) m by simp
  have oom: "(0 < oom_count d) = (0 < k)"
    using ptr_zero_iff[OF k64] by (simp add: k(2) word_gt_0)
  have v1: "list_all (\<lambda>i. (nonempty_bin_mask h AND pow2 i \<noteq> 0) = (bins h i \<noteq> NULL)) [0..<NUM_BINS_MAX]"
    using bins_ok_heads[OF ok free_set_props(1)[OF inv]]
    by (simp add: list_all_iff consts_values)
  have v2: "capacity d \<le> FRAGMENT_SIZE_MAX" "capacity d \<ge> FRAGMENT_SIZE_MIN"
    "capacity d mod FRAGMENT_SIZE_MIN = 0"
    using c by (simp_all add: mod32_unat) (simp_all add: consts_values word_le_nat_alt unat_2p64)
  have "32 dvd unat (allocated d)" using sizes_ok_used_dvd[OF sz] al by simp
  moreover have "unat (allocated d) \<le> unat (capacity d)" using used_total_le[of fs] al by simp
  ultimately have v3: "allocated d \<le> capacity d" "allocated d mod FRAGMENT_SIZE_MIN = 0"
    "peak_allocated d \<le> capacity d" "peak_allocated d \<ge> allocated d"
    "peak_allocated d mod FRAGMENT_SIZE_MIN = 0"
    using pk by (simp_all add: mod32_unat) (simp_all add: word_le_nat_alt)
  have e1: "peak_request_size d \<noteq> 0 \<longrightarrow>
        unat (peak_request_size d) + 16 \<le> unat (peak_allocated d) \<or> 0 < oom_count d"
    using k(4) oom by auto
  have e2: "peak_request_size d = 0 \<longrightarrow> allocated d = 0 \<and> peak_allocated d = 0 \<and> oom_count d = 0"
  proof
    assume z: "peak_request_size d = 0"
    then have "k = 0" "peak_allocated d = 0" using k(3) by simp_all
    moreover from this pk(1) have "allocated d = 0" by (simp add: unat_eq_zero)
    ultimately show "allocated d = 0 \<and> peak_allocated d = 0 \<and> oom_count d = 0" using k(2) by simp
  qed
  have v4: "peak_request_size d < capacity d \<or> oom_count d > 0"
  proof (cases "k = 0")
    case True
    show ?thesis
    proof (cases "peak_request_size d = 0")
      case True
      then show ?thesis using c(1) by (simp add: word_less_nat_alt)
    next
      case False
      then have "unat (peak_request_size d) + 16 \<le> unat (peak_allocated d)" using k(4) True by simp
      then show ?thesis using pk(2) by (simp add: word_less_nat_alt)
    qed
  next
    case False
    then show ?thesis using oom by simp
  qed
  have v5: "peak_request_size d + O1HEAP_ALIGNMENT \<le> peak_allocated d \<or> oom_count d > 0"
    if "peak_request_size d \<noteq> 0"
  proof (cases "k = 0")
    case True
    then have le: "unat (peak_request_size d) + 16 \<le> unat (peak_allocated d)" using k(4) that by simp
    have "unat (peak_allocated d) < 2 ^ 64" using unsigned_less[of "peak_allocated d"] by simp
    then have "unat (peak_request_size d) + 16 < 2 ^ 64" using le by simp
    then have "unat (peak_request_size d + 16) = unat (peak_request_size d) + 16"
      by (simp add: unat_word_ariths)
    then show ?thesis using le by (simp add: consts_values word_le_nat_alt)
  next
    case False
    then show ?thesis using oom by simp
  qed
  have c0: "0 < capacity d" using c(1) by (simp add: word_less_nat_alt)
  show "o1heapDoInvariantsHold h"
    unfolding o1heapDoInvariantsHold_def Let_def d_def[symmetric]
    using v1 v2 v3 v4 v5 e2 c0 by simp
  show "peak_request_size (diagnostics h) \<noteq> 0 \<longrightarrow>
           unat (peak_request_size (diagnostics h)) + 16 \<le> unat (peak_allocated (diagnostics h)) \<or>
           0 < oom_count (diagnostics h)"
    using e1 by (simp add: d_def)
  show "peak_request_size (diagnostics h) = 0 \<longrightarrow>
           allocated (diagnostics h) = 0 \<and> peak_allocated (diagnostics h) = 0 \<and>
           oom_count (diagnostics h) = 0"
    using e2 by (simp add: d_def)
qed

section \<open>Requests that cannot be served\<close>

lemma reachable_run_inv: "reachable h \<Longrightarrow> \<exists>live. run_inv h live"
  unfolding reachable_def using run_inv_reachable by blast

lemma max_allocation_value:
  assumes inv: "heap_inv h fs bl"
  defines "K \<equiv> log2Floor (capacity (diagnostics h))"
  shows "5 \<le> K" "K < 64" "2 ^ K \<le> unat (capacity (diagnostics h))"
    "unat (capacity (diagnostics h)) < 2 ^ Suc K"
    "unat (o1heapGetMaxAllocationSize h) = 2 ^ K - 16"
proof -
  define cap where "cap = capacity (diagnostics h)"
  from inv have cb: "32 \<le> unat cap" "unat cap \<le> 2 ^ 63" by (simp_all add: heap_inv_def cap_def)
  have cnz: "cap \<noteq> 0" using cb(1) by auto
  note lb = log2Floor_bounds[OF cnz, folded cap_def, folded K_def[unfolded cap_def[symmetric]]]
  have K: "K = log2Floor cap" by (simp add: K_def cap_def)
  note lb = log2Floor_bounds[OF cnz, folded K]
  have "(2::nat) ^ 5 \<le> unat cap" using cb(1) by simp
  from pow2_sandwich[OF this lb(3)] show K5: "5 \<le> K" .
  show "K < 64" by (rule lb(1))
  show "2 ^ K \<le> unat (capacity (diagnostics h))" using lb(2) by (simp add: cap_def)
  show "unat (capacity (diagnostics h)) < 2 ^ Suc K" using lb(3) by (simp add: cap_def)
  have pK: "unat (pow2 K) = 2 ^ K" using lb(1) by (rule unat_pow2)
  have "(2::nat) ^ 5 \<le> 2 ^ K" using K5 by (intro power_increasing) simp_all
  then have p32: "32 \<le> unat (pow2 K)" by (simp add: pK)
  have m: "o1heapGetMaxAllocationSize h = pow2 K - 16"
    by (simp add: o1heapGetMaxAllocationSize_def K cap_def consts_values)
  show "unat (o1heapGetMaxAllocationSize h) = 2 ^ K - 16"
    using p32 by (simp add: m unat_sub word_le_nat_alt pK)
qed

lemma frag_le_total: "f \<in> set fs \<Longrightarrow> fst f \<le> total fs"
  by (induction fs) auto

lemma above_max_not_fits:
  assumes inv: "heap_inv h fs bl" and gt: "o1heapGetMaxAllocationSize h < n"
  shows "\<not> fits h fs n"
proof
  assume ft: "fits h fs n"
  define K where "K = log2Floor (capacity (diagnostics h))"
  note mv = max_allocation_value[OF inv, folded K_def]
  from inv have capb: "32 \<le> unat (capacity (diagnostics h))" "unat (capacity (diagnostics h)) \<le> 2 ^ 63"
    and sz: "sizes_ok fs" and t: "total fs = unat (capacity (diagnostics h))"
    by (simp_all add: heap_inv_def)
  from ft have n: "0 < n" "n \<le> capacity (diagnostics h) - O1HEAP_ALIGNMENT" by (simp_all add: fits_def)
  from ft obtain f where f: "f \<in> set fs" "bin_of (unat (request_size n)) \<le> bin_of (fst f)"
    by (auto simp add: fits_def)
  from request_size_pow[OF capb(2,1) n] obtain k where
    k: "5 \<le> k" "k < 64" "request_size n = of_nat (2 ^ k)" "unat n + 16 \<le> 2 ^ k"
    by blast
  have lt: "(2::nat) ^ k < 2 ^ 64" by (rule power_strict_increasing) (use k in simp_all)
  have uq: "unat (request_size n) = 2 ^ k" unfolding k(3) using lt by (rule unat_of_nat64)
  have bq: "bin_of (unat (request_size n)) = k - 5" by (simp add: uq bin_of_pow2[OF k(1,2)])
  have "(2::nat) ^ 5 \<le> 2 ^ K" using mv(1) by (intro power_increasing) simp_all
  then have "2 ^ K - 16 < unat n \<and> (16::nat) \<le> 2 ^ K" using gt mv(5) by (simp add: word_less_nat_alt)
  then have "(2::nat) ^ K < 2 ^ k" using k(4) by linarith
  then have Kk: "K < k" by (simp only: power_strict_increasing_iff rel_simps)
  have f32: "32 \<le> fst f" using sz f(1) by (simp add: sizes_ok_def)
  have fle: "fst f \<le> unat (capacity (diagnostics h))" using frag_le_total[OF f(1)] t by simp
  then have f64: "fst f < 2 ^ 64" using capb(2) by simp
  from bin_of_bounds(1)[OF f32 f64] have "2 ^ 5 * 2 ^ bin_of (fst f) \<le> fst f" by simp
  then have "2 ^ (bin_of (fst f) + 5) \<le> fst f" by (simp only: power_add[symmetric]) (simp add: add.commute)
  then have "2 ^ (bin_of (fst f) + 5) \<le> unat (capacity (diagnostics h))" using fle by simp
  from pow2_sandwich[OF this mv(4)] have "bin_of (fst f) + 5 \<le> K" .
  then show False using f(2) bq Kk k(1) by simp
qed

lemma fits_suitable:
  assumes inv: "heap_inv h fs bl" and n: "0 < n" "n \<le> capacity (diagnostics h) - O1HEAP_ALIGNMENT"
  shows "fits h fs n =
    (nonempty_bin_mask h AND
       NOT (pow2 (log2Floor (roundUpToPowerOf2 (n + O1HEAP_ALIGNMENT) div FRAGMENT_SIZE_MIN)) - 1) \<noteq> 0)"
proof -
  define alloc where "alloc = roundUpToPowerOf2 (n + O1HEAP_ALIGNMENT)"
  define opt where "opt = log2Floor (alloc div FRAGMENT_SIZE_MIN)"
  define suitable where "suitable = nonempty_bin_mask h AND NOT (pow2 opt - 1)"
  from inv have capb: "32 \<le> unat (capacity (diagnostics h))" "unat (capacity (diagnostics h)) \<le> 2 ^ 63"
    and ok: "bins_ok h bl (free_set (arena_start h) fs)"
    by (simp_all add: heap_inv_def)
  from request_size_pow[OF capb(2,1) n] obtain k where
    k: "5 \<le> k" "k < 64" "request_size n = of_nat (2 ^ k)" "unat n + 16 \<le> 2 ^ k"
    by blast
  have lt: "(2::nat) ^ k < 2 ^ 64" by (rule power_strict_increasing) (use k in simp_all)
  have alloc: "alloc = of_nat (2 ^ k)" using k(3) by (simp add: alloc_def request_size_def)
  have uq: "unat (request_size n) = 2 ^ k" unfolding k(3) using lt by (rule unat_of_nat64)
  have opt: "opt = k - 5" unfolding opt_def alloc using bin_of_pow2[OF k(1,2)] by (simp add: bin_of_def)
  have bq: "bin_of (unat (request_size n)) = k - 5" by (simp add: uq bin_of_pow2[OF k(1,2)])
  have sbit: "bit suitable j = (bit (nonempty_bin_mask h) j \<and> k - 5 \<le> j)" for j
    by (auto simp add: suitable_def bit_and_iff cand_bit opt dest: bit_imp_le_length)
  have fits_iff: "fits h fs n = (\<exists>j. bit (nonempty_bin_mask h) j \<and> k - 5 \<le> j)"
  proof
    assume "fits h fs n"
    then obtain f where f: "f \<in> set fs" "\<not> snd f" "k - 5 \<le> bin_of (fst f)"
      by (auto simp add: fits_def bq)
    have "(fst f, False) = f" using f(2) by (simp add: prod_eq_iff)
    then have "(fst f, False) \<in> set fs" using f(1) by simp
    then obtain a where "(a, fst f) \<in> free_set (arena_start h) fs"
      using free_set_iff by blast
    then have "bit (nonempty_bin_mask h) (bin_of (fst f))"
      using bins_ok_nonempty[OF ok bin_of_lt] by blast
    then show "\<exists>j. bit (nonempty_bin_mask h) j \<and> k - 5 \<le> j" using f(3) by blast
  next
    assume "\<exists>j. bit (nonempty_bin_mask h) j \<and> k - 5 \<le> j"
    then obtain j where j: "bit (nonempty_bin_mask h) j" "k - 5 \<le> j" by blast
    have "j < 64" using j(1) by (auto dest: bit_imp_le_length)
    from bins_ok_nonempty[OF ok this] j(1) obtain a s where
      as: "(a, s) \<in> free_set (arena_start h) fs" "bin_of s = j" by blast
    then have "(s, False) \<in> set fs" using free_set_iff by blast
    then show "fits h fs n" using n j(2) as(2) by (force simp add: fits_def bq)
  qed
  have "(suitable \<noteq> 0) = (\<exists>j. bit suitable j)"
  proof
    assume "suitable \<noteq> 0"
    then show "\<exists>j. bit suitable j" by (auto simp add: bit_eq_iff)
  next
    assume "\<exists>j. bit suitable j"
    then show "suitable \<noteq> 0" by auto
  qed
  then have "fits h fs n = (suitable \<noteq> 0)" using fits_iff sbit by simp
  then show ?thesis by (simp add: suitable_def opt_def alloc_def)
qed

lemma allocate_fails:
  assumes inv: "heap_inv h fs bl" and nf: "\<not> fits h fs n"
  shows "o1heapAllocate h n =
     (h\<lparr>diagnostics := (diagnostics h)\<lparr>
          peak_request_size := larger (peak_request_size (diagnostics h)) n,
          oom_count := oom_count (diagnostics h) + (if n = 0 then 0 else 1)\<rparr>\<rparr>, NULL)"
proof -
  obtain h' out where r: "o1heapAllocate h n = (h', out)" by (cases "o1heapAllocate h n")
  from o1heapAllocate_inv[OF inv r] have
    z: "(out \<noteq> 0) = fits h fs n"
       "out = 0 \<longrightarrow> h' = h\<lparr>diagnostics := (diagnostics h)\<lparr>
                     peak_request_size := larger (peak_request_size (diagnostics h)) n,
                     oom_count := oom_count (diagnostics h) + (if n = 0 then 0 else 1)\<rparr>\<rparr>"
    by blast+
  from z(1) nf have o: "out = 0" by simp
  with z(2) have "h' = h\<lparr>diagnostics := (diagnostics h)\<lparr>
                     peak_request_size := larger (peak_request_size (diagnostics h)) n,
                     oom_count := oom_count (diagnostics h) + (if n = 0 then 0 else 1)\<rparr>\<rparr>" by simp
  then show ?thesis using r o by simp
qed



lemma failed_allocs:
  assumes "capacity (diagnostics h) - O1HEAP_ALIGNMENT < n" "peak_request_size (diagnostics h) \<le> n"
  shows "run (h, live) (replicate (Suc k) (Allocate n)) =
     Some (h\<lparr>diagnostics := (diagnostics h)\<lparr>
          peak_request_size := n,
          oom_count := oom_count (diagnostics h) + of_nat (Suc k)\<rparr>\<rparr>, live)"
  using assms
proof (induction k arbitrary: h)
  case 0
  have "0 < n" using 0(1) by (auto simp add: word_gt_0)
  then show ?case using 0
    by (simp add: o1heapAllocate_def Let_def larger_def not_less[symmetric])
next
  case (Suc k)
  define h1 where "h1 = h\<lparr>diagnostics := (diagnostics h)\<lparr>
          peak_request_size := n, oom_count := oom_count (diagnostics h) + 1\<rparr>\<rparr>"
  have n0: "0 < n" using Suc.prems(1) by (auto simp add: word_gt_0)
  have a: "o1heapAllocate h n = (h1, NULL)" using Suc.prems n0
    by (simp add: o1heapAllocate_def Let_def larger_def not_less[symmetric] h1_def)
  have "run (h, live) (replicate (Suc (Suc k)) (Allocate n)) =
        run (h1, live) (replicate (Suc k) (Allocate n))"
    by (simp add: a Let_def)
  also have "\<dots> = Some (h1\<lparr>diagnostics := (diagnostics h1)\<lparr>
          peak_request_size := n,
          oom_count := oom_count (diagnostics h1) + of_nat (Suc k)\<rparr>\<rparr>, live)"
    by (rule Suc.IH) (use Suc.prems in \<open>simp_all add: h1_def\<close>)
  also have "h1\<lparr>diagnostics := (diagnostics h1)\<lparr>
          peak_request_size := n,
          oom_count := oom_count (diagnostics h1) + of_nat (Suc k)\<rparr>\<rparr> =
      h\<lparr>diagnostics := (diagnostics h)\<lparr>
          peak_request_size := n,
          oom_count := oom_count (diagnostics h) + of_nat (Suc (Suc k))\<rparr>\<rparr>"
    by (simp add: h1_def)
  finally show ?case .
qed

lemma run_after:
  assumes "run (h, []) cs \<noteq> None" and "snd (the (run (h, []) cs)) = l"
  shows "run (h, []) cs = Some (after h cs, l)"
proof -
  from assms(1) obtain t where t: "run (h, []) cs = Some t" by blast
  have a: "after h cs = fst t" by (simp only: after_def t option.sel)
  have b: "snd t = l" using assms(2) by (simp only: t option.sel)
  have "t = (after h cs, l)" by (simp only: a b[symmetric] prod.collapse)
  then show ?thesis using t by (simp only:)
qed

section \<open>Zero-size requests\<close>

lemma run_single_allocate4096:
  "run_inv (after heap4096 [Allocate 1]) [4688]"
proof -
  have ao: "arena_object 4096 (576 + 4096)" by (simp add: arena_object_def)
  have n: "run (heap4096, []) [Allocate 1] \<noteq> None" by code_simp
  have l: "snd (the (run (heap4096, []) [Allocate 1])) = [4688]" by code_simp
  from n obtain t where t: "run (heap4096, []) [Allocate 1] = Some t" by blast
  have a: "after heap4096 [Allocate 1] = fst t" by (simp only: after_def t option.sel)
  have b: "snd t = [4688]" using l by (simp only: t option.sel)
  have c: "t = (after heap4096 [Allocate 1], [4688])"
    by (simp only: a b[symmetric] prod.collapse)
  have e: "map Allocate [1] @ [] = [Allocate 1]" by simp
  have r: "run (heap4096, []) (map Allocate [1] @ []) = Some (after heap4096 [Allocate 1], [4688])"
    unfolding e using t c by (simp only:)
  from run_allocates[OF init_run_inv[OF ao heap4096_init] r] show ?thesis by simp
qed

text \<open>
  C8. A zero-size request is never counted as out of memory. In every heap state and for
  every pointer, \<open>o1heapAllocate\<close> of zero bytes returns NULL and leaves \<open>oom_count\<close> as it
  was; \<open>o1heapReallocate\<close> to zero bytes returns NULL, leaves the heap that \<open>o1heapFree\<close>
  of the pointer leaves, and leaves \<open>oom_count\<close> as it was. When the heap is well formed
  with live pointers \<open>live\<close> and \<open>p\<close> is one of them, the call releases the block of \<open>p\<close>:
  the fragment of \<open>p\<close> was marked used and is no longer, \<open>allocated\<close> has gone down by the
  size of that fragment (at least \<open>FRAGMENT_SIZE_MIN\<close>), and the heap is well formed with
  the live pointers \<open>live\<close> without \<open>p\<close>.
\<close>

theorem zero_request_not_oom:
  "snd (o1heapAllocate h 0) = NULL \<and>
   oom_count (diagnostics (fst (o1heapAllocate h 0))) = oom_count (diagnostics h) \<and>
   snd (o1heapReallocate h p 0) = NULL \<and>
   fst (o1heapReallocate h p 0) = o1heapFree h p \<and>
   oom_count (diagnostics (fst (o1heapReallocate h p 0))) = oom_count (diagnostics h) \<and>
   (run_inv h live \<and> p \<in> set live \<longrightarrow>
      run_inv (fst (o1heapReallocate h p 0)) (removeAll p live) \<and>
      fragIsUsed h (p - O1HEAP_ALIGNMENT) \<and>
      \<not> fragIsUsed (fst (o1heapReallocate h p 0)) (p - O1HEAP_ALIGNMENT) \<and>
      FRAGMENT_SIZE_MIN \<le> fragGetSize h (p - O1HEAP_ALIGNMENT) \<and>
      unat (allocated (diagnostics (fst (o1heapReallocate h p 0)))) +
        unat (fragGetSize h (p - O1HEAP_ALIGNMENT)) = unat (allocated (diagnostics h)))"
proof -
  have a: "o1heapAllocate h 0 = (h, NULL)"
    by (simp add: o1heapAllocate_def)
  have f: "o1heapFree h NULL = h"
    by (simp add: o1heapFree_def)
  have r: "o1heapReallocate h p 0 = (o1heapFree h p, NULL)"
    by (cases "p = NULL") (simp_all add: o1heapReallocate_def a f)
  have rel: "run_inv (o1heapFree h p) (removeAll p live) \<and>
      fragIsUsed h (p - O1HEAP_ALIGNMENT) \<and>
      \<not> fragIsUsed (o1heapFree h p) (p - O1HEAP_ALIGNMENT) \<and>
      FRAGMENT_SIZE_MIN \<le> fragGetSize h (p - O1HEAP_ALIGNMENT) \<and>
      unat (allocated (diagnostics (o1heapFree h p))) +
        unat (fragGetSize h (p - O1HEAP_ALIGNMENT)) = unat (allocated (diagnostics h))"
    if ri: "run_inv h live" and pl: "p \<in> set live"
  proof -
    from ri obtain fs bl where inv: "heap_inv h fs bl" and l: "set live = live_set (arena_start h) fs"
      by (auto simp add: run_inv_def)
    have "p \<in> live_set (arena_start h) fs" using pl l by simp
    from o1heapFree_inv[OF inv this] have
      u: "fragIsUsed h (p - O1HEAP_ALIGNMENT)" "\<not> fragIsUsed (o1heapFree h p) (p - O1HEAP_ALIGNMENT)"
        "32 \<le> unat (fragGetSize h (p - O1HEAP_ALIGNMENT))"
        "unat (allocated (diagnostics (o1heapFree h p))) + unat (fragGetSize h (p - O1HEAP_ALIGNMENT)) =
           unat (allocated (diagnostics h))"
      by blast+
    have "FRAGMENT_SIZE_MIN \<le> fragGetSize h (p - O1HEAP_ALIGNMENT)"
      using u(3) by (simp add: consts_values word_le_nat_alt)
    moreover have "run_inv (o1heapFree h p) (removeAll p live)"
      using ri pl by (intro step_free) simp_all
    ultimately show ?thesis using u by simp
  qed
  show ?thesis
    using rel by (simp add: a r o1heapFree_diag)
qed

theorem zero_request_not_oom_witness:
  "run_inv (after heap4096 [Allocate 1]) [4688] \<and> (4688::ptr) \<in> set [4688] \<and>
   snd (o1heapReallocate (after heap4096 [Allocate 1]) 4688 0) = NULL \<and>
   run_inv (fst (o1heapReallocate (after heap4096 [Allocate 1]) 4688 0)) (removeAll 4688 [4688]) \<and>
   fragIsUsed (after heap4096 [Allocate 1]) (4688 - O1HEAP_ALIGNMENT) \<and>
   \<not> fragIsUsed (fst (o1heapReallocate (after heap4096 [Allocate 1]) 4688 0)) (4688 - O1HEAP_ALIGNMENT) \<and>
   unat (allocated (diagnostics (fst (o1heapReallocate (after heap4096 [Allocate 1]) 4688 0)))) +
     unat (fragGetSize (after heap4096 [Allocate 1]) (4688 - O1HEAP_ALIGNMENT)) =
     unat (allocated (diagnostics (after heap4096 [Allocate 1])))"
proof -
  have m: "(4688::ptr) \<in> set [4688]" by simp
  from zero_request_not_oom[of "after heap4096 [Allocate 1]" 4688 "[4688]"]
    run_single_allocate4096 m
  show ?thesis by blast
qed

section \<open>The assertions around roundUpToPowerOf2\<close>

lemma pow2_and_pred: "push_bit k (1::size_t) AND (push_bit k 1 - 1) = 0"
proof -
  have "push_bit k (1::size_t) - 1 = mask k" by (simp add: mask_eq_exp_minus_1)
  then show ?thesis by (intro bit_eqI) (auto simp add: bit_simps)
qed

text \<open>
  C9. Whenever \<open>roundUpToPowerOf2\<close> is reached from \<open>o1heapAllocate\<close> or
  \<open>o1heapReallocate\<close>, in a heap reached from a successful \<open>o1heapInit\<close> by public
  calls, the guards before the call give \<open>0 < amount \<le> capacity - O1HEAP_ALIGNMENT\<close>. Then
  the argument \<open>amount + O1HEAP_ALIGNMENT\<close> is at least 2 (the assertion at line 182), the
  shift amount is below the word width, the four assertions that follow the call in
  \<open>o1heapAllocate\<close> hold (the result is at most \<open>FRAGMENT_SIZE_MAX\<close>, at least
  \<open>FRAGMENT_SIZE_MIN\<close>, at least the argument, and a power of two), and so does the
  assertion at line 556 of \<open>o1heapReallocate\<close> (the same two bounds). The assertion at
  line 557 is not among them: see below.
\<close>

theorem roundUp_asserts_hold:
  assumes "reachable h" and "0 < amount"
    and "amount \<le> capacity (diagnostics h) - O1HEAP_ALIGNMENT"
  shows "roundUpToPowerOf2_asserts (amount + O1HEAP_ALIGNMENT) \<and>
         64 - O1HEAP_CLZ (amount + O1HEAP_ALIGNMENT - 1) < 64 \<and>
         o1heapAllocate_asserts amount \<and> o1heapReallocate_assert_range amount"
proof -
  note c = reachable_capacity[OF assms(1)]
  have a0: "0 < unat amount" using assms(2) by (simp add: word_less_nat_alt)
  have cs: "unat (capacity (diagnostics h) - 16) = unat (capacity (diagnostics h)) - 16"
    using c(1) by (simp add: unat_sub word_le_nat_alt)
  have a1: "unat amount \<le> unat (capacity (diagnostics h)) - 16"
    using assms(3) cs by (simp add: consts_values word_le_nat_alt)
  have lt: "unat amount + 16 < 2 ^ 64" using a1 c(1,2) by simp
  have x: "unat (amount + 16) = unat amount + 16"
    using lt by (simp add: unat_add_lem[THEN iffD1])
  have x2: "2 \<le> unat (amount + 16)" "unat (amount + 16) \<le> 2 ^ 63"
    using x a0 a1 c by simp_all
  from roundUp_bounds[OF x2] obtain k where k: "0 < k" "k < 64" "k = 64 - O1HEAP_CLZ (amount + 16 - 1)"
    "unat (roundUpToPowerOf2 (amount + 16)) = 2 ^ k" "2 ^ (k - 1) < unat (amount + 16)"
    "unat (amount + 16) \<le> 2 ^ k" by blast
  have "(2::nat) ^ 4 < 2 ^ k" using k(6) x a0 by simp
  have k5: "5 \<le> k"
  proof (rule ccontr)
    assume "\<not> 5 \<le> k"
    then have "k \<le> 4" by simp
    then have "(2::nat) ^ k \<le> 2 ^ 4" by (rule power_increasing) simp
    with \<open>(2::nat) ^ 4 < 2 ^ k\<close> show False by simp
  qed
  have lo: "(2::nat) ^ 5 \<le> 2 ^ k" using k5 by (rule power_increasing) simp
  have "k \<le> 63" using k(2) by simp
  then have hi: "(2::nat) ^ k \<le> 2 ^ 63" by (rule power_increasing) simp
  have 1: "2 \<le> amount + 16" using x2(1) by (simp add: word_le_nat_alt)
  have 2: "64 - O1HEAP_CLZ (amount + 16 - 1) < 64" using k(2,3) by simp
  have 3: "roundUpToPowerOf2 (amount + 16) \<le> 2 ^ 63"
    using hi k(4) by (simp add: word_le_nat_alt)
  have 4: "32 \<le> roundUpToPowerOf2 (amount + 16)"
    using lo k(4) by (simp add: word_le_nat_alt)
  have 5: "amount + 16 \<le> roundUpToPowerOf2 (amount + 16)"
    using k(4,6) by (simp add: word_le_nat_alt)
  have 6: "roundUpToPowerOf2 (amount + 16) AND (roundUpToPowerOf2 (amount + 16) - 1) = 0"
    unfolding roundUpToPowerOf2_def by (rule pow2_and_pred)
  show ?thesis
    using 1 2 3 4 5 6
    by (simp add: roundUpToPowerOf2_asserts_def o1heapAllocate_asserts_def
        o1heapReallocate_assert_range_def Let_def consts_values)
qed

theorem roundUp_asserts_hold_witness:
  "reachable (after heap4096 [Allocate 1]) \<and> (0::size_t) < 100 \<and>
   100 \<le> capacity (diagnostics (after heap4096 [Allocate 1])) - O1HEAP_ALIGNMENT \<and>
   roundUpToPowerOf2_asserts (100 + O1HEAP_ALIGNMENT) \<and>
   64 - O1HEAP_CLZ (100 + O1HEAP_ALIGNMENT - 1) < 64 \<and>
   o1heapAllocate_asserts 100 \<and> o1heapReallocate_assert_range 100"
proof -
  have "run (heap4096, []) [Allocate 1] \<noteq> None" by code_simp
  then have a: "reachable (after heap4096 [Allocate 1])" by (rule reachable_after4096)
  have b: "(0::size_t) < 100" by simp
  have c: "100 \<le> capacity (diagnostics (after heap4096 [Allocate 1])) - O1HEAP_ALIGNMENT"
    by code_simp
  from roundUp_asserts_hold[OF a b c] a b c show ?thesis by blast
qed

text \<open>
  The assertion at line 557, \<open>new_frag_size \<le> capacity\<close>, can fail in a reachable heap
  under the guard. With a capacity of 4128, after one allocation of one byte (the live
  pointer is 4688), a reallocation of that pointer to 4100 bytes passes the guard (4100 is
  at most \<open>capacity - O1HEAP_ALIGNMENT\<close> = 4112) and rounds 4116 up to 8192, which is more
  than the capacity. A build with the assertions stops there; without them the call goes
  on to the fallback path, fails to allocate and returns NULL, which is what
  \<open>o1heapReallocate\<close> of this theory computes.
\<close>

theorem realloc_capacity_assert_counterexample:
  "reachable (after heap4128 [Allocate 1]) \<and>
   4688 \<in> set (snd (the (run (heap4128, []) [Allocate 1]))) \<and>
   capacity (diagnostics (after heap4128 [Allocate 1])) = 4128 \<and>
   (0::size_t) < 4100 \<and> 4100 \<le> capacity (diagnostics (after heap4128 [Allocate 1])) - O1HEAP_ALIGNMENT \<and>
   roundUpToPowerOf2 (4100 + O1HEAP_ALIGNMENT) = 8192 \<and>
   \<not> o1heapReallocate_assert_capacity (after heap4128 [Allocate 1]) 4100 \<and>
   snd (o1heapReallocate (after heap4128 [Allocate 1]) 4688 4100) = NULL"
proof -
  have "run (heap4128, []) [Allocate 1] \<noteq> None" by code_simp
  then have a: "reachable (after heap4128 [Allocate 1])" by (rule reachable_after4128)
  have b: "4688 \<in> set (snd (the (run (heap4128, []) [Allocate 1]))) \<and>
   capacity (diagnostics (after heap4128 [Allocate 1])) = 4128 \<and>
   (0::size_t) < 4100 \<and> 4100 \<le> capacity (diagnostics (after heap4128 [Allocate 1])) - O1HEAP_ALIGNMENT \<and>
   roundUpToPowerOf2 (4100 + O1HEAP_ALIGNMENT) = 8192 \<and>
   \<not> o1heapReallocate_assert_capacity (after heap4128 [Allocate 1]) 4100 \<and>
   snd (o1heapReallocate (after heap4128 [Allocate 1]) 4688 4100) = NULL"
    by code_simp
  from a b show ?thesis by (rule conjI)
qed

section \<open>Reallocation beyond the capacity\<close>

text \<open>
  C10. When \<open>o1heapReallocate\<close> is called with a non-null pointer and a nonzero amount
  above \<open>capacity - O1HEAP_ALIGNMENT\<close>, it returns NULL and the heap it leaves differs from
  the heap before only in two diagnostics fields: \<open>peak_request_size\<close> is raised to the
  maximum of its old value and the amount, and \<open>oom_count\<close> is incremented by one. Every
  fragment, every bin, the mask, the payload and the other diagnostics fields are unchanged.
\<close>

theorem realloc_over_capacity_frame:
  assumes "p \<noteq> NULL" and "n \<noteq> 0" and "n > capacity (diagnostics h) - O1HEAP_ALIGNMENT"
  shows "o1heapReallocate h p n =
    (h\<lparr>diagnostics := (diagnostics h)\<lparr>
         peak_request_size := larger (peak_request_size (diagnostics h)) n,
         oom_count := oom_count (diagnostics h) + 1\<rparr>\<rparr>, NULL) \<and>
    unat (larger (peak_request_size (diagnostics h)) n) =
      max (unat (peak_request_size (diagnostics h))) (unat n) \<and>
    unat (peak_request_size (diagnostics (fst (o1heapReallocate h p n)))) =
      max (unat (peak_request_size (diagnostics h))) (unat n)"
  using assms by (simp add: o1heapReallocate_def Let_def larger_max)

theorem realloc_over_capacity_frame_witness:
  "o1heapReallocate (after heap4096 [Allocate 1]) 4688 5000 =
    ((after heap4096 [Allocate 1])\<lparr>diagnostics := (diagnostics (after heap4096 [Allocate 1]))\<lparr>
         peak_request_size := larger (peak_request_size (diagnostics (after heap4096 [Allocate 1]))) 5000,
         oom_count := oom_count (diagnostics (after heap4096 [Allocate 1])) + 1\<rparr>\<rparr>, NULL) \<and>
   unat (larger (peak_request_size (diagnostics (after heap4096 [Allocate 1]))) 5000) =
      max (unat (peak_request_size (diagnostics (after heap4096 [Allocate 1])))) (unat (5000::size_t)) \<and>
   unat (peak_request_size (diagnostics (fst (o1heapReallocate (after heap4096 [Allocate 1]) 4688 5000)))) =
      max (unat (peak_request_size (diagnostics (after heap4096 [Allocate 1])))) (unat (5000::size_t))"
proof -
  have a: "(4688::ptr) \<noteq> NULL" by simp
  have b: "(5000::size_t) \<noteq> 0" by simp
  have c: "5000 > capacity (diagnostics (after heap4096 [Allocate 1])) - O1HEAP_ALIGNMENT"
    by code_simp
  show ?thesis by (rule realloc_over_capacity_frame[OF a b c])
qed

section \<open>Backward expansion\<close>

text \<open>
  C5, amended. Let \<open>o1heapReallocate\<close> be called with a non-null pointer \<open>p\<close> and an
  amount \<open>n\<close> with \<open>0 < n \<le> capacity - O1HEAP_ALIGNMENT\<close>; let F be the fragment of \<open>p\<close>,
  \<open>need = roundUpToPowerOf2 (n + O1HEAP_ALIGNMENT)\<close>, and let the sizes be those
  \<open>fragGetSize\<close> reads: of F, of its predecessor, and of its successor if that is free
  (0 otherwise). In the backward-expansion case (\<open>need\<close> exceeds the size of F, the free
  successor if any does not make up for it, the predecessor is free and the three sizes
  together reach \<open>need\<close>) the call returns the payload address of the predecessor, and
  \<open>allocated\<close> increases by \<open>need - size(F)\<close> when a leftover of at least
  \<open>FRAGMENT_SIZE_MIN\<close> is split off, and by \<open>size(prev) + size(next if free)\<close> when the
  combined block is absorbed whole; \<open>peak_allocated\<close> becomes the maximum of its old value
  and the new \<open>allocated\<close>.
\<close>

theorem realloc_backward_allocated:
  fixes h :: heap and p :: ptr and n :: size_t
  defines "frag \<equiv> p - O1HEAP_ALIGNMENT"
  defines "need \<equiv> roundUpToPowerOf2 (n + O1HEAP_ALIGNMENT)"
  defines "prv \<equiv> fragGetPrev h frag"
  defines "nxt \<equiv> fragGetNext h frag"
  defines "next_is_free \<equiv> nxt \<noteq> NULL \<and> \<not> fragIsUsed h nxt"
  defines "size_F \<equiv> fragGetSize h frag"
  defines "size_prev \<equiv> fragGetSize h prv"
  defines "size_next \<equiv> (if next_is_free then fragGetSize h nxt else 0)"
  defines "h' \<equiv> fst (o1heapReallocate h p n)"
  assumes "p \<noteq> NULL" and "n \<noteq> 0" and "n \<le> capacity (diagnostics h) - O1HEAP_ALIGNMENT"
    and "\<not> need \<le> size_F"
    and "\<not> (next_is_free \<and> size_F + size_next \<ge> need)"
    and "prv \<noteq> NULL" and "\<not> fragIsUsed h prv"
    and "size_prev + size_F + size_next \<ge> need"
  shows "snd (o1heapReallocate h p n) = prv + O1HEAP_ALIGNMENT \<and>
         allocated (diagnostics h') = allocated (diagnostics h) +
           (if size_prev + size_F + size_next - need \<ge> FRAGMENT_SIZE_MIN
            then need - size_F else size_prev + size_next) \<and>
         unat (peak_allocated (diagnostics h')) =
           max (unat (peak_allocated (diagnostics h))) (unat (allocated (diagnostics h')))"
proof -
  define h0 where "h0 = h\<lparr>diagnostics := (diagnostics h)\<lparr>peak_request_size :=
                    larger (peak_request_size (diagnostics h)) n\<rparr>\<rparr>"
  have acc: "fragGetSize h0 = fragGetSize h" "fragGetPrev h0 = fragGetPrev h"
    "fragGetNext h0 = fragGetNext h" "fragIsUsed h0 = fragIsUsed h"
    by (simp_all add: fun_eq_iff h0_def)
  have r: "o1heapReallocate h p n =
      realloc_expand_backward h0 p frag size_F (size_F - O1HEAP_ALIGNMENT) need
         prv size_prev nxt next_is_free size_next"
    using assms(10-17)
    unfolding o1heapReallocate_def Let_def h0_def[symmetric] acc
      frag_def[symmetric] need_def[symmetric] prv_def[symmetric] nxt_def[symmetric]
      next_is_free_def[symmetric] size_F_def[symmetric] size_prev_def[symmetric]
      size_next_def[symmetric]
    by (auto simp add: h0_def not_less)
  show ?thesis
    unfolding h'_def r
    by (simp add: realloc_expand_backward_def Let_def larger_max h0_def)
qed

text \<open>
  The theorem at the heap of the counterexample below: the second block (fragment 4704,
  size 32) is reallocated to 48 bytes; its predecessor 4672 is free (size 32) and its
  successor 4736 is used.
\<close>

theorem realloc_backward_allocated_witness:
  "snd (o1heapReallocate (after heap4096 [Allocate 1, Allocate 1, Allocate 33, Free 4688]) 4720 48) = fragGetPrev (after heap4096 [Allocate 1, Allocate 1, Allocate 33, Free 4688]) (4720 - O1HEAP_ALIGNMENT) + O1HEAP_ALIGNMENT \<and>
   allocated (diagnostics (fst (o1heapReallocate (after heap4096 [Allocate 1, Allocate 1, Allocate 33, Free 4688]) 4720 48))) = allocated (diagnostics (after heap4096 [Allocate 1, Allocate 1, Allocate 33, Free 4688])) +
     (if fragGetSize (after heap4096 [Allocate 1, Allocate 1, Allocate 33, Free 4688]) (fragGetPrev (after heap4096 [Allocate 1, Allocate 1, Allocate 33, Free 4688]) (4720 - O1HEAP_ALIGNMENT)) + fragGetSize (after heap4096 [Allocate 1, Allocate 1, Allocate 33, Free 4688]) (4720 - O1HEAP_ALIGNMENT) + (if (fragGetNext (after heap4096 [Allocate 1, Allocate 1, Allocate 33, Free 4688]) (4720 - O1HEAP_ALIGNMENT) \<noteq> NULL \<and> \<not> fragIsUsed (after heap4096 [Allocate 1, Allocate 1, Allocate 33, Free 4688]) (fragGetNext (after heap4096 [Allocate 1, Allocate 1, Allocate 33, Free 4688]) (4720 - O1HEAP_ALIGNMENT))) then fragGetSize (after heap4096 [Allocate 1, Allocate 1, Allocate 33, Free 4688]) (fragGetNext (after heap4096 [Allocate 1, Allocate 1, Allocate 33, Free 4688]) (4720 - O1HEAP_ALIGNMENT)) else 0) - roundUpToPowerOf2 (48 + O1HEAP_ALIGNMENT) \<ge> FRAGMENT_SIZE_MIN
      then roundUpToPowerOf2 (48 + O1HEAP_ALIGNMENT) - fragGetSize (after heap4096 [Allocate 1, Allocate 1, Allocate 33, Free 4688]) (4720 - O1HEAP_ALIGNMENT) else fragGetSize (after heap4096 [Allocate 1, Allocate 1, Allocate 33, Free 4688]) (fragGetPrev (after heap4096 [Allocate 1, Allocate 1, Allocate 33, Free 4688]) (4720 - O1HEAP_ALIGNMENT)) + (if (fragGetNext (after heap4096 [Allocate 1, Allocate 1, Allocate 33, Free 4688]) (4720 - O1HEAP_ALIGNMENT) \<noteq> NULL \<and> \<not> fragIsUsed (after heap4096 [Allocate 1, Allocate 1, Allocate 33, Free 4688]) (fragGetNext (after heap4096 [Allocate 1, Allocate 1, Allocate 33, Free 4688]) (4720 - O1HEAP_ALIGNMENT))) then fragGetSize (after heap4096 [Allocate 1, Allocate 1, Allocate 33, Free 4688]) (fragGetNext (after heap4096 [Allocate 1, Allocate 1, Allocate 33, Free 4688]) (4720 - O1HEAP_ALIGNMENT)) else 0)) \<and>
   unat (peak_allocated (diagnostics (fst (o1heapReallocate (after heap4096 [Allocate 1, Allocate 1, Allocate 33, Free 4688]) 4720 48)))) =
     max (unat (peak_allocated (diagnostics (after heap4096 [Allocate 1, Allocate 1, Allocate 33, Free 4688])))) (unat (allocated (diagnostics (fst (o1heapReallocate (after heap4096 [Allocate 1, Allocate 1, Allocate 33, Free 4688]) 4720 48)))))"
  by (rule realloc_backward_allocated) code_simp+

text \<open>
  The claim as stated has the absorbed case add the size of the successor. After three
  allocations of fragment sizes 32, 32, 64 and the release of the first, reallocating the
  second block to 48 bytes needs 64 bytes: the successor is used (size 64), the
  predecessor is free (size 32), the block is absorbed whole, and \<open>allocated\<close> goes from
  96 to 128, an increase of 32, the size of the predecessor.
\<close>

theorem realloc_backward_absorb_counterexample:
  "fragGetPrev (after heap4096 [Allocate 1, Allocate 1, Allocate 33, Free 4688]) 4704 = 4672 \<and>
   \<not> fragIsUsed (after heap4096 [Allocate 1, Allocate 1, Allocate 33, Free 4688]) 4672 \<and>
   fragGetSize (after heap4096 [Allocate 1, Allocate 1, Allocate 33, Free 4688]) 4672 = 32 \<and>
   fragGetSize (after heap4096 [Allocate 1, Allocate 1, Allocate 33, Free 4688]) 4704 = 32 \<and>
   fragGetNext (after heap4096 [Allocate 1, Allocate 1, Allocate 33, Free 4688]) 4704 = 4736 \<and>
   fragIsUsed (after heap4096 [Allocate 1, Allocate 1, Allocate 33, Free 4688]) 4736 \<and>
   fragGetSize (after heap4096 [Allocate 1, Allocate 1, Allocate 33, Free 4688]) 4736 = 64 \<and>
   roundUpToPowerOf2 (48 + O1HEAP_ALIGNMENT) = 64 \<and>
   snd (o1heapReallocate (after heap4096 [Allocate 1, Allocate 1, Allocate 33, Free 4688]) 4720 48) = 4688 \<and>
   allocated (diagnostics (after heap4096 [Allocate 1, Allocate 1, Allocate 33, Free 4688])) = 96 \<and>
   allocated (diagnostics (fst (o1heapReallocate
     (after heap4096 [Allocate 1, Allocate 1, Allocate 33, Free 4688]) 4720 48))) = 128"
  by code_simp

section \<open>No two adjacent free fragments\<close>

text \<open>
  C6. After every public operation returns, no two address-adjacent fragments are both
  free. In every heap reached from a successful \<open>o1heapInit\<close> by public calls, each on a
  live pointer or NULL where the call takes a pointer, the walk along the \<open>next\<close> links
  from the first fragment of the arena (\<open>fragments\<close>) covers the whole capacity, and no
  fragment on it is free with a free successor. So \<open>o1heapFree\<close> has merged the freed
  fragment with its free neighbours, and the splits of \<open>o1heapAllocate\<close> and
  \<open>o1heapReallocate\<close> have left no free fragment beside another one.
\<close>

theorem no_adjacent_free:
  assumes "reachable h"
  shows "list_all (\<lambda>f. \<not> adjacent_free h f) (fragments h) \<and>
         sum_list (map (\<lambda>f. unat (fragGetSize h f)) (fragments h)) =
           unat (capacity (diagnostics h))"
proof -
  from reachable_run_inv[OF assms] obtain fs bl where "heap_inv h fs bl"
    by (auto simp add: run_inv_def)
  from heap_inv_fragments(1,2)[OF this] show ?thesis by simp
qed

theorem no_adjacent_free_witness:
  "reachable (after heap4096 [Allocate 1, Allocate 1, Allocate 1, Free 4720, Free 4688]) \<and>
   fragments (after heap4096 [Allocate 1, Allocate 1, Allocate 1, Free 4720, Free 4688]) =
     [4672, 4736, 4768] \<and>
   list_all (\<lambda>f. \<not> adjacent_free
       (after heap4096 [Allocate 1, Allocate 1, Allocate 1, Free 4720, Free 4688]) f)
     (fragments (after heap4096 [Allocate 1, Allocate 1, Allocate 1, Free 4720, Free 4688])) \<and>
   sum_list (map (\<lambda>f. unat (fragGetSize
       (after heap4096 [Allocate 1, Allocate 1, Allocate 1, Free 4720, Free 4688]) f))
     (fragments (after heap4096 [Allocate 1, Allocate 1, Allocate 1, Free 4720, Free 4688]))) =
     unat (capacity (diagnostics
       (after heap4096 [Allocate 1, Allocate 1, Allocate 1, Free 4720, Free 4688])))"
proof -
  have "run (heap4096, []) [Allocate 1, Allocate 1, Allocate 1, Free 4720, Free 4688] \<noteq> None"
    by code_simp
  then have a: "reachable (after heap4096 [Allocate 1, Allocate 1, Allocate 1, Free 4720, Free 4688])"
    by (rule reachable_after4096)
  have b: "fragments (after heap4096 [Allocate 1, Allocate 1, Allocate 1, Free 4720, Free 4688]) =
     [4672, 4736, 4768]"
    by code_simp
  from no_adjacent_free[OF a] a b show ?thesis by blast
qed

section \<open>The invariant checker\<close>

text \<open>
  C2. Starting from a successfully initialised heap, after every sequence of fewer than
  \<open>2 ^ 64\<close> public calls that respects the preconditions (\<open>o1heapFree\<close> and
  \<open>o1heapReallocate\<close> applied only to live pointers or NULL),
  \<open>o1heapDoInvariantsHold\<close> returns true; whenever \<open>peak_request_size\<close> is not zero,
  either \<open>peak_request_size + O1HEAP_ALIGNMENT \<le> peak_allocated\<close> (as numbers, with no
  wrap-around) or \<open>oom_count > 0\<close>, and whenever \<open>peak_request_size\<close> is zero,
  \<open>allocated\<close>, \<open>peak_allocated\<close> and \<open>oom_count\<close> are all zero. The bound on the number
  of calls keeps the 64-bit \<open>oom_count\<close> from wrapping around to zero: see below.
\<close>

theorem invariants_after_calls:
  assumes "arena_object base sz" and "o1heapInit mem dat base sz = Some h0"
    and "run (h0, []) cs = Some (h, live)" and "length cs < 2 ^ 64"
  shows "o1heapDoInvariantsHold h \<and>
         (peak_request_size (diagnostics h) \<noteq> 0 \<longrightarrow>
            unat (peak_request_size (diagnostics h)) + unat O1HEAP_ALIGNMENT
              \<le> unat (peak_allocated (diagnostics h)) \<or>
            0 < oom_count (diagnostics h)) \<and>
         (peak_request_size (diagnostics h) = 0 \<longrightarrow>
            allocated (diagnostics h) = 0 \<and> peak_allocated (diagnostics h) = 0 \<and>
            oom_count (diagnostics h) = 0)"
proof -
  note ri = init_run_inv[OF assms(1,2)]
  from run_inv_run[OF ri assms(3)] obtain fs bl where inv: "heap_inv h fs bl"
    by (auto simp add: run_inv_def)
  from run_diag[OF ri init_diag[OF assms(1,2)] assms(3)] have di: "diag_inv (length cs) h" by simp
  from invariants_hold[OF inv di assms(4)] show ?thesis by (simp add: consts_values)
qed

theorem invariants_after_calls_witness:
  "arena_object 4096 (576 + 4096) \<and>
   o1heapInit blank_mem blank_dat 4096 (576 + 4096) = Some heap4096 \<and>
   run (heap4096, []) [Allocate 1, Allocate 5000, Reallocate 4688 100, Free 4688] =
     Some (after heap4096 [Allocate 1, Allocate 5000, Reallocate 4688 100, Free 4688], []) \<and>
   length [Allocate 1, Allocate 5000, Reallocate 4688 100, Free 4688] < 2 ^ 64 \<and>
   peak_request_size (diagnostics
     (after heap4096 [Allocate 1, Allocate 5000, Reallocate 4688 100, Free 4688])) \<noteq> 0 \<and>
   o1heapDoInvariantsHold
     (after heap4096 [Allocate 1, Allocate 5000, Reallocate 4688 100, Free 4688]) \<and>
   (unat (peak_request_size (diagnostics
        (after heap4096 [Allocate 1, Allocate 5000, Reallocate 4688 100, Free 4688]))) +
      unat O1HEAP_ALIGNMENT
      \<le> unat (peak_allocated (diagnostics
        (after heap4096 [Allocate 1, Allocate 5000, Reallocate 4688 100, Free 4688]))) \<or>
    0 < oom_count (diagnostics
        (after heap4096 [Allocate 1, Allocate 5000, Reallocate 4688 100, Free 4688])))"
proof -
  have ao: "arena_object 4096 (576 + 4096)" by (simp add: arena_object_def)
  have n: "run (heap4096, []) [Allocate 1, Allocate 5000, Reallocate 4688 100, Free 4688] \<noteq> None"
    by code_simp
  have l: "snd (the (run (heap4096, [])
      [Allocate 1, Allocate 5000, Reallocate 4688 100, Free 4688])) = []"
    by code_simp
  note r = run_after[OF n l]
  have len: "length [Allocate 1, Allocate 5000, Reallocate 4688 100, Free 4688] < 2 ^ 64"
    by simp
  have p: "peak_request_size (diagnostics
     (after heap4096 [Allocate 1, Allocate 5000, Reallocate 4688 100, Free 4688])) \<noteq> 0"
    by code_simp
  from invariants_after_calls[OF ao heap4096_init r len] ao heap4096_init r len p
  show ?thesis by blast
qed

text \<open>
  A heap of capacity 4096 on which \<open>o1heapAllocate\<close> is called \<open>2 ^ 64\<close> times with an
  amount of 5000 bytes. Every call fails at the capacity guard and adds one to
  \<open>oom_count\<close>, an unsigned 64-bit counter, which is zero again after the last call, while
  \<open>peak_request_size\<close> is 5000: the checker then finds neither
  \<open>peak_request_size < capacity\<close> nor \<open>oom_count > 0\<close>, and returns false.
\<close>

theorem invariants_wrap_counterexample:
  "arena_object 4096 (576 + 4096) \<and>
   o1heapInit blank_mem blank_dat 4096 (576 + 4096) = Some heap4096 \<and>
   run (heap4096, []) (replicate (2 ^ 64) (Allocate 5000)) =
     Some (heap4096\<lparr>diagnostics := (diagnostics heap4096)\<lparr>
             peak_request_size := 5000, oom_count := 0\<rparr>\<rparr>, []) \<and>
   capacity (diagnostics heap4096) = 4096 \<and>
   \<not> o1heapDoInvariantsHold (heap4096\<lparr>diagnostics := (diagnostics heap4096)\<lparr>
             peak_request_size := 5000, oom_count := 0\<rparr>\<rparr>)"
proof -
  have ao: "arena_object 4096 (576 + 4096)" by (simp add: arena_object_def)
  have c: "capacity (diagnostics heap4096) = 4096" by code_simp
  have g: "capacity (diagnostics heap4096) - O1HEAP_ALIGNMENT < 5000" by code_simp
  have q: "peak_request_size (diagnostics heap4096) \<le> 5000" by code_simp
  have o: "oom_count (diagnostics heap4096) = 0" by code_simp
  obtain k :: nat where k: "2 ^ 64 = Suc k" by (cases "(2::nat) ^ 64") simp_all
  have z: "(of_nat (2 ^ 64) :: size_t) = 0" by simp
  have "run (heap4096, []) (replicate (Suc k) (Allocate 5000)) =
     Some (heap4096\<lparr>diagnostics := (diagnostics heap4096)\<lparr>
             peak_request_size := 5000,
             oom_count := oom_count (diagnostics heap4096) + of_nat (Suc k)\<rparr>\<rparr>, [])"
    using g q by (rule failed_allocs)
  then have r: "run (heap4096, []) (replicate (2 ^ 64) (Allocate 5000)) =
     Some (heap4096\<lparr>diagnostics := (diagnostics heap4096)\<lparr>
             peak_request_size := 5000, oom_count := 0\<rparr>\<rparr>, [])"
    unfolding k[symmetric] z o by (simp only: add_0_left)
  have d: "\<not> o1heapDoInvariantsHold (heap4096\<lparr>diagnostics := (diagnostics heap4096)\<lparr>
             peak_request_size := 5000, oom_count := 0\<rparr>\<rparr>)"
    by code_simp
  from ao heap4096_init r c d show ?thesis by blast
qed

section \<open>The peak of the allocated memory\<close>




section \<open>The maximum allocation size\<close>

text \<open>
  C4. In every heap reached from a successful \<open>o1heapInit\<close> by public calls,
  \<open>o1heapGetMaxAllocationSize\<close> returns \<open>2 ^ K - O1HEAP_ALIGNMENT\<close> where \<open>K\<close> is the
  floor of the binary logarithm of the capacity, and every \<open>o1heapAllocate\<close> call whose
  amount exceeds this value returns NULL and adds one to \<open>oom_count\<close>; the heap is
  otherwise unchanged but for \<open>peak_request_size\<close>. Such a call fails at the capacity
  guard only when the amount exceeds \<open>capacity - O1HEAP_ALIGNMENT\<close>; an amount that passes
  the guard is turned down by the bin mask, which has no non-empty bin at or above the
  optimal one (see below for an amount of this kind).
\<close>

theorem above_max_allocation_fails:
  assumes "arena_object base sz" and "o1heapInit mem dat base sz = Some h0"
    and "run (h0, []) cs = Some (h, live)" and "o1heapGetMaxAllocationSize h < amount"
  shows "(\<exists>K. 2 ^ K \<le> unat (capacity (diagnostics h)) \<and>
              unat (capacity (diagnostics h)) < 2 ^ Suc K \<and>
              unat (o1heapGetMaxAllocationSize h) = 2 ^ K - unat O1HEAP_ALIGNMENT) \<and>
         o1heapAllocate h amount =
           (h\<lparr>diagnostics := (diagnostics h)\<lparr>
               peak_request_size := larger (peak_request_size (diagnostics h)) amount,
               oom_count := oom_count (diagnostics h) + 1\<rparr>\<rparr>, NULL) \<and>
         (amount \<le> capacity (diagnostics h) - O1HEAP_ALIGNMENT \<longrightarrow>
            nonempty_bin_mask h AND
              NOT (pow2 (log2Floor (roundUpToPowerOf2 (amount + O1HEAP_ALIGNMENT)
                     div FRAGMENT_SIZE_MIN)) - 1) = 0)"
proof -
  from run_inv_reachable[OF assms(1,2,3)] obtain fs bl where inv: "heap_inv h fs bl"
    by (auto simp add: run_inv_def)
  note mv = max_allocation_value[OF inv]
  have 1: "\<exists>K. 2 ^ K \<le> unat (capacity (diagnostics h)) \<and>
              unat (capacity (diagnostics h)) < 2 ^ Suc K \<and>
              unat (o1heapGetMaxAllocationSize h) = 2 ^ K - unat O1HEAP_ALIGNMENT"
    using mv(3,4,5) by (intro exI[of _ "log2Floor (capacity (diagnostics h))"]) (simp add: consts_values)
  have nf: "\<not> fits h fs amount" using inv assms(4) by (rule above_max_not_fits)
  have a0: "amount \<noteq> 0" using assms(4) by auto
  have 2: "o1heapAllocate h amount =
           (h\<lparr>diagnostics := (diagnostics h)\<lparr>
               peak_request_size := larger (peak_request_size (diagnostics h)) amount,
               oom_count := oom_count (diagnostics h) + 1\<rparr>\<rparr>, NULL)"
    using allocate_fails[OF inv nf] a0 by simp
  have 3: "nonempty_bin_mask h AND
              NOT (pow2 (log2Floor (roundUpToPowerOf2 (amount + O1HEAP_ALIGNMENT)
                     div FRAGMENT_SIZE_MIN)) - 1) = 0"
    if "amount \<le> capacity (diagnostics h) - O1HEAP_ALIGNMENT"
    using fits_suitable[OF inv _ that] a0 nf by (simp add: word_gt_0)
  from 1 2 3 show ?thesis by blast
qed

theorem above_max_allocation_fails_witness:
  "arena_object 4096 (576 + 4128) \<and>
   o1heapInit blank_mem blank_dat 4096 (576 + 4128) = Some heap4128 \<and>
   run (heap4128, []) [Allocate 1] = Some (after heap4128 [Allocate 1], [4688]) \<and>
   o1heapGetMaxAllocationSize (after heap4128 [Allocate 1]) < 4100 \<and>
   4100 \<le> capacity (diagnostics (after heap4128 [Allocate 1])) - O1HEAP_ALIGNMENT \<and>
   o1heapAllocate (after heap4128 [Allocate 1]) 4100 =
     ((after heap4128 [Allocate 1])\<lparr>diagnostics := (diagnostics (after heap4128 [Allocate 1]))\<lparr>
         peak_request_size :=
           larger (peak_request_size (diagnostics (after heap4128 [Allocate 1]))) 4100,
         oom_count := oom_count (diagnostics (after heap4128 [Allocate 1])) + 1\<rparr>\<rparr>, NULL) \<and>
   nonempty_bin_mask (after heap4128 [Allocate 1]) AND
     NOT (pow2 (log2Floor (roundUpToPowerOf2 (4100 + O1HEAP_ALIGNMENT)
            div FRAGMENT_SIZE_MIN)) - 1) = 0"
proof -
  have ao: "arena_object 4096 (576 + 4128)" by (simp add: arena_object_def)
  have n: "run (heap4128, []) [Allocate 1] \<noteq> None" by code_simp
  have l: "snd (the (run (heap4128, []) [Allocate 1])) = [4688]" by code_simp
  note r = run_after[OF n l]
  have g: "o1heapGetMaxAllocationSize (after heap4128 [Allocate 1]) < 4100" by code_simp
  have c: "4100 \<le> capacity (diagnostics (after heap4128 [Allocate 1])) - O1HEAP_ALIGNMENT"
    by code_simp
  from above_max_allocation_fails[OF ao heap4128_init r g] ao heap4128_init r g c
  show ?thesis by blast
qed

text \<open>
  With a capacity of 4128 the maximum allocation size is 4080. A request of 4081 bytes
  passes the capacity guard (4081 is at most \<open>capacity - O1HEAP_ALIGNMENT\<close> = 4112) and is
  turned down only by the bin mask, which has no bin large enough.
\<close>

theorem max_allocation_guard_counterexample:
  "o1heapGetMaxAllocationSize heap4128 = 4080 \<and> (4081::size_t) > 4080 \<and>
   (0::size_t) < 4081 \<and> 4081 \<le> capacity (diagnostics heap4128) - O1HEAP_ALIGNMENT \<and>
   nonempty_bin_mask heap4128 AND
     NOT (pow2 (log2Floor (roundUpToPowerOf2 (4081 + O1HEAP_ALIGNMENT) div FRAGMENT_SIZE_MIN)) - 1) = 0 \<and>
   snd (o1heapAllocate heap4128 4081) = NULL \<and>
   oom_count (diagnostics (fst (o1heapAllocate heap4128 4081))) = 1"
  by code_simp

section \<open>Failed calls\<close>




end
